(* ===== verification/Prelude.thy ===== *)
theory Prelude
  imports Main "HOL-Library.Word" "HOL-Library.Monad_Syntax"
begin

text \<open>
  The vocabulary shared by the components: bytes, buffers and the C accesses to them, fixed-width
  little-endian encodings, and the generic facts on lists of equally long chunks.

  A C function that reads or writes memory, or that can stop the server with \<open>assert\<close> or a panic,
  returns an \<open>option\<close>: \<open>None\<close> stands for an access outside the buffer and for a failed assertion.
  That such a function returns \<open>Some\<close> under the component's invariant is therefore a memory safety
  statement.
\<close>

unbundle bit_operations_syntax

section \<open>Types and collections\<close>

type_synonym byte = "8 word"
type_synonym u16 = "16 word"
type_synonym u32 = "32 word"
type_synonym u64 = "64 word"

type_synonym bytes = "byte list"

named_theorems mem_simps \<open>rewriting of buffer accesses that are in range\<close>
named_theorems codec_simps \<open>encoders followed by their decoders\<close>

section \<open>Assertions and buffers\<close>

definition guard :: "bool \<Rightarrow> unit option" where
  "guard b = (if b then Some () else None)"

lemma guard_True [simp]: "guard True = Some ()"
  by (simp add: guard_def)

lemma guard_False [simp]: "guard False = None"
  by (simp add: guard_def)

lemma guard_eq_Some [simp]: "guard b = Some u \<longleftrightarrow> b"
  by (simp add: guard_def)

definition mem_rd :: "bytes \<Rightarrow> nat \<Rightarrow> nat \<Rightarrow> bytes option" where
  "mem_rd bs off n = (if off + n \<le> length bs then Some (take n (drop off bs)) else None)"

definition mem_wr :: "bytes \<Rightarrow> nat \<Rightarrow> bytes \<Rightarrow> bytes option" where
  "mem_wr bs off xs =
     (if off + length xs \<le> length bs
      then Some (take off bs @ xs @ drop (off + length xs) bs) else None)"

text \<open>\<open>memmove(bs + dst, bs + src, n)\<close>: the source is read before anything is written.\<close>

definition mem_move :: "bytes \<Rightarrow> nat \<Rightarrow> nat \<Rightarrow> nat \<Rightarrow> bytes option" where
  "mem_move bs dst src n = do { xs \<leftarrow> mem_rd bs src n; mem_wr bs dst xs }"

text \<open>
  \<open>zrealloc\<close> keeps the common prefix; what the new bytes hold is not determined, so it is an
  argument \<open>junk\<close> of every operation that grows a buffer.
\<close>

definition zrealloc :: "(nat \<Rightarrow> byte) \<Rightarrow> bytes \<Rightarrow> nat \<Rightarrow> bytes" where
  "zrealloc junk bs n = take n bs @ map junk [length bs..<n]"

lemma length_zrealloc [simp]: "length (zrealloc junk bs n) = n"
  by (simp add: zrealloc_def)

lemma take_zrealloc [simp]: "k \<le> n \<Longrightarrow> k \<le> length bs \<Longrightarrow> take k (zrealloc junk bs n) = take k bs"
  by (simp add: zrealloc_def min_absorb1)

lemma zrealloc_shrink: "n \<le> length bs \<Longrightarrow> zrealloc junk bs n = take n bs"
  by (simp add: zrealloc_def)

lemma zrealloc_grow:
  "length bs \<le> n \<Longrightarrow> zrealloc junk bs n = bs @ map junk [length bs..<n]"
  by (simp add: zrealloc_def)

lemma mem_rd_Some [mem_simps]: "off + n \<le> length bs \<Longrightarrow> mem_rd bs off n = Some (take n (drop off bs))"
  by (simp add: mem_rd_def)

lemma mem_wr_Some [mem_simps]:
  "off + length xs \<le> length bs \<Longrightarrow>
   mem_wr bs off xs = Some (take off bs @ xs @ drop (off + length xs) bs)"
  by (simp add: mem_wr_def)

lemma mem_wr_length: "mem_wr bs off xs = Some bs' \<Longrightarrow> length bs' = length bs"
  by (auto simp: mem_wr_def split: if_splits)

lemma mem_rd_wr_same:
  "mem_wr bs off xs = Some bs' \<Longrightarrow> mem_rd bs' off (length xs) = Some xs"
  by (auto simp: mem_wr_def mem_rd_def split: if_splits)

lemma mem_rd_append [mem_simps]:
  "length xs = off \<Longrightarrow> length ys = n \<Longrightarrow> mem_rd (xs @ ys @ zs) off n = Some ys"
  by (simp add: mem_rd_def)

lemma take_of_take_append: "k \<le> off \<Longrightarrow> off \<le> length xs \<Longrightarrow> take k (take off xs @ ys) = take k xs"
  by (simp add: min_def)

section \<open>Little-endian integers of a given number of bytes\<close>

fun le_bytes :: "nat \<Rightarrow> int \<Rightarrow> bytes" where
  "le_bytes 0 x = []"
| "le_bytes (Suc n) x = word_of_int x # le_bytes n (x div 256)"

fun le_uint :: "bytes \<Rightarrow> int" where
  "le_uint [] = 0"
| "le_uint (b # bs) = uint b + 256 * le_uint bs"

text \<open>A two's complement reading of the same bytes.\<close>

definition le_sint :: "bytes \<Rightarrow> int" where
  "le_sint bs = (let u = le_uint bs; m = 256 ^ length bs in if 2 * u < m then u else u - m)"

lemma length_le_bytes [simp]: "length (le_bytes n x) = n"
  by (induction n arbitrary: x) auto

lemma le_uint_bounds: "0 \<le> le_uint bs \<and> le_uint bs < 256 ^ length bs"
proof (induction bs)
  case Nil
  show ?case by simp
next
  case (Cons b bs)
  have b: "0 \<le> uint b" "uint b < 256"
    using uint_lt2p [of b] by simp_all
  have "uint b + 256 * le_uint bs < 256 + 256 * (256 ^ length bs - 1)"
    using b Cons.IH by (intro add_less_le_mono) (auto simp: algebra_simps)
  then show ?case using b Cons.IH by (simp add: algebra_simps)
qed

lemmas le_uint_nonneg [simp] = le_uint_bounds [THEN conjunct1]
lemmas le_uint_less = le_uint_bounds [THEN conjunct2]

lemma le_uint_le_bytes [codec_simps]: "le_uint (le_bytes n x) = x mod 256 ^ n"
proof (induction n arbitrary: x)
  case 0
  show ?case by simp
next
  case (Suc n)
  have "le_uint (le_bytes (Suc n) x) = x mod 256 + 256 * ((x div 256) mod 256 ^ n)"
    by (simp add: Suc.IH uint_word_of_int take_bit_eq_mod)
  also have "\<dots> = x mod (256 * 256 ^ n)"
    by (simp add: zmod_zmult2_eq)
  finally show ?case by simp
qed

lemma le_bytes_le_uint [codec_simps]: "le_bytes (length bs) (le_uint bs) = bs"
proof (induction bs)
  case Nil
  show ?case by simp
next
  case (Cons b bs)
  have "(uint b + 256 * le_uint bs) div 256 = le_uint bs"
    using uint_lt2p [of b] by simp
  moreover have "word_of_int (uint b + 256 * le_uint bs) = b"
  proof -
    have "uint (word_of_int (uint b + 256 * le_uint bs) :: byte) = uint b"
      unfolding uint_word_of_int take_bit_eq_mod using uint_lt2p [of b] by simp
    then show ?thesis by (simp only: word_uint_eq_iff)
  qed
  ultimately show ?case by (simp add: Cons.IH)
qed

lemma le_uint_inject: "length xs = length ys \<Longrightarrow> le_uint xs = le_uint ys \<Longrightarrow> xs = ys"
  by (metis le_bytes_le_uint)

lemma le_sint_le_bytes [codec_simps]:
  assumes "- (256 ^ n) \<le> 2 * x" and "2 * x < 256 ^ n"
  shows "le_sint (le_bytes n x) = x"
proof (cases "0 \<le> x")
  case True
  with assms have "x mod 256 ^ n = x" by simp
  with True assms show ?thesis
    by (simp add: le_sint_def Let_def le_uint_le_bytes)
next
  case False
  with assms have "(x + 256 ^ n) mod 256 ^ n = x + 256 ^ n" by (intro mod_pos_pos_trivial) auto
  then have "x mod 256 ^ n = x + 256 ^ n" by simp
  with False assms show ?thesis
    by (simp add: le_sint_def Let_def le_uint_le_bytes)
qed

lemma le_bytes_mod: "le_bytes n (x mod 256 ^ n) = le_bytes n x"
  by (rule le_uint_inject) (simp_all add: le_uint_le_bytes)

lemma le_bytes_le_sint [codec_simps]: "length bs = n \<Longrightarrow> le_bytes n (le_sint bs) = bs"
proof -
  assume n: "length bs = n"
  have "le_sint bs mod 256 ^ n = le_uint bs mod 256 ^ n"
    by (simp add: le_sint_def Let_def n mod_diff_right_eq)
  then show ?thesis using le_bytes_mod [of n "le_sint bs"] le_bytes_mod [of n "le_uint bs"] le_bytes_le_uint [of bs] n
    by simp
qed

lemma le_sint_bounds:
  "- (256 ^ length bs) \<le> 2 * le_sint bs \<and> 2 * le_sint bs < 256 ^ length bs"
proof -
  have "0 \<le> le_uint bs" "le_uint bs < 256 ^ length bs"
    using le_uint_bounds [of bs] by auto
  then show ?thesis by (simp add: le_sint_def Let_def del: le_uint_nonneg)
qed

section \<open>Equally long chunks\<close>

definition uniform :: "nat \<Rightarrow> 'a list list \<Rightarrow> bool" where
  "uniform e cs \<longleftrightarrow> (\<forall>c \<in> set cs. length c = e)"

lemma uniform_Nil [simp]: "uniform e []"
  by (simp add: uniform_def)

lemma uniform_Cons [simp]: "uniform e (c # cs) \<longleftrightarrow> length c = e \<and> uniform e cs"
  by (auto simp: uniform_def)

lemma uniform_append [simp]: "uniform e (cs @ ds) \<longleftrightarrow> uniform e cs \<and> uniform e ds"
  by (auto simp: uniform_def)

lemma uniform_map_le_bytes [simp]: "uniform e (map (le_bytes e) vs)"
  by (simp add: uniform_def)

lemma uniform_take [simp, intro]: "uniform e cs \<Longrightarrow> uniform e (take k cs)"
  by (auto simp: uniform_def dest: in_set_takeD)

lemma uniform_drop [simp, intro]: "uniform e cs \<Longrightarrow> uniform e (drop k cs)"
  by (auto simp: uniform_def dest: in_set_dropD)

lemma length_concat_uniform: "uniform e cs \<Longrightarrow> length (concat cs) = length cs * e"
  by (induction cs) auto

lemma take_concat_uniform: "uniform e cs \<Longrightarrow> take (k * e) (concat cs) = concat (take k cs)"
proof (induction cs arbitrary: k)
  case (Cons c cs)
  then show ?case by (cases k) (auto simp: algebra_simps)
qed simp

lemma drop_concat_uniform: "uniform e cs \<Longrightarrow> drop (k * e) (concat cs) = concat (drop k cs)"
proof (induction cs arbitrary: k)
  case (Cons c cs)
  then show ?case by (cases k) (auto simp: algebra_simps)
qed simp

lemma nth_concat_uniform:
  assumes "uniform e cs" and "k < length cs"
  shows "take e (drop (k * e) (concat cs)) = cs ! k"
proof -
  have "drop k cs = cs ! k # drop (Suc k) cs"
    using assms(2) by (simp add: Cons_nth_drop_Suc)
  moreover have "length (cs ! k) = e"
    using assms by (auto simp: uniform_def)
  ultimately show ?thesis
    using assms(1) by (simp add: drop_concat_uniform)
qed

lemma uniform_exists:
  assumes "length bs = n * e"
  obtains cs where "uniform e cs" and "length cs = n" and "bs = concat cs"
proof -
  have "\<exists>cs. uniform e cs \<and> length cs = n \<and> bs = concat cs"
    using assms
  proof (induction n arbitrary: bs)
    case (Suc n)
    then have "length (drop e bs) = n * e" by simp
    from Suc.IH [OF this] obtain cs where cs: "uniform e cs" "length cs = n" "drop e bs = concat cs"
      by blast
    have "bs = concat (take e bs # cs)"
      using cs(3) by (metis append_take_drop_id concat.simps(2))
    moreover have "length (take e bs) = e" using Suc.prems by simp
    ultimately show ?case using cs by (intro exI [of _ "take e bs # cs"]) auto
  qed simp
  then show ?thesis using that by blast
qed

section \<open>Sessions\<close>

text \<open>A client's calls run one after the other, on the program's state and on an abstract state. The contract of
  a component is one step of this; the locale turns it into the statement about whole sessions.\<close>

fun run_steps :: "('c \<Rightarrow> 's \<Rightarrow> ('r \<times> 's) option) \<Rightarrow> 'c list \<Rightarrow> 's \<Rightarrow> ('r list \<times> 's) option" where
  "run_steps step [] s = Some ([], s)"
| "run_steps step (c # cs) s =
     do { (r, s) \<leftarrow> step c s; (rs, s) \<leftarrow> run_steps step cs s; Some (r # rs, s) }"

fun spec_steps :: "('c \<Rightarrow> 'a \<Rightarrow> 'r \<times> 'a) \<Rightarrow> 'c list \<Rightarrow> 'a \<Rightarrow> 'r list \<times> 'a" where
  "spec_steps spec [] a = ([], a)"
| "spec_steps spec (c # cs) a =
     (let (r, a) = spec c a; (rs, a) = spec_steps spec cs a in (r # rs, a))"

fun ok_steps :: "('c \<Rightarrow> 'a \<Rightarrow> bool) \<Rightarrow> ('c \<Rightarrow> 'a \<Rightarrow> 'r \<times> 'a) \<Rightarrow> 'c list \<Rightarrow> 'a \<Rightarrow> bool" where
  "ok_steps ok spec [] a \<longleftrightarrow> True"
| "ok_steps ok spec (c # cs) a \<longleftrightarrow> ok c a \<and> ok_steps ok spec cs (snd (spec c a))"

locale session =
  fixes step :: "'c \<Rightarrow> 's \<Rightarrow> ('r \<times> 's) option"
    and spec :: "'c \<Rightarrow> 'a \<Rightarrow> 'r \<times> 'a"
    and ok :: "'c \<Rightarrow> 'a \<Rightarrow> bool"
    and rep :: "'s \<Rightarrow> 'a \<Rightarrow> bool"
  assumes step_refines:
    "rep s a \<Longrightarrow> ok c a \<Longrightarrow> \<exists>s'. step c s = Some (fst (spec c a), s') \<and> rep s' (snd (spec c a))"
begin

lemma run_refines:
  "rep s a \<Longrightarrow> ok_steps ok spec cs a \<Longrightarrow>
   \<exists>s'. run_steps step cs s = Some (fst (spec_steps spec cs a), s') \<and> rep s' (snd (spec_steps spec cs a))"
proof (induction cs arbitrary: s a)
  case (Cons c cs)
  obtain s1 where s1: "step c s = Some (fst (spec c a), s1)" "rep s1 (snd (spec c a))"
    using Cons.prems step_refines by fastforce
  then show ?case using Cons.IH [OF s1(2)] Cons.prems(2) by (auto simp: split_beta Let_def)
qed simp

end

end
