(* ===== verification/Intset.thy ===== *)
theory Intset
  imports Prelude
begin

text \<open>
  The sorted integer set of \<^verbatim>\<open>src/intset.c\<close>: one allocation holding an encoding (2, 4 or 8
  bytes per element), a length and the elements in increasing order. The model is of a
  little-endian target, where the \<^verbatim>\<open>memrevNNifbe\<close> and \<^verbatim>\<open>intrevNNifbe\<close> macros expand to
  nothing; names that start with an underscore in C get the prefix \<open>u_\<close>.

  The element bytes are a list of bytes that is read and written in place, so that the
  back-to-front copy of \<^verbatim>\<open>intsetUpgradeAndAdd\<close>, which reads the old encoding from the buffer it
  writes the new encoding to, is modelled as the code does it. A read or write outside the
  allocation, and a failed assertion, is \<open>None\<close>.
\<close>

section \<open>The structure and its element accesses\<close>

record intset =
  encoding :: nat
  is_length :: nat
  contents :: bytes

definition INTSET_ENC_INT16 :: nat where "INTSET_ENC_INT16 = 2"
definition INTSET_ENC_INT32 :: nat where "INTSET_ENC_INT32 = 4"
definition INTSET_ENC_INT64 :: nat where "INTSET_ENC_INT64 = 8"

lemmas intset_enc_defs [simp] = INTSET_ENC_INT16_def INTSET_ENC_INT32_def INTSET_ENC_INT64_def

text \<open>The size of the header (encoding and length) and the limit of \<^verbatim>\<open>size_t\<close>.\<close>

definition sizeof_intset :: nat where "sizeof_intset = 8"
definition SIZE_MAX :: nat where "SIZE_MAX = 2 ^ 64 - 1"

definition u_intsetValueEncoding :: "int \<Rightarrow> nat" where
  "u_intsetValueEncoding v =
     (if v < - (2 ^ 31) \<or> v > 2 ^ 31 - 1 then INTSET_ENC_INT64
      else if v < - (2 ^ 15) \<or> v > 2 ^ 15 - 1 then INTSET_ENC_INT32
      else INTSET_ENC_INT16)"

text \<open>The position is a C \<^verbatim>\<open>int\<close>; passing an unsigned value from \<open>2 ^ 31\<close> on makes it negative, and an element before the
  buffer would be accessed.\<close>

definition int_pos :: "int \<Rightarrow> int" where
  "int_pos pos = signed_take_bit 31 pos"

definition u_intsetGetEncoded :: "intset \<Rightarrow> int \<Rightarrow> nat \<Rightarrow> int option" where
  "u_intsetGetEncoded is pos enc =
     do { let pos = int_pos pos;
          guard (0 \<le> pos);
          v \<leftarrow> (if enc = INTSET_ENC_INT64 then mem_rd (contents is) (nat pos * 8) 8
               else if enc = INTSET_ENC_INT32 then mem_rd (contents is) (nat pos * 4) 4
               else mem_rd (contents is) (nat pos * 2) 2);
          Some (le_sint v) }"

definition u_intsetGet :: "intset \<Rightarrow> int \<Rightarrow> int option" where
  "u_intsetGet is pos = u_intsetGetEncoded is pos (encoding is)"

definition u_intsetSet :: "intset \<Rightarrow> int \<Rightarrow> int \<Rightarrow> intset option" where
  "u_intsetSet is pos value =
     do { let pos = int_pos pos;
          guard (0 \<le> pos);
          c \<leftarrow> (if encoding is = INTSET_ENC_INT64 then mem_wr (contents is) (nat pos * 8) (le_bytes 8 value)
               else if encoding is = INTSET_ENC_INT32 then mem_wr (contents is) (nat pos * 4) (le_bytes 4 value)
               else mem_wr (contents is) (nat pos * 2) (le_bytes 2 value));
          Some (is\<lparr>contents := c\<rparr>) }"

definition intsetNew :: intset where
  "intsetNew = \<lparr>encoding = INTSET_ENC_INT16, is_length = 0, contents = []\<rparr>"

definition intsetAllocSize :: "intset \<Rightarrow> nat option" where
  "intsetAllocSize is =
     (let size = is_length is * encoding is
      in do { guard (size \<le> SIZE_MAX - sizeof_intset); Some (sizeof_intset + size) })"

definition intsetResize :: "(nat \<Rightarrow> byte) \<Rightarrow> intset \<Rightarrow> nat \<Rightarrow> intset option" where
  "intsetResize junk is len =
     (let size = len * encoding is
      in do { guard (size \<le> SIZE_MAX - sizeof_intset);
              Some (is\<lparr>contents := zrealloc junk (contents is) size\<rparr>) })"

section \<open>Search, growth, insertion, deletion\<close>

text \<open>
  The loop of \<^verbatim>\<open>intsetSearch\<close>. Both bounds are non-negative C ints inside the loop, so their
  unsigned sum does not wrap and its shift is the plain midpoint.
\<close>

function intsetSearch_loop :: "intset \<Rightarrow> int \<Rightarrow> int \<Rightarrow> int \<Rightarrow> int \<Rightarrow> int \<Rightarrow> (int \<times> int \<times> int) option" where
  "intsetSearch_loop is value mn mx mid cur =
     (if mx \<ge> mn then
        (let mid = (mn + mx) div 2
         in case u_intsetGet is mid of
              None \<Rightarrow> None
            | Some cur \<Rightarrow>
                if value > cur then intsetSearch_loop is value (mid + 1) mx mid cur
                else if value < cur then intsetSearch_loop is value mn (mid - 1) mid cur
                else Some (mn, mid, cur))
      else Some (mn, mid, cur))"
  by pat_completeness auto
termination
  by (relation "measure (\<lambda>(is, value, mn, mx, mid, cur). nat (mx + 1 - mn))") auto

declare intsetSearch_loop.simps [simp del]

text \<open>The result pairs the return value with what is stored through \<^verbatim>\<open>pos\<close>.\<close>

definition intsetSearch :: "intset \<Rightarrow> int \<Rightarrow> (bool \<times> int) option" where
  "intsetSearch is value =
     (let mx = int_pos (int (is_length is) - 1)
      in if is_length is = 0 then Some (False, 0)
         else do {
           last \<leftarrow> u_intsetGet is mx;
           if value > last then Some (False, int (is_length is))
           else do {
             first \<leftarrow> u_intsetGet is 0;
             if value < first then Some (False, 0)
             else do {
               (mn, mid, cur) \<leftarrow> intsetSearch_loop is value 0 mx (- 1) (- 1);
               if value = cur then Some (True, mid) else Some (False, mn) } } })"

text \<open>\<^verbatim>\<open>while(length--) _intsetSet(is, length+prepend, _intsetGetEncoded(is, length, curenc))\<close>.\<close>

fun intsetUpgrade_loop :: "intset \<Rightarrow> nat \<Rightarrow> nat \<Rightarrow> nat \<Rightarrow> intset option" where
  "intsetUpgrade_loop is curenc prepend 0 = Some is"
| "intsetUpgrade_loop is curenc prepend (Suc len) =
     do { v \<leftarrow> u_intsetGetEncoded is (int len) curenc;
          is' \<leftarrow> u_intsetSet is (int (len + prepend)) v;
          intsetUpgrade_loop is' curenc prepend len }"

text \<open>The loop's counter is an \<^verbatim>\<open>int\<close> that is counted down; it must not start below 0.\<close>

definition intsetUpgradeAndAdd :: "(nat \<Rightarrow> byte) \<Rightarrow> intset \<Rightarrow> int \<Rightarrow> intset option" where
  "intsetUpgradeAndAdd junk is value =
     (let curenc = encoding is;
          newenc = u_intsetValueEncoding value;
          len = is_length is;
          prepend = (if value < 0 then 1 else 0)
      in do {
        is \<leftarrow> intsetResize junk (is\<lparr>encoding := newenc\<rparr>) ((is_length is + 1) mod 2 ^ 32);
        guard (0 \<le> int_pos (int len));
        is \<leftarrow> intsetUpgrade_loop is curenc prepend len;
        is \<leftarrow> (if prepend = 1 then u_intsetSet is 0 value
              else u_intsetSet is (int (is_length is)) value);
        Some (is\<lparr>is_length := (is_length is + 1) mod 2 ^ 32\<rparr>) })"

text \<open>The byte count is computed in \<^verbatim>\<open>uint32_t\<close>, twice.\<close>

definition intsetMoveTail :: "intset \<Rightarrow> nat \<Rightarrow> nat \<Rightarrow> intset option" where
  "intsetMoveTail is from to =
     (let n = nat ((int (is_length is) - int from) mod 2 ^ 32);
          sz = (if encoding is = INTSET_ENC_INT64 then 8
                else if encoding is = INTSET_ENC_INT32 then 4 else 2);
          count = (n * sz) mod 2 ^ 32
      in do { c \<leftarrow> mem_move (contents is) (to * sz) (from * sz) count;
              Some (is\<lparr>contents := c\<rparr>) })"

definition intsetAdd :: "(nat \<Rightarrow> byte) \<Rightarrow> intset \<Rightarrow> int \<Rightarrow> (intset \<times> bool) option" where
  "intsetAdd junk is value =
     (if u_intsetValueEncoding value > encoding is
      then do { is \<leftarrow> intsetUpgradeAndAdd junk is value; Some (is, True) }
      else do {
        (found, pos) \<leftarrow> intsetSearch is value;
        if found then Some (is, False)
        else do {
          is \<leftarrow> intsetResize junk is ((is_length is + 1) mod 2 ^ 32);
          is \<leftarrow> (if pos < int (is_length is) then intsetMoveTail is (nat pos) (nat pos + 1) else Some is);
          is \<leftarrow> u_intsetSet is pos value;
          Some (is\<lparr>is_length := (is_length is + 1) mod 2 ^ 32\<rparr>, True) } })"

definition intsetRemove :: "(nat \<Rightarrow> byte) \<Rightarrow> intset \<Rightarrow> int \<Rightarrow> (intset \<times> bool) option" where
  "intsetRemove junk is value =
     (if u_intsetValueEncoding value \<le> encoding is
      then do {
        (found, pos) \<leftarrow> intsetSearch is value;
        if found then
          (let len = is_length is
           in do {
             is \<leftarrow> (if pos < int len - 1 then intsetMoveTail is (nat pos + 1) (nat pos) else Some is);
             is \<leftarrow> intsetResize junk is (len - 1);
             Some (is\<lparr>is_length := len - 1\<rparr>, True) })
        else Some (is, False) }
      else Some (is, False))"

definition intsetFind :: "intset \<Rightarrow> int \<Rightarrow> bool option" where
  "intsetFind is value =
     (if u_intsetValueEncoding value \<le> encoding is
      then map_option fst (intsetSearch is value) else Some False)"

text \<open>\<^verbatim>\<open>rnd\<close> is the value \<^verbatim>\<open>genrand64_int64()\<close> returned.\<close>

definition intsetRandom :: "nat \<Rightarrow> intset \<Rightarrow> int option" where
  "intsetRandom rnd is = do { guard (is_length is \<noteq> 0); u_intsetGet is (int (rnd mod is_length is)) }"

definition intsetMax :: "intset \<Rightarrow> int option" where
  "intsetMax is = u_intsetGet is (int_pos (int (is_length is) - 1))"

definition intsetMin :: "intset \<Rightarrow> int option" where
  "intsetMin is = u_intsetGet is 0"

text \<open>The outer option is the memory access, the inner one the return value and \<^verbatim>\<open>*value\<close>.\<close>

definition intsetGet :: "intset \<Rightarrow> nat \<Rightarrow> int option option" where
  "intsetGet is pos =
     (if pos < is_length is then map_option Some (u_intsetGet is (int pos)) else Some None)"

definition intsetLen :: "intset \<Rightarrow> nat" where
  "intsetLen is = is_length is"

definition intsetBlobLen :: "intset \<Rightarrow> nat" where
  "intsetBlobLen is = sizeof_intset + is_length is * encoding is"

section \<open>Validation of a serialised intset\<close>

text \<open>The cast of a byte buffer of at least header size to \<^verbatim>\<open>intset *\<close>.\<close>

definition intset_of_blob :: "bytes \<Rightarrow> intset" where
  "intset_of_blob p =
     \<lparr>encoding = nat (le_uint (take 4 p)), is_length = nat (le_uint (take 4 (drop 4 p))),
      contents = drop 8 p\<rparr>"

fun intsetValidate_loop :: "intset \<Rightarrow> int \<Rightarrow> nat \<Rightarrow> nat \<Rightarrow> bool option" where
  "intsetValidate_loop is prev i 0 = Some True"
| "intsetValidate_loop is prev i (Suc k) =
     do { cur \<leftarrow> u_intsetGet is (int i);
          if cur \<le> prev then Some False else intsetValidate_loop is cur (Suc i) k }"

definition intsetValidateIntegrity :: "bytes \<Rightarrow> nat \<Rightarrow> bool \<Rightarrow> bool option" where
  "intsetValidateIntegrity p sz deep =
     (if sz < sizeof_intset then Some False
      else (let is = intset_of_blob p;
                enc = encoding is;
                count = is_length is
            in if \<not> (enc = INTSET_ENC_INT64 \<or> enc = INTSET_ENC_INT32 \<or> enc = INTSET_ENC_INT16)
               then Some False
               else if sizeof_intset + count * enc \<noteq> sz then Some False
               else if count = 0 then Some False
               else if \<not> deep then Some True
               else do { prev \<leftarrow> u_intsetGet is 0; intsetValidate_loop is prev 1 (count - 1) }))"

section \<open>The abstract value and the invariant\<close>

text \<open>
  \<open>intset_rep is vs\<close>: the structure holds exactly the strictly increasing sequence \<open>vs\<close>, each
  element stored in the common encoding, with nothing else in the allocation.
\<close>

definition fits :: "nat \<Rightarrow> int \<Rightarrow> bool" where
  "fits e v \<longleftrightarrow> - (256 ^ e) \<le> 2 * v \<and> 2 * v < 256 ^ e"

definition intset_rep :: "intset \<Rightarrow> int list \<Rightarrow> bool" where
  "intset_rep is vs \<longleftrightarrow>
     encoding is \<in> {2, 4, 8} \<and> is_length is = length vs \<and>
     contents is = concat (map (le_bytes (encoding is)) vs) \<and>
     sorted_wrt (<) vs \<and> (\<forall>v \<in> set vs. fits (encoding is) v)"

text \<open>The executable abstraction function: the elements in order.\<close>

definition intset_elems :: "intset \<Rightarrow> int list" where
  "intset_elems is =
     map (\<lambda>i. le_sint (take (encoding is) (drop (i * encoding is) (contents is)))) [0..<is_length is]"

definition intset_inv :: "intset \<Rightarrow> bool" where
  "intset_inv is \<longleftrightarrow> intset_rep is (intset_elems is)"

lemma fits_le_sint: "fits e v \<Longrightarrow> le_sint (le_bytes e v) = v"
  by (simp add: fits_def le_sint_le_bytes)

lemma fits_mono: "fits e v \<Longrightarrow> e \<le> e' \<Longrightarrow> fits e' v"
proof -
  assume "fits e v" "e \<le> e'"
  moreover have "(256::int) ^ e \<le> 256 ^ e'" using \<open>e \<le> e'\<close> by (simp add: power_increasing)
  ultimately show ?thesis unfolding fits_def by linarith
qed

lemma fits_valueEncoding: "fits 8 v \<Longrightarrow> fits (u_intsetValueEncoding v) v"
  by (auto simp: fits_def u_intsetValueEncoding_def)

lemma valueEncoding_least:
  "e \<in> {2, 4, 8} \<Longrightarrow> fits 8 v \<Longrightarrow> fits e v \<longleftrightarrow> u_intsetValueEncoding v \<le> e"
  by (auto simp: fits_def u_intsetValueEncoding_def)

lemma valueEncoding_cases: "u_intsetValueEncoding v \<in> {2, 4, 8}"
  by (auto simp: u_intsetValueEncoding_def)

lemma intset_rep_elems: "intset_rep is vs \<Longrightarrow> intset_elems is = vs"
  unfolding intset_rep_def intset_elems_def
  by (intro nth_equalityI) (auto simp: nth_concat_uniform fits_le_sint)

lemma intset_rep_inv: "intset_rep is vs \<Longrightarrow> intset_inv is"
  by (simp add: intset_inv_def intset_rep_elems)

lemma intset_rep_iff: "intset_rep is vs \<longleftrightarrow> intset_inv is \<and> intset_elems is = vs"
  using intset_rep_elems by (auto simp: intset_inv_def)

lemma int_pos_small [simp]: "0 \<le> pos \<Longrightarrow> pos < 2 ^ 31 \<Longrightarrow> int_pos pos = pos"
  by (simp add: int_pos_def signed_take_bit_int_eq_self)

lemma getEncoded_chunk:
  assumes "e \<in> {2, 4, 8}" "uniform e cs" "contents is = concat cs @ rest" "i < length cs" "i < 2 ^ 31"
  shows "u_intsetGetEncoded is (int i) e = Some (le_sint (cs ! i))"
proof -
  have len: "length (concat cs) = length cs * e" using assms(2) by (rule length_concat_uniform)
  have "i * e + e \<le> length cs * e"
    using assms(4) by (metis Suc_leI mult_le_mono1 mult_Suc add.commute)
  then have rd: "mem_rd (contents is) (i * e) e = Some (cs ! i)"
    using assms len nth_concat_uniform [OF assms(2,4)] by (simp add: mem_rd_def)
  show ?thesis using assms(1,5) rd by (auto simp: u_intsetGetEncoded_def)
qed

lemma intset_rep_get:
  assumes "intset_rep is vs" "i < length vs" "i < 2 ^ 31"
  shows "u_intsetGet is (int i) = Some (vs ! i)"
proof -
  have "u_intsetGetEncoded is (int i) (encoding is) = Some (le_sint (map (le_bytes (encoding is)) vs ! i))"
    using assms by (intro getEncoded_chunk [where rest = "[]"]) (auto simp: intset_rep_def)
  then show ?thesis
    using assms by (auto simp: u_intsetGet_def intset_rep_def fits_le_sint)
qed


section \<open>Search\<close>

text \<open>What a search may return: the index of the value, or the index to insert it at.\<close>

definition search_spec :: "int list \<Rightarrow> int \<Rightarrow> bool \<Rightarrow> nat \<Rightarrow> bool" where
  "search_spec vs x found pos \<longleftrightarrow>
     (if found then pos < length vs \<and> vs ! pos = x
      else pos \<le> length vs \<and> (\<forall>i < pos. vs ! i < x) \<and>
           (\<forall>i. pos \<le> i \<and> i < length vs \<longrightarrow> x < vs ! i))"

lemma search_spec_found: "search_spec vs x found pos \<Longrightarrow> found \<longleftrightarrow> x \<in> set vs"
  by (auto simp: search_spec_def in_set_conv_nth split: if_splits) (metis not_le_imp_less order_less_irrefl)

lemma search_loop_correct:
  assumes "intset_rep is vs"
    and "0 \<le> mn" "mx < int (length vs)" "mn \<le> mx + 1"
    and "\<And>i. int i < mn \<Longrightarrow> vs ! i < x"
    and "\<And>i. mx < int i \<Longrightarrow> i < length vs \<Longrightarrow> x < vs ! i"
    and "mx < mn \<Longrightarrow> cur \<noteq> x" and "length vs \<le> 2 ^ 31"
  shows "\<exists>mn' mid' cur'. intsetSearch_loop is x mn mx mid cur = Some (mn', mid', cur') \<and>
     (if x = cur' then 0 \<le> mid' \<and> search_spec vs x True (nat mid')
      else 0 \<le> mn' \<and> search_spec vs x False (nat mn'))"
  using assms
proof (induction "is" x mn mx mid cur rule: intsetSearch_loop.induct)
  case (1 "is" x mn mx mid cur)
  note rep = "1.prems"(1)
  note step = intsetSearch_loop.simps [of "is" x mn mx mid cur]
  show ?case
  proof (cases "mn \<le> mx")
    case False
    then have mn: "mn = mx + 1" using "1.prems"(4) by simp
    have "search_spec vs x False (nat mn)"
      unfolding search_spec_def using "1.prems" False mn by (auto simp: zless_nat_eq_int_zless nat_le_iff)
    then show ?thesis using False step "1.prems"(2,7) by auto
  next
    case True
    define m where "m = (mn + mx) div 2"
    have m: "mn \<le> m" "m \<le> mx" "0 \<le> m" using True "1.prems"(2) by (auto simp: m_def)
    have lt: "nat m < length vs" using m "1.prems"(3) by linarith
    have get: "u_intsetGet is m = Some (vs ! nat m)"
      using intset_rep_get [OF rep lt] lt "1.prems"(8) m(3) by simp
    have srt: "vs ! i < vs ! j" if "i < j" "j < length vs" for i j
      using rep that by (auto simp: intset_rep_def sorted_wrt_nth_less)
    have low: "vs ! i \<le> vs ! nat m" if "int i < m + 1" for i
      using that srt [of i "nat m"] lt by (cases "i = nat m") (auto intro: less_imp_le)
    have high: "vs ! nat m \<le> vs ! i" if "m - 1 < int i" "i < length vs" for i
      using that srt [of "nat m" i] by (cases "i = nat m") (auto intro: less_imp_le)
    consider "x > vs ! nat m" | "x < vs ! nat m" | "x = vs ! nat m" by linarith
    then show ?thesis
    proof cases
      case 1
      have low1: "vs ! i < x" if "int i < m + 1" for i
        using low [OF that] 1 by linarith
      have "\<exists>mn' mid' cur'. intsetSearch_loop is x (m + 1) mx m (vs ! nat m) = Some (mn', mid', cur') \<and>
         (if x = cur' then 0 \<le> mid' \<and> search_spec vs x True (nat mid')
          else 0 \<le> mn' \<and> search_spec vs x False (nat mn'))"
        using True get 1 [THEN less_imp_neq] m "1.prems" low1 by (intro "1.IH"(1) [OF True m_def get]) auto
      then show ?thesis using 1 True get step by (simp add: m_def [symmetric] Let_def)
    next
      case 2
      have "\<exists>mn' mid' cur'. intsetSearch_loop is x mn (m - 1) m (vs ! nat m) = Some (mn', mid', cur') \<and>
         (if x = cur' then 0 \<le> mid' \<and> search_spec vs x True (nat mid')
          else 0 \<le> mn' \<and> search_spec vs x False (nat mn'))"
        using True get 2 m "1.prems" high
        by (intro "1.IH"(2) [OF True m_def get]) (auto intro: less_le_trans)
      then show ?thesis using 2 True get step by (simp add: m_def [symmetric] Let_def)
    next
      case 3
      then show ?thesis using True get step lt m(3)
        by (simp add: m_def [symmetric] Let_def search_spec_def)
    qed
  qed
qed

lemma intsetSearch_correct:
  assumes rep: "intset_rep is vs" and small: "length vs \<le> 2 ^ 31"
  shows "\<exists>found pos. intsetSearch is x = Some (found, int pos) \<and> search_spec vs x found pos"
proof (cases "vs = []")
  case True
  then show ?thesis using rep
    by (auto simp: intsetSearch_def intset_rep_def search_spec_def intro!: exI [of _ False] exI [of _ 0])
next
  case False
  define n where "n = length vs - 1"
  have n: "length vs = Suc n" using False by (simp add: n_def)
  have mx: "int_pos (int (is_length is) - 1) = int n"
    using rep small n by (simp add: intset_rep_def)
  have last: "u_intsetGet is (int n) = Some (vs ! n)"
    using rep n small by (intro intset_rep_get) auto
  have first: "u_intsetGet is 0 = Some (vs ! 0)"
    using intset_rep_get [OF rep, of 0] n by simp
  have ne: "is_length is \<noteq> 0" "is_length is = Suc n" using rep n by (auto simp: intset_rep_def)
  have srt: "vs ! i < vs ! j" if "i < j" "j < length vs" for i j
    using rep that by (auto simp: intset_rep_def sorted_wrt_nth_less)
  consider "x > vs ! n" | "x < vs ! 0" "\<not> x > vs ! n" | "vs ! 0 \<le> x" "x \<le> vs ! n"
    by linarith
  then show ?thesis
  proof cases
    case 1
    have "search_spec vs x False (Suc n)"
      unfolding search_spec_def using 1 srt n by (auto simp: less_Suc_eq intro: less_trans)
    then show ?thesis using 1 ne mx last by (force simp: intsetSearch_def Let_def)
  next
    case 2
    have "search_spec vs x False 0"
      unfolding search_spec_def using 2 srt n by (auto, metis gr0I less_trans)
    then show ?thesis using 2 ne mx last first
      by (force simp: intsetSearch_def Let_def)
  next
    case 3
    have "\<exists>mn' mid' cur'. intsetSearch_loop is x 0 (int n) (- 1) (- 1) = Some (mn', mid', cur') \<and>
       (if x = cur' then 0 \<le> mid' \<and> search_spec vs x True (nat mid')
        else 0 \<le> mn' \<and> search_spec vs x False (nat mn'))"
      using rep n small by (intro search_loop_correct) auto
    then obtain mn' mid' cur' where
      l: "intsetSearch_loop is x 0 (int n) (- 1) (- 1) = Some (mn', mid', cur')" and
      p: "if x = cur' then 0 \<le> mid' \<and> search_spec vs x True (nat mid')
          else 0 \<le> mn' \<and> search_spec vs x False (nat mn')" by blast
    have "intsetSearch is x = (if x = cur' then Some (True, mid') else Some (False, mn'))"
      using 3 ne mx last first l by (simp add: intsetSearch_def Let_def)
    then show ?thesis using p
      by (cases "x = cur'") (force intro: exI [of _ "nat mid'"] exI [of _ "nat mn'"])+
  qed
qed


section \<open>Writing, moving and growing, on chunks\<close>

lemma concat_list_update:
  assumes "uniform e cs" "i < length cs"
  shows "take (i * e) (concat cs) @ c @ drop (i * e + e) (concat cs) = concat (cs[i := c])"
proof -
  have "drop (i * e + e) (concat cs) = concat (drop (Suc i) cs)"
    using drop_concat_uniform [OF assms(1), of "Suc i"] by (simp add: add.commute)
  then show ?thesis
    using assms by (simp add: upd_conv_take_nth_drop take_concat_uniform)
qed

lemma set_chunk:
  assumes "encoding is \<in> {2, 4, 8}" "uniform (encoding is) cs" "contents is = concat cs" "i < length cs" "i < 2 ^ 31"
  shows "u_intsetSet is (int i) v = Some (is\<lparr>contents := concat (cs[i := le_bytes (encoding is) v])\<rparr>)"
proof -
  let ?e = "encoding is"
  have "i * ?e + ?e \<le> length (concat cs)"
    using assms(4) by (metis Suc_leI add.commute assms(2) length_concat_uniform mult_Suc mult_le_mono1)
  then have "mem_wr (contents is) (i * ?e) (le_bytes ?e v) = Some (concat (cs[i := le_bytes ?e v]))"
    using assms by (simp add: mem_wr_def concat_list_update)
  then show ?thesis using assms(1,5) by (auto simp: u_intsetSet_def)
qed

lemma mem_move_chunks:
  assumes "uniform e cs" "src + k \<le> length cs" "dst + k \<le> length cs"
  shows "mem_move (concat cs) (dst * e) (src * e) (k * e) =
           Some (concat (take dst cs @ take k (drop src cs) @ drop (dst + k) cs))"
proof -
  have len: "length (concat cs) = length cs * e" using assms(1) by (rule length_concat_uniform)
  have le: "src * e + k * e \<le> length cs * e" "dst * e + k * e \<le> length cs * e"
    using assms(2,3) by (metis add_mult_distrib mult_le_mono1)+
  have rd: "take (k * e) (drop (src * e) (concat cs)) = concat (take k (drop src cs))"
    using assms(1) by (simp add: drop_concat_uniform take_concat_uniform)
  have "length (concat (take k (drop src cs))) = k * e"
    using assms by (simp add: length_concat_uniform [of e])
  moreover have "drop (dst * e + k * e) (concat cs) = concat (drop (dst + k) cs)"
    using drop_concat_uniform [OF assms(1), of "dst + k"] by (simp add: add_mult_distrib)
  ultimately show ?thesis
    using le assms(1) by (simp add: mem_move_def mem_rd_def mem_wr_def len rd take_concat_uniform)
qed

lemma moveTail_chunks:
  assumes "encoding is \<in> {2, 4, 8}" "uniform (encoding is) cs" "contents is = concat cs"
    and "is_length is < 2 ^ 29" "from \<le> is_length is" "is_length is \<le> length cs"
    and "to + (is_length is - from) \<le> length cs"
  shows "intsetMoveTail is from to =
           Some (is\<lparr>contents := concat (take to cs @ take (is_length is - from) (drop from cs) @
                                     drop (to + (is_length is - from)) cs)\<rparr>)"
proof -
  let ?k = "is_length is - from"
  have n: "nat ((int (is_length is) - int from) mod 2 ^ 32) = ?k"
    using assms(4,5) by simp
  have "?k * encoding is < 2 ^ 32"
    using assms(1,4) by auto
  then have c: "(?k * encoding is) mod 2 ^ 32 = ?k * encoding is" by simp
  have "mem_move (contents is) (to * encoding is) (from * encoding is) (?k * encoding is) =
     Some (concat (take to cs @ take ?k (drop from cs) @ drop (to + ?k) cs))"
    using assms by (simp add: mem_move_chunks)
  then show ?thesis
    unfolding intsetMoveTail_def Let_def n using assms(1) c by auto
qed

lemma upgrade_loop_correct:
  assumes "cur \<in> {2, 4, 8}" "encoding is \<in> {2, 4, 8}" "cur < encoding is"
    and "length (contents is) = N * encoding is" "k + prepend \<le> N" "k \<le> length vs" "k + prepend \<le> 2 ^ 31"
    and "take (k * cur) (contents is) = concat (map (le_bytes cur) (take k vs))"
    and "\<forall>v \<in> set vs. fits cur v"
  shows "intsetUpgrade_loop is cur prepend k =
     Some (is\<lparr>contents := take (prepend * encoding is) (contents is) @
       concat (map (le_bytes (encoding is)) (take k vs)) @ drop ((k + prepend) * encoding is) (contents is)\<rparr>)"
  using assms
proof (induction k arbitrary: "is")
  case 0
  then show ?case by simp
next
  case (Suc k)
  let ?e = "encoding is" and ?c = "contents is"
  let ?off = "(k + prepend) * ?e" and ?v = "vs ! k"
  let ?c' = "take ?off ?c @ le_bytes ?e ?v @ drop (?off + ?e) ?c"
  have kv: "k < length vs" using Suc.prems by simp
  have "?c = concat (map (le_bytes cur) (take (Suc k) vs)) @ drop (Suc k * cur) ?c"
    using Suc.prems(8) by (metis append_take_drop_id)
  then have "u_intsetGetEncoded is (int k) cur = Some (le_sint (map (le_bytes cur) (take (Suc k) vs) ! k))"
    using Suc.prems kv by (intro getEncoded_chunk) auto
  then have get: "u_intsetGetEncoded is (int k) cur = Some ?v"
    using kv Suc.prems(9) by (simp add: fits_le_sint)
  have "(k + prepend + 1) * ?e \<le> N * ?e" using Suc.prems(5) by (intro mult_le_mono1) simp
  then have off: "?off + ?e \<le> length ?c" using Suc.prems(4) by (simp add: algebra_simps)
  have set: "u_intsetSet is (int (k + prepend)) ?v = Some (is\<lparr>contents := ?c'\<rparr>)"
  proof -
    have nat: "nat (int k + int prepend) = k + prepend" by simp
    have "int_pos (int k + int prepend) = int k + int prepend" using Suc.prems(7) by (intro int_pos_small) auto
    then show ?thesis using Suc.prems(2) off by (auto simp: u_intsetSet_def mem_wr_def nat)
  qed
  have "k * cur \<le> ?off" using Suc.prems(3) by (simp add: mult_le_mono)
  moreover have "take (k * cur) ?c = concat (map (le_bytes cur) (take k vs))"
  proof -
    have "take (k * cur) ?c = take (k * cur) (take (Suc k * cur) ?c)" by (simp add: min_def)
    also have "\<dots> = concat (take k (map (le_bytes cur) (take (Suc k) vs)))"
      unfolding Suc.prems(8) by (rule take_concat_uniform) simp
    finally show ?thesis by (simp add: take_map)
  qed
  ultimately have pre: "take (k * cur) ?c' = concat (map (le_bytes cur) (take k vs))"
    using off by (simp add: min_def)
  have "intsetUpgrade_loop (is\<lparr>contents := ?c'\<rparr>) cur prepend k =
     Some (is\<lparr>contents := take (prepend * ?e) ?c' @ concat (map (le_bytes ?e) (take k vs)) @ drop ?off ?c'\<rparr>)"
    using Suc.prems pre off by (subst Suc.IH) auto
  moreover have "take (prepend * ?e) ?c' = take (prepend * ?e) ?c"
  proof -
    have "prepend * ?e \<le> ?off" by simp
    then show ?thesis using off by (intro take_of_take_append) auto
  qed
  moreover have "drop ?off ?c' = le_bytes ?e ?v @ drop ((Suc k + prepend) * ?e) ?c"
    using off by (simp add: algebra_simps)
  moreover have "take (Suc k) vs = take k vs @ [?v]" using kv by (rule take_Suc_conv_app_nth)
  ultimately show ?case using get set by simp
qed


section \<open>Insertion and deletion\<close>

lemma insort_append_less: "\<forall>y \<in> set xs. y < x \<Longrightarrow> insort x (xs @ ys) = xs @ insort x ys"
  by (induction xs) auto

lemma search_spec_insort:
  assumes "search_spec vs x False pos"
  shows "insort x vs = take pos vs @ x # drop pos vs"
proof -
  have lt: "\<forall>y \<in> set (take pos vs). y < x" and gt: "\<forall>y \<in> set (drop pos vs). x < y"
    using assms by (auto simp: search_spec_def in_set_conv_nth)
  have "insort x (take pos vs @ drop pos vs) = take pos vs @ insort x (drop pos vs)"
    using lt by (rule insort_append_less)
  moreover have "insort x (drop pos vs) = x # drop pos vs"
    using gt by (cases "drop pos vs") (auto intro: less_imp_le)
  ultimately show ?thesis by simp
qed

lemma sorted_wrt_insort:
  "sorted_wrt (<) (vs :: int list) \<Longrightarrow> x \<notin> set vs \<Longrightarrow> sorted_wrt (<) (insort x vs)"
  by (simp add: strict_sorted_iff sorted_insort distinct_insort)

lemma intset_rep_length: "intset_rep is vs \<Longrightarrow> is_length is = length vs"
  by (simp add: intset_rep_def)

lemma intset_rep_insert_chunks:
  assumes rep: "intset_rep is vs" and small: "length vs < 2 ^ 29"
    and pos: "pos \<le> length vs" and fit: "fits (encoding is) x"
  shows "do { is1 \<leftarrow> intsetResize junk is ((is_length is + 1) mod 2 ^ 32);
              is2 \<leftarrow> (if int pos < int (is_length is1) then intsetMoveTail is1 (nat (int pos)) (nat (int pos) + 1)
                     else Some is1);
              is3 \<leftarrow> u_intsetSet is2 (int pos) x;
              Some (is3\<lparr>is_length := (is_length is3 + 1) mod 2 ^ 32\<rparr>, True) } =
         Some (\<lparr>encoding = encoding is, is_length = Suc (length vs),
                contents = concat (map (le_bytes (encoding is)) (take pos vs @ x # drop pos vs))\<rparr>, True)"
proof -
  let ?e = "encoding is" and ?n = "length vs"
  let ?cs = "map (le_bytes ?e) vs"
  have e: "?e \<in> {2, 4, 8}" and len: "is_length is = ?n" and con: "contents is = concat ?cs"
    using rep by (auto simp: intset_rep_def)
  let ?j = "map junk [?n * ?e..<Suc ?n * ?e]"
  let ?ds = "?cs @ [?j]"
  have lc: "length (concat ?cs) = ?n * ?e" by (simp add: length_concat_uniform [of ?e])
  have "Suc ?n * ?e \<le> SIZE_MAX - sizeof_intset"
  proof -
    have "Suc ?n * ?e \<le> 2 ^ 29 * 8" using small e by (intro mult_le_mono) auto
    then show ?thesis by (simp add: SIZE_MAX_def sizeof_intset_def)
  qed
  then have res: "intsetResize junk is ((is_length is + 1) mod 2 ^ 32) = Some (is\<lparr>contents := concat ?ds\<rparr>)"
    using small by (simp add: intsetResize_def Let_def len con zrealloc_grow lc)
  have ud: "uniform ?e ?ds" by simp
  have fin: "u_intsetSet (is\<lparr>contents := concat es\<rparr>) (int pos) x =
      Some (is\<lparr>contents := concat (es[pos := le_bytes ?e x])\<rparr>)"
    if "uniform ?e es" "length es = Suc ?n" for es
    using e pos that small by (subst set_chunk [of _ es]) auto
  show ?thesis
  proof (cases "pos < ?n")
    case True
    let ?es = "take (Suc pos) ?ds @ take (?n - pos) (drop pos ?ds) @ drop (Suc pos + (?n - pos)) ?ds"
    have mv: "intsetMoveTail (is\<lparr>contents := concat ?ds\<rparr>) pos (Suc pos) = Some (is\<lparr>contents := concat ?es\<rparr>)"
      using e True len small ud by (subst moveTail_chunks [of _ ?ds]) auto
    have "?es[pos := le_bytes ?e x] = map (le_bytes ?e) (take pos vs @ x # drop pos vs)"
      using True by (simp add: list_update_append take_Suc_conv_app_nth take_map drop_map)
    moreover have "uniform ?e ?es" "length ?es = Suc ?n" using ud True by auto
    ultimately show ?thesis
      using res mv fin [of ?es] True len small by simp
  next
    case False
    then have "pos = ?n" using pos by simp
    moreover have "?ds[?n := le_bytes ?e x] = map (le_bytes ?e) (take ?n vs @ x # drop ?n vs)"
      by (simp add: list_update_append)
    ultimately show ?thesis using res fin [of ?ds] False len small ud by simp
  qed
qed

lemma intsetUpgradeAndAdd_correct:
  assumes rep: "intset_rep is vs" and small: "length vs < 2 ^ 29"
    and fit: "fits 8 x" and up: "encoding is < u_intsetValueEncoding x"
  shows "\<exists>is'. intsetUpgradeAndAdd junk is x = Some is' \<and> intset_rep is' (insort x vs)"
proof -
  let ?c = "encoding is" and ?e = "u_intsetValueEncoding x" and ?n = "length vs"
  let ?p = "if x < 0 then 1 else 0 :: nat"
  have c: "?c \<in> {2, 4, 8}" and len: "is_length is = ?n"
    and con: "contents is = concat (map (le_bytes ?c) vs)" and fc: "\<forall>v \<in> set vs. fits ?c v"
    and srt: "sorted_wrt (<) vs"
    using rep by (auto simp: intset_rep_def)
  have e: "?e \<in> {2, 4, 8}" by (rule valueEncoding_cases)
  have lc: "length (contents is) = ?n * ?c" by (simp add: con length_concat_uniform [of ?c])
  have le: "?n * ?c \<le> Suc ?n * ?e" using up by (intro mult_le_mono) auto
  define b where "b = zrealloc junk (contents is) (Suc ?n * ?e)"
  have lb: "length b = Suc ?n * ?e" by (simp add: b_def)
  have "Suc ?n * ?e \<le> SIZE_MAX - sizeof_intset"
  proof -
    have "Suc ?n * ?e \<le> 2 ^ 29 * 8" using small e by (intro mult_le_mono) auto
    then show ?thesis by (simp add: SIZE_MAX_def sizeof_intset_def)
  qed
  then have res: "intsetResize junk (is\<lparr>encoding := ?e\<rparr>) ((is_length is + 1) mod 2 ^ 32) =
      Some (is\<lparr>encoding := ?e, contents := b\<rparr>)"
    using small by (simp add: intsetResize_def Let_def len b_def)
  have "take (?n * ?c) b = contents is" using le lc by (simp add: b_def)
  then have "take (?n * ?c) b = concat (map (le_bytes ?c) (take ?n vs))" by (simp add: con)
  then have loop: "intsetUpgrade_loop (is\<lparr>encoding := ?e, contents := b\<rparr>) ?c ?p ?n =
      Some (is\<lparr>encoding := ?e, contents := take (?p * ?e) b @ concat (map (le_bytes ?e) vs) @ drop ((?n + ?p) * ?e) b\<rparr>)"
    using c e up fc lb small by (subst upgrade_loop_correct [where N = "Suc ?n" and vs = vs]) auto
  have out: "(if x < 0 then \<forall>v \<in> set vs. x < v else \<forall>v \<in> set vs. v < x)"
    using fc c e up fit by (force simp: fits_def u_intsetValueEncoding_def split: if_splits)
  define cs where "cs = (if x < 0 then take ?e b # map (le_bytes ?e) vs
                         else map (le_bytes ?e) vs @ [drop (?n * ?e) b])"
  define q where "q = (if x < 0 then 0 else ?n)"
  have "take (?p * ?e) b @ concat (map (le_bytes ?e) vs) @ drop ((?n + ?p) * ?e) b = concat cs"
    using lb by (simp add: cs_def)
  moreover have "uniform ?e cs" "q < length cs" using lb e by (auto simp: cs_def q_def)
  ultimately have set: "u_intsetSet (is\<lparr>encoding := ?e, contents := concat cs\<rparr>) (int q) x =
      Some (is\<lparr>encoding := ?e, contents := concat (cs[q := le_bytes ?e x])\<rparr>)"
    using e small by (subst set_chunk [of _ cs]) (auto simp: q_def)
  have ins: "insort x vs = (if x < 0 then x # vs else vs @ [x])"
    using out search_spec_insort [of vs x q] by (auto simp: search_spec_def q_def)
  have "cs[q := le_bytes ?e x] = map (le_bytes ?e) (insort x vs)"
    by (simp add: ins cs_def q_def list_update_append)
  moreover have "x \<notin> set vs" using out by (auto split: if_splits)
  ultimately have "intset_rep \<lparr>encoding = ?e, is_length = Suc ?n, contents = concat (cs[q := le_bytes ?e x])\<rparr> (insort x vs)"
    using e fc up srt fits_valueEncoding [OF fit]
    by (auto simp: intset_rep_def set_insort_key intro: fits_mono less_imp_le sorted_wrt_insort)
  moreover have "intsetUpgradeAndAdd junk is x =
      Some \<lparr>encoding = ?e, is_length = Suc ?n, contents = concat (cs[q := le_bytes ?e x])\<rparr>"
    using res loop set \<open>take (?p * ?e) b @ _ = concat cs\<close> small
    by (cases "x < 0") (simp_all add: intsetUpgradeAndAdd_def Let_def len q_def int_pos_small)
  ultimately show ?thesis by blast
qed


lemma intsetAdd_correct:
  assumes rep: "intset_rep is vs" and small: "length vs < 2 ^ 29" and fit: "fits 8 x"
  shows "\<exists>is'. intsetAdd junk is x = Some (is', x \<notin> set vs) \<and>
               intset_rep is' (if x \<in> set vs then vs else insort x vs)"
proof (cases "encoding is < u_intsetValueEncoding x")
  case True
  have e: "encoding is \<in> {2, 4, 8}" using rep by (simp add: intset_rep_def)
  have "\<not> fits (encoding is) x" using valueEncoding_least [OF e fit] True by simp
  then have "x \<notin> set vs" using rep by (auto simp: intset_rep_def)
  then show ?thesis
    using intsetUpgradeAndAdd_correct [OF rep small fit True, of junk] True
    by (auto simp: intsetAdd_def)
next
  case False
  obtain found pos where srch: "intsetSearch is x = Some (found, int pos)" and
    sp: "search_spec vs x found pos"
    using intsetSearch_correct [OF rep, of x] small by auto
  have e: "encoding is \<in> {2, 4, 8}" using rep by (simp add: intset_rep_def)
  have mem: "found \<longleftrightarrow> x \<in> set vs" using search_spec_found [OF sp] .
  show ?thesis
  proof (cases found)
    case True
    then show ?thesis using False srch mem rep by (auto simp: intsetAdd_def)
  next
    case nf: False
    have fe: "fits (encoding is) x" using valueEncoding_least [OF e fit] False by simp
    have p: "pos \<le> length vs" using sp nf by (simp add: search_spec_def)
    let ?is' = "\<lparr>encoding = encoding is, is_length = Suc (length vs),
                contents = concat (map (le_bytes (encoding is)) (take pos vs @ x # drop pos vs))\<rparr>"
    have "intsetAdd junk is x = Some (?is', True)"
      using False srch nf intset_rep_insert_chunks [OF rep small p fe, of junk]
      by (simp add: intsetAdd_def)
    moreover have "insort x vs = take pos vs @ x # drop pos vs"
      using sp nf by (intro search_spec_insort) simp
    moreover have "sorted_wrt (<) (insort x vs)"
      using rep mem nf by (intro sorted_wrt_insort) (auto simp: intset_rep_def)
    ultimately show ?thesis
      using rep mem nf fe e p
      by (auto simp: intset_rep_def dest: in_set_takeD in_set_dropD)
  qed
qed

lemma intsetRemove_correct:
  assumes rep: "intset_rep is vs" and small: "length vs < 2 ^ 29" and fit: "fits 8 x"
  shows "\<exists>is'. intsetRemove junk is x = Some (is', x \<in> set vs) \<and> intset_rep is' (remove1 x vs)"
proof -
  have e: "encoding is \<in> {2, 4, 8}" and len: "is_length is = length vs"
    and con: "contents is = concat (map (le_bytes (encoding is)) vs)"
    and srt: "sorted_wrt (<) vs" and fc: "\<forall>v \<in> set vs. fits (encoding is) v"
    using rep by (auto simp: intset_rep_def)
  obtain found pos where srch: "intsetSearch is x = Some (found, int pos)" and
    sp: "search_spec vs x found pos"
    using intsetSearch_correct [OF rep, of x] small by auto
  have mem: "found \<longleftrightarrow> x \<in> set vs" using search_spec_found [OF sp] .
  have enc: "x \<in> set vs \<Longrightarrow> u_intsetValueEncoding x \<le> encoding is"
    using valueEncoding_least [OF e fit] fc by auto
  show ?thesis
  proof (cases "x \<in> set vs")
    case False
    then show ?thesis using srch mem rep by (auto simp: intsetRemove_def remove1_idem)
  next
    case True
    let ?e = "encoding is" and ?n = "length vs"
    let ?cs = "map (le_bytes ?e) vs" and ?ws = "take pos vs @ drop (Suc pos) vs"
    have p: "pos < ?n" "vs ! pos = x" using sp mem True by (auto simp: search_spec_def)
    have split: "vs = take pos vs @ x # drop (Suc pos) vs"
      using p by (metis id_take_nth_drop)
    have dist: "distinct vs" using srt by (simp add: strict_sorted_iff)
    have "x \<notin> set (take pos vs)" using split dist by (metis disjoint_iff distinct_append list.set_intros(1))
    then have rem: "remove1 x vs = ?ws" by (subst split) (simp add: remove1_append)
    have small': "(?n - 1) * ?e \<le> SIZE_MAX - sizeof_intset"
    proof -
      have "(?n - 1) * ?e \<le> 2 ^ 29 * 8" using small e by (intro mult_le_mono) auto
      then show ?thesis by (simp add: SIZE_MAX_def sizeof_intset_def)
    qed
    have shrink: "intsetResize junk (is\<lparr>contents := concat ds\<rparr>) (?n - 1) = Some (is\<lparr>contents := concat (take (?n - 1) ds)\<rparr>)"
      if "uniform ?e ds" "length ds = ?n" for ds
      using that small' by (simp add: intsetResize_def Let_def zrealloc_shrink length_concat_uniform [of ?e] take_concat_uniform)
    define ds where "ds = (if int pos < int ?n - 1
       then take pos ?cs @ take (?n - Suc pos) (drop (Suc pos) ?cs) @ drop (pos + (?n - Suc pos)) ?cs else ?cs)"
    have mv: "(if int pos < int ?n - 1 then intsetMoveTail is (nat (int pos) + 1) (nat (int pos)) else Some is)
        = Some (is\<lparr>contents := concat ds\<rparr>)"
      using e len con small p by (auto simp: ds_def moveTail_chunks [of _ ?cs])
    have uds: "uniform ?e ds" "length ds = ?n" using p by (auto simp: ds_def)
    have "take (?n - 1) ds = map (le_bytes ?e) ?ws"
    proof (cases "int pos < int ?n - 1")
      case True
      then show ?thesis using p by (auto simp: ds_def take_map drop_map)
    next
      case False
      then have "pos = ?n - 1" using p by simp
      then show ?thesis by (simp add: ds_def take_map)
    qed
    then have "intsetRemove junk is x = Some (is\<lparr>contents := concat (map (le_bytes ?e) ?ws), is_length := ?n - 1\<rparr>, True)"
      using enc [OF True] srch mem True mv shrink [OF uds] len by (simp add: intsetRemove_def Let_def)
    moreover have "sorted_wrt (<) (remove1 x vs)"
      using srt dist by (simp add: strict_sorted_iff sorted_remove1)
    ultimately show ?thesis using True e fc p
      by (auto simp: intset_rep_def rem dest: in_set_takeD in_set_dropD)
  qed
qed

lemma intsetFind_correct:
  assumes rep: "intset_rep is vs" and small: "length vs < 2 ^ 29" and fit: "fits 8 x"
  shows "intsetFind is x = Some (x \<in> set vs)"
proof -
  have e: "encoding is \<in> {2, 4, 8}" and fc: "\<forall>v \<in> set vs. fits (encoding is) v"
    using rep by (auto simp: intset_rep_def)
  obtain found pos where srch: "intsetSearch is x = Some (found, int pos)" and
    sp: "search_spec vs x found pos"
    using intsetSearch_correct [OF rep, of x] small by auto
  show ?thesis
    using srch search_spec_found [OF sp] valueEncoding_least [OF e fit] fc by (auto simp: intsetFind_def)
qed

lemma intset_rep_New: "intset_rep intsetNew []"
  by (simp add: intset_rep_def intsetNew_def)


section \<open>The interface of a set of integers\<close>

text \<open>
  What a client may rely on. \<open>key\<close> says which integers can be stored and \<open>cap\<close> how many;
  \<open>None\<close> never comes back while both are respected.
\<close>

locale int_set =
  fixes empty :: "'s"
    and add :: "'s \<Rightarrow> int \<Rightarrow> ('s \<times> bool) option"
    and remove :: "'s \<Rightarrow> int \<Rightarrow> ('s \<times> bool) option"
    and find :: "'s \<Rightarrow> int \<Rightarrow> bool option"
    and elems :: "'s \<Rightarrow> int set"
    and inv :: "'s \<Rightarrow> bool"
    and key :: "int \<Rightarrow> bool"
    and cap :: nat
  assumes inv_empty: "inv empty"
    and elems_empty: "elems empty = {}"
    and finite_elems: "inv s \<Longrightarrow> finite (elems s)"
    and add_law: "inv s \<Longrightarrow> key x \<Longrightarrow> card (elems s) < cap \<Longrightarrow>
      \<exists>s'. add s x = Some (s', x \<notin> elems s) \<and> inv s' \<and> elems s' = insert x (elems s)"
    and remove_law: "inv s \<Longrightarrow> key x \<Longrightarrow> card (elems s) < cap \<Longrightarrow>
      \<exists>s'. remove s x = Some (s', x \<in> elems s) \<and> inv s' \<and> elems s' = elems s - {x}"
    and find_law: "inv s \<Longrightarrow> key x \<Longrightarrow> card (elems s) < cap \<Longrightarrow> find s x = Some (x \<in> elems s)"

text \<open>A client's session: a sequence of calls and the sequence of their answers.\<close>

datatype set_call = CallAdd int | CallRemove int | CallFind int

fun call_arg :: "set_call \<Rightarrow> int" where
  "call_arg (CallAdd x) = x"
| "call_arg (CallRemove x) = x"
| "call_arg (CallFind x) = x"

fun run_calls ::
  "('s \<Rightarrow> int \<Rightarrow> ('s \<times> bool) option) \<Rightarrow> ('s \<Rightarrow> int \<Rightarrow> ('s \<times> bool) option) \<Rightarrow> ('s \<Rightarrow> int \<Rightarrow> bool option) \<Rightarrow>
   's \<Rightarrow> set_call list \<Rightarrow> ('s \<times> bool list) option" where
  "run_calls ad rm fd s [] = Some (s, [])"
| "run_calls ad rm fd s (CallAdd x # cs) =
     do { (s, r) \<leftarrow> ad s x; (s, rs) \<leftarrow> run_calls ad rm fd s cs; Some (s, r # rs) }"
| "run_calls ad rm fd s (CallRemove x # cs) =
     do { (s, r) \<leftarrow> rm s x; (s, rs) \<leftarrow> run_calls ad rm fd s cs; Some (s, r # rs) }"
| "run_calls ad rm fd s (CallFind x # cs) =
     do { r \<leftarrow> fd s x; (s, rs) \<leftarrow> run_calls ad rm fd s cs; Some (s, r # rs) }"

text \<open>The same session on a mathematical set.\<close>

fun spec_calls :: "int set \<Rightarrow> set_call list \<Rightarrow> int set \<times> bool list" where
  "spec_calls A [] = (A, [])"
| "spec_calls A (CallAdd x # cs) = (let (B, rs) = spec_calls (insert x A) cs in (B, (x \<notin> A) # rs))"
| "spec_calls A (CallRemove x # cs) = (let (B, rs) = spec_calls (A - {x}) cs in (B, (x \<in> A) # rs))"
| "spec_calls A (CallFind x # cs) = (let (B, rs) = spec_calls A cs in (B, (x \<in> A) # rs))"

context int_set
begin

lemma run_calls_refine:
  assumes "inv s" "\<forall>c \<in> set cs. key (call_arg c)" "card (elems s) + length cs \<le> cap"
  shows "\<exists>s'. run_calls add remove find s cs = Some (s', snd (spec_calls (elems s) cs)) \<and>
              inv s' \<and> elems s' = fst (spec_calls (elems s) cs)"
  using assms
proof (induction cs arbitrary: s)
  case Nil
  then show ?case by simp
next
  case (Cons c cs)
  have room: "card (elems s) < cap" and key: "key (call_arg c)" using Cons.prems by auto
  have fin: "finite (elems s)" using Cons.prems(1) by (rule finite_elems)
  show ?case
  proof (cases c)
    case (CallAdd x)
    obtain s1 where s1: "add s x = Some (s1, x \<notin> elems s)" "inv s1" "elems s1 = insert x (elems s)"
      using add_law [OF Cons.prems(1) _ room, of x] key CallAdd by auto
    have "card (elems s1) + length cs \<le> cap"
      using Cons.prems(3) fin s1(3) by (simp add: card_insert_if)
    from Cons.IH [OF s1(2) _ this] Cons.prems(2) show ?thesis
      using s1 CallAdd by (auto simp: case_prod_beta Let_def)
  next
    case (CallRemove x)
    obtain s1 where s1: "remove s x = Some (s1, x \<in> elems s)" "inv s1" "elems s1 = elems s - {x}"
      using remove_law [OF Cons.prems(1) _ room, of x] key CallRemove by auto
    have "card (elems s1) \<le> card (elems s)" using fin s1(3) by (simp add: card_Diff1_le)
    then have "card (elems s1) + length cs \<le> cap" using Cons.prems(3) by simp
    from Cons.IH [OF s1(2) _ this] Cons.prems(2) show ?thesis
      using s1 CallRemove by (auto simp: case_prod_beta Let_def)
  next
    case (CallFind x)
    have f: "find s x = Some (x \<in> elems s)"
      using find_law [OF Cons.prems(1) _ room, of x] key CallFind by auto
    have "card (elems s) + length cs \<le> cap" using Cons.prems(3) by simp
    from Cons.IH [OF Cons.prems(1) _ this] Cons.prems(2) show ?thesis
      using f CallFind by (auto simp: case_prod_beta Let_def)
  qed
qed

end

lemma intset_inv_card: "intset_inv is \<Longrightarrow> card (set (intset_elems is)) = is_length is"
  by (simp add: intset_inv_def intset_rep_def strict_sorted_iff distinct_card)

text \<open>The element bytes stay below \<open>2 ^ 32\<close> while fewer than \<open>2 ^ 29\<close> elements are stored.\<close>

interpretation iset: int_set intsetNew "intsetAdd junk" "intsetRemove junk" intsetFind
  "\<lambda>is. set (intset_elems is)" intset_inv "fits 8" "2 ^ 29" for junk
proof unfold_locales
  show "intset_inv intsetNew" using intset_rep_New by (rule intset_rep_inv)
  show "set (intset_elems intsetNew) = {}" by (simp add: intset_rep_elems [OF intset_rep_New])
next
  fix "is" x
  assume inv: "intset_inv is" and key: "fits 8 x" and room: "card (set (intset_elems is)) < 2 ^ 29"
  let ?vs = "intset_elems is"
  have rep: "intset_rep is ?vs" and small: "length ?vs < 2 ^ 29"
    using inv room intset_inv_card [OF inv] intset_rep_length by (auto simp: intset_inv_def)
  show "\<exists>s'. intsetAdd junk is x = Some (s', x \<notin> set ?vs) \<and> intset_inv s' \<and> set (intset_elems s') = insert x (set ?vs)"
    using intsetAdd_correct [OF rep small key, of junk]
    by (auto simp: set_insort_key intset_rep_iff split: if_splits)
  have dist: "distinct ?vs" using rep by (simp add: intset_rep_def strict_sorted_iff)
  show "\<exists>s'. intsetRemove junk is x = Some (s', x \<in> set ?vs) \<and> intset_inv s' \<and> set (intset_elems s') = set ?vs - {x}"
    using intsetRemove_correct [OF rep small key, of junk] dist
    by (auto simp: set_remove1_eq intset_rep_iff)
  show "intsetFind is x = Some (x \<in> set ?vs)" using rep small key by (rule intsetFind_correct)
qed simp


section \<open>Validation accepts exactly the well-formed sets\<close>

text \<open>\<open>N\<close> is the first position that is negative as an \<^verbatim>\<open>int\<close>.\<close>

lemma validate_loop_correct:
  assumes "\<And>j. j < length vs \<Longrightarrow> u_intsetGet is (int j) = (if j < N then Some (vs ! j) else None)" "i + k = length vs" "i \<le> N"
  shows "intsetValidate_loop is prev i k =
     (if N < length vs \<and> sorted_wrt (<) (prev # drop i (take N vs)) then None else Some (sorted_wrt (<) (prev # drop i vs)))"
  using assms(2,3)
proof (induction k arbitrary: prev i)
  case 0
  then show ?case by simp
next
  case (Suc k)
  have d: "drop i vs = vs ! i # drop (Suc i) vs" using Suc.prems by (simp add: Cons_nth_drop_Suc)
  show ?case
  proof (cases "i < N")
    case True
    have t: "drop i (take N vs) = vs ! i # drop (Suc i) (take N vs)" using True Suc.prems by (subst Cons_nth_drop_Suc [symmetric]) auto
    have "intsetValidate_loop is (vs ! i) (Suc i) k =
       (if N < length vs \<and> sorted_wrt (<) (vs ! i # drop (Suc i) (take N vs)) then None else Some (sorted_wrt (<) (vs ! i # drop (Suc i) vs)))"
      using Suc.prems True by (intro Suc.IH) auto
    then show ?thesis unfolding d t using assms(1) [of i] True Suc.prems(1) by auto
  next
    case False
    then show ?thesis using assms(1) [of i] Suc.prems by simp
  qed
qed

lemma fits_of_bytes: "length c = e \<Longrightarrow> fits e (le_sint c)"
  using le_sint_bounds [of c] by (simp add: fits_def)

lemma get_negative: "2 ^ 31 \<le> i \<Longrightarrow> i < 2 ^ 32 \<Longrightarrow> u_intsetGetEncoded is (int i) e = None"
proof -
  assume i: "2 ^ 31 \<le> i" "i < 2 ^ 32"
  have "int i div 2 ^ 31 = 1" using i by (intro div_pos_geq [THEN trans]) auto
  then have "signed_take_bit 31 (int i) = int i - 2 ^ 32" using i signed_take_bit_eq_take_bit_minus [of 31 "int i"]
    by (simp add: take_bit_int_eq_self bit_iff_odd)
  then have "int_pos (int i) < 0" using i by (simp add: int_pos_def)
  then show ?thesis by (simp add: u_intsetGetEncoded_def Let_def)
qed

lemma intset_blob_chunks:
  assumes e: "encoding is \<in> {2, 4, 8}" and len: "length (contents is) = is_length is * encoding is"
  shows "length (intset_elems is) = is_length is"
    and "i < is_length is \<Longrightarrow> is_length is < 2 ^ 32 \<Longrightarrow> u_intsetGet is (int i) = (if i < 2 ^ 31 then Some (intset_elems is ! i) else None)"
    and "intset_inv is \<longleftrightarrow> sorted_wrt (<) (intset_elems is)"
proof -
  obtain cs where cs: "uniform (encoding is) cs" "length cs = is_length is" "contents is = concat cs"
    using uniform_exists [OF len] .
  have el: "intset_elems is = map le_sint cs"
    using cs by (intro nth_equalityI) (auto simp: intset_elems_def nth_concat_uniform)
  show "length (intset_elems is) = is_length is" by (simp add: el cs(2))
  show "i < is_length is \<Longrightarrow> is_length is < 2 ^ 32 \<Longrightarrow> u_intsetGet is (int i) = (if i < 2 ^ 31 then Some (intset_elems is ! i) else None)"
    using getEncoded_chunk [OF e cs(1), of "is" "[]" i] get_negative [of i] cs by (simp add: u_intsetGet_def el)
  have "map (le_bytes (encoding is)) (map le_sint cs) = cs"
    using cs(1) by (auto simp: uniform_def le_bytes_le_sint intro!: map_idI)
  moreover have "\<forall>v \<in> set (map le_sint cs). fits (encoding is) v"
    using cs(1) by (auto simp: uniform_def fits_of_bytes)
  ultimately show "intset_inv is \<longleftrightarrow> sorted_wrt (<) (intset_elems is)"
    using e cs unfolding intset_inv_def intset_rep_def el by simp
qed


section \<open>Properties\<close>

text \<open>C4. Refinement of a mathematical set. Any session of at most \<open>2 ^ 29\<close> calls of \<^verbatim>\<open>intsetAdd\<close>, \<^verbatim>\<open>intsetRemove\<close> and
  \<^verbatim>\<open>intsetFind\<close> on 64-bit integers, started on \<^verbatim>\<open>intsetNew()\<close> (the bound keeps the set within the size at which
  the byte counts of the code still fit in 32 bits), runs without leaving the
  allocation, whatever \<^verbatim>\<open>zrealloc\<close> puts in new bytes; it answers each call as the mathematical set
  does and ends in a well-formed intset that holds that set.\<close>

theorem intset_session_refines_set:
  assumes "\<forall>c \<in> set calls. fits 8 (call_arg c)" and "length calls \<le> 2 ^ 29"
  shows "\<exists>is. run_calls (intsetAdd junk) (intsetRemove junk) intsetFind intsetNew calls =
               Some (is, snd (spec_calls {} calls)) \<and>
             intset_inv is \<and> set (intset_elems is) = fst (spec_calls {} calls)"
  using iset.run_calls_refine [OF iset.inv_empty assms(1), of junk] assms(2)
  by (simp add: iset.elems_empty)

theorem intset_session_refines_set_witness:
  "\<exists>is. run_calls (intsetAdd (\<lambda>_. 7)) (intsetRemove (\<lambda>_. 7)) intsetFind intsetNew
       [CallAdd 5, CallAdd (- 70000), CallAdd 5, CallRemove 5, CallFind (- 70000)] =
     Some (is, [True, True, False, True, True]) \<and> set (intset_elems is) = {- 70000}"
  using intset_session_refines_set
    [of "[CallAdd 5, CallAdd (- 70000), CallAdd 5, CallRemove 5, CallFind (- 70000)]" "\<lambda>_. 7"]
  by (auto simp: fits_def)

text \<open>C22. Insertion keeps the order. On a well-formed intset of fewer than \<open>2 ^ 29\<close> elements
  \<^verbatim>\<open>intsetAdd\<close> stays inside the allocation, reports success exactly when the value is new, and leaves
  a well-formed intset whose elements are the old ones with the value at its sorted place.\<close>

theorem intsetAdd_inserts_in_order:
  assumes "intset_inv is" and "is_length is < 2 ^ 29" and "fits 8 x"
  shows "\<exists>is'. intsetAdd junk is x = Some (is', x \<notin> set (intset_elems is)) \<and> intset_inv is' \<and>
     intset_elems is' = (if x \<in> set (intset_elems is) then intset_elems is else insort x (intset_elems is))"
proof -
  have rep: "intset_rep is (intset_elems is)" using assms(1) by (simp add: intset_inv_def)
  have "length (intset_elems is) < 2 ^ 29" using intset_rep_length [OF rep] assms(2) by simp
  from intsetAdd_correct [OF rep this assms(3), of junk] show ?thesis by (simp only: intset_rep_iff)
qed

definition example_intset :: intset where
  "example_intset = \<lparr>encoding = 2, is_length = 2, contents = [254, 255, 9, 0]\<rparr>"

lemma example_intset_facts:
  "intset_elems example_intset = [- 2, 9]" "intset_inv example_intset"
  "encoding example_intset = 2" "is_length example_intset = 2"
proof -
  have c: "[254, 255, 9, 0] = concat (map (le_bytes 2) [- 2, 9 :: int])"
    by code_simp
  have "intset_rep example_intset [- 2, 9]"
    by (simp add: intset_rep_def example_intset_def c fits_def)
  then show "intset_elems example_intset = [- 2, 9]" "intset_inv example_intset"
    by (simp_all add: intset_rep_iff)
qed (simp_all add: example_intset_def)

theorem intsetAdd_inserts_in_order_witness:
  "\<exists>is'. intsetAdd (\<lambda>_. 0) example_intset 4 = Some (is', True) \<and> intset_elems is' = [- 2, 4, 9]"
  using intsetAdd_inserts_in_order [of example_intset 4 "\<lambda>_. 0"]
  by (auto simp: example_intset_facts fits_def)

text \<open>C21. The in-place upgrade loses nothing. When the value needs a wider encoding,
  \<^verbatim>\<open>intsetUpgradeAndAdd\<close>, which widens the elements back to front inside the reallocated buffer,
  yields the wider encoding and the old elements with the value in front when it is negative and
  behind when it is not.\<close>

theorem intsetUpgradeAndAdd_keeps_elements:
  assumes "intset_inv is" and "is_length is < 2 ^ 29" and "fits 8 x"
    and "encoding is < u_intsetValueEncoding x"
  shows "\<exists>is'. intsetUpgradeAndAdd junk is x = Some is' \<and> intset_inv is' \<and>
     encoding is < encoding is' \<and>
     intset_elems is' = (if x < 0 then x # intset_elems is else intset_elems is @ [x])"
proof -
  have rep: "intset_rep is (intset_elems is)" using assms(1) by (simp add: intset_inv_def)
  have small: "length (intset_elems is) < 2 ^ 29" using intset_rep_length [OF rep] assms(2) by simp
  obtain is' where is': "intsetUpgradeAndAdd junk is x = Some is'" "intset_rep is' (insort x (intset_elems is))"
    using intsetUpgradeAndAdd_correct [OF rep small assms(3,4), of junk] by blast
  have e: "encoding is \<in> {2, 4, 8}" "encoding is' \<in> {2, 4, 8}"
    using rep is'(2) by (auto simp: intset_rep_def)
  have "fits (encoding is') x" using is'(2) by (auto simp: intset_rep_def set_insort_key)
  then have wider: "encoding is < encoding is'"
    using valueEncoding_least [OF e(2) assms(3)] assms(4) by simp
  have out: "\<forall>v \<in> set (intset_elems is). if x < 0 then x < v else v < x"
    using rep assms(3,4) e(1) by (force simp: intset_rep_def fits_def u_intsetValueEncoding_def split: if_splits)
  have "insort x (intset_elems is) = (if x < 0 then x # intset_elems is else intset_elems is @ [x])"
    using out insort_append_less [of "intset_elems is" x "[]"]
    by (cases "intset_elems is") (auto intro: less_imp_le split: if_splits)
  with is' wider show ?thesis by (auto simp: intset_rep_iff)
qed

theorem intsetUpgradeAndAdd_keeps_elements_witness:
  "\<exists>is'. intsetUpgradeAndAdd (\<lambda>_. 1) example_intset (- 40000) = Some is' \<and> encoding is' > 2 \<and>
     intset_elems is' = [- 40000, - 2, 9]"
  using intsetUpgradeAndAdd_keeps_elements [of example_intset "- 40000" "\<lambda>_. 1"]
  by (auto simp: example_intset_facts fits_def u_intsetValueEncoding_def)

text \<open>The buffer has a header with a known encoding and the size the header tells.\<close>

definition blob_sized :: "bytes \<Rightarrow> bool" where
  "blob_sized p \<longleftrightarrow> sizeof_intset \<le> length p \<and> encoding (intset_of_blob p) \<in> {2, 4, 8} \<and>
     sizeof_intset + is_length (intset_of_blob p) * encoding (intset_of_blob p) = length p"

lemma blob_length: "is_length (intset_of_blob p) < 2 ^ 32"
proof -
  have "le_uint (take 4 (drop 4 p)) < 256 ^ length (take 4 (drop 4 p))" using le_uint_bounds by blast
  also have "\<dots> \<le> (256 :: int) ^ 4" by (intro power_increasing) auto
  finally show ?thesis by (simp add: intset_of_blob_def nat_less_iff)
qed

lemma validate_unsized: "\<not> blob_sized p \<Longrightarrow> intsetValidateIntegrity p (length p) True = Some False \<and> \<not> (sizeof_intset \<le> length p \<and> intset_inv (intset_of_blob p))"
proof -
  assume a: "\<not> blob_sized p"
  have "length (contents (intset_of_blob p)) = length p - 8" by (simp add: intset_of_blob_def)
  moreover have "intset_inv (intset_of_blob p) \<Longrightarrow> encoding (intset_of_blob p) \<in> {2, 4, 8} \<and>
      length (contents (intset_of_blob p)) = is_length (intset_of_blob p) * encoding (intset_of_blob p)"
    by (auto simp: intset_inv_def intset_rep_def length_concat_uniform [OF uniform_map_le_bytes])
  ultimately show ?thesis using a by (auto simp: blob_sized_def intsetValidateIntegrity_def Let_def sizeof_intset_def)
qed

text \<open>C23. Validation is exact. On every byte buffer \<^verbatim>\<open>intsetValidateIntegrity\<close> with the deep check
  reads only inside the buffer and accepts it if and only if it is the image of a well-formed, non-empty intset, with
  one exception: in a buffer of more than \<open>2 ^ 31\<close> elements of which the first \<open>2 ^ 31\<close> are increasing the
  position turns negative as a C \<^verbatim>\<open>int\<close> and the code reads before the buffer.\<close>

theorem intsetValidateIntegrity_exact:
  "intsetValidateIntegrity p (length p) True =
     (if blob_sized p \<and> 2 ^ 31 < is_length (intset_of_blob p) \<and> sorted_wrt (<) (take (2 ^ 31) (intset_elems (intset_of_blob p)))
      then None
      else Some (sizeof_intset \<le> length p \<and> is_length (intset_of_blob p) \<noteq> 0 \<and> intset_inv (intset_of_blob p)))"
proof (cases "blob_sized p \<and> is_length (intset_of_blob p) \<noteq> 0")
  case False
  then show ?thesis using validate_unsized [of p] by (auto simp: blob_sized_def intsetValidateIntegrity_def Let_def)
next
  case True
  let ?is = "intset_of_blob p" and ?N = "2 ^ 31 :: nat"
  let ?vs = "intset_elems ?is"
  have e: "encoding ?is \<in> {2, 4, 8}" using True by (simp add: blob_sized_def)
  have "length (contents ?is) = length p - 8" by (simp add: intset_of_blob_def)
  then have len: "length (contents ?is) = is_length ?is * encoding ?is"
    using True unfolding blob_sized_def sizeof_intset_def by linarith
  note ch = intset_blob_chunks [OF e len]
  have get: "u_intsetGet ?is (int j) = (if j < ?N then Some (?vs ! j) else None)" if "j < length ?vs" for j
    using ch(2) [OF _ blob_length] that ch(1) by simp
  have el: "?vs = ?vs ! 0 # drop 1 ?vs" "take ?N ?vs = ?vs ! 0 # drop 1 (take ?N ?vs)"
    using True ch(1) by (cases ?vs; simp)+
  have "intsetValidate_loop ?is (?vs ! 0) 1 (is_length ?is - 1) =
      (if ?N < length ?vs \<and> sorted_wrt (<) (?vs ! 0 # drop 1 (take ?N ?vs)) then None else Some (sorted_wrt (<) (?vs ! 0 # drop 1 ?vs)))"
    using True ch(1) by (intro validate_loop_correct get) auto
  then have "intsetValidate_loop ?is (?vs ! 0) 1 (is_length ?is - 1) =
      (if ?N < is_length ?is \<and> sorted_wrt (<) (take ?N ?vs) then None else Some (sorted_wrt (<) ?vs))"
    by (simp only: el [symmetric] ch(1))
  moreover have "u_intsetGet ?is 0 = Some (?vs ! 0)" using get [of 0] True ch(1) by simp
  ultimately show ?thesis using True e ch(3) by (auto simp: intsetValidateIntegrity_def Let_def blob_sized_def)
qed

text \<open>C38. The limit of the invariant is reached inside the range the set type allows. At exactly
  \<open>2 ^ 29\<close> elements of 8 bytes the \<^verbatim>\<open>uint32_t\<close> byte count of \<^verbatim>\<open>intsetMoveTail\<close> wraps to 0, so
  inserting a new minimum overwrites the old one: the result reports success, has one more element,
  and holds the new value, the old elements without their minimum, and one uninitialised element.\<close>

theorem intsetAdd_loses_minimum_at_limit:
  assumes inv: "intset_inv is" and enc: "encoding is = 8" and len: "is_length is = 2 ^ 29"
    and fit: "fits 8 x" and new: "\<forall>v \<in> set (intset_elems is). x < v"
  shows "\<exists>is' j. intsetAdd junk is x = Some (is', True) \<and> is_length is' = 2 ^ 29 + 1 \<and>
     intset_elems is' = x # tl (intset_elems is) @ [j]"
proof -
  let ?vs = "intset_elems is" and ?n = "2 ^ 29 :: nat"
  have rep: "intset_rep is ?vs" using inv by (simp add: intset_inv_def)
  have lv: "length ?vs = ?n" using intset_rep_length [OF rep] len by simp
  have con: "contents is = concat (map (le_bytes 8) ?vs)" using rep enc by (simp add: intset_rep_def)
  obtain found pos where srch: "intsetSearch is x = Some (found, int pos)" "search_spec ?vs x found pos"
    using intsetSearch_correct [OF rep, of x] lv by auto
  have nf: "\<not> found" using search_spec_found [OF srch(2)] new by auto
  have pos: "pos = 0" using srch(2) nf new lv
    by (auto simp: search_spec_def) (metis gr0I nth_mem order_less_asym zero_less_numeral zero_less_power)
  have ve: "\<not> encoding is < u_intsetValueEncoding x"
    using valueEncoding_cases [of x] enc by auto
  define js where "js = map junk [?n * 8..<Suc ?n * 8]"
  have js: "length js = 8" by (simp add: js_def)
  let ?ds = "map (le_bytes 8) ?vs @ [js]"
  define es where "es = map (le_bytes 8) (x # tl ?vs) @ [js]"
  have es: "?ds[0 := le_bytes 8 x] = es" "uniform 8 es" "length es = ?n + 1"
    using lv js by (cases ?vs; auto simp: es_def list_update_append)+
  have "length (contents is) = ?n * 8"
    by (simp add: con lv length_concat_uniform [OF uniform_map_le_bytes])
  then have res: "intsetResize junk is ((is_length is + 1) mod 2 ^ 32) = Some (is\<lparr>contents := concat ?ds\<rparr>)"
    by (simp add: intsetResize_def Let_def len enc SIZE_MAX_def sizeof_intset_def zrealloc_grow con js_def)
  have wrap: "intsetMoveTail (is\<lparr>contents := b\<rparr>) 0 1 = Some (is\<lparr>contents := b\<rparr>)"
    if "length b = Suc ?n * 8" for b
    using that by (simp add: intsetMoveTail_def Let_def enc len mem_move_def mem_rd_def mem_wr_def)
  have "length (concat ?ds) = Suc ?n * 8" by (subst length_concat_uniform [of 8]) (simp_all add: lv js)
  from wrap [OF this]
  have mv: "intsetMoveTail (is\<lparr>contents := concat ?ds\<rparr>) 0 1 = Some (is\<lparr>contents := concat ?ds\<rparr>)" .
  have st: "u_intsetSet (is\<lparr>contents := concat ?ds\<rparr>) (int 0) x = Some (is\<lparr>contents := concat es\<rparr>)"
    using enc js by (subst set_chunk [of _ ?ds]) (auto simp: es(1) [symmetric])
  let ?is' = "is\<lparr>contents := concat es, is_length := ?n + 1\<rparr>"
  have add: "intsetAdd junk is x = Some (?is', True)"
    using ve srch(1) nf pos res mv st len by (simp add: intsetAdd_def)
  have el: "intset_elems ?is' = map le_sint es"
    using es by (intro nth_equalityI) (simp_all add: intset_elems_def enc nth_concat_uniform)
  have fits: "fits 8 v" if "v \<in> set (x # tl ?vs)" for v
    using rep enc fit that by (cases ?vs) (auto simp: intset_rep_def)
  have "map (\<lambda>v. le_sint (le_bytes 8 v)) (x # tl ?vs) = x # tl ?vs"
    using fits by (intro map_idI fits_le_sint)
  then have "map le_sint es = x # tl ?vs @ [le_sint js]" by (simp add: es_def comp_def)
  then show ?thesis using add el by auto
qed

definition big_intset :: intset where
  "big_intset = \<lparr>encoding = 8, is_length = 2 ^ 29,
     contents = concat (map (le_bytes 8) (map int [1..<2 ^ 29 + 1]))\<rparr>"

lemma big_intset_rep: "intset_rep big_intset (map int [1..<2 ^ 29 + 1])"
  by (simp add: intset_rep_def big_intset_def fits_def sorted_wrt_map del: upt_Suc)

theorem intsetAdd_loses_minimum_at_limit_witness:
  "\<exists>is' j. intsetAdd (\<lambda>_. 0) big_intset 0 = Some (is', True) \<and>
     intset_elems is' = 0 # tl (map int [1..<2 ^ 29 + 1]) @ [j]"
  using intsetAdd_loses_minimum_at_limit [of big_intset 0 "\<lambda>_. 0"] big_intset_rep
  by (simp add: intset_rep_iff fits_def del: upt_Suc) (auto simp: big_intset_def simp del: upt_Suc)

end
