(* ===== verification/Fwtree.thy ===== *)
theory Fwtree
  imports Prelude
begin

text \<open>
  The Fenwick tree of \<^verbatim>\<open>src/fwtree.c\<close>, which holds one counter per index in a 1-based array of
  \<^verbatim>\<open>unsigned long long\<close> partial sums. Sums are \<open>64 word\<close>s and wrap; indices are C ints. Reading or
  writing outside the array, a failed \<^verbatim>\<open>assert\<close> and an overflow of a signed C integer is \<open>None\<close>; a null tree
  pointer is \<open>None\<close> of the argument type. \<^verbatim>\<open>debugAssert\<close> is compiled out; that its condition in \<^verbatim>\<open>fwTreeUpdate\<close> holds is a
  property below.
\<close>

section \<open>The structure and its operations\<close>

record fenwickTree =
  tree :: "u64 list"
  size_bits :: nat
  ft_size :: int
  total :: u64

text \<open>\<^verbatim>\<open>1 << sizeBits\<close> is computed in \<^verbatim>\<open>int\<close>.\<close>

definition fwTreeCreate :: "nat \<Rightarrow> fenwickTree option" where
  "fwTreeCreate sizeBits =
     do { guard (sizeBits < 31);
          let sz = 2 ^ sizeBits;
          Some \<lparr>tree = replicate (nat (sz + 1)) 0, size_bits = sizeBits, ft_size = sz, total = 0\<rparr> }"

definition tree_rd :: "fenwickTree \<Rightarrow> int \<Rightarrow> u64 option" where
  "tree_rd ft i = (if 0 \<le> i \<and> nat i < length (tree ft) then Some (tree ft ! nat i) else None)"

lemma lowbit_bounds: "0 < (idx :: int) \<Longrightarrow> 0 < idx AND - idx \<and> idx AND - idx \<le> idx"
proof -
  assume pos: "0 < idx"
  have le: "idx AND - idx \<le> idx" using pos by (intro AND_upper1) auto
  have "idx AND - idx \<noteq> 0"
  proof
    assume eq: "idx AND - idx = 0"
    have "idx AND NOT (idx - 1) = 0" using eq by (simp add: minus_eq_not_minus_1)
    then have "idx AND (idx - 1) = idx"
      by (metis and.comm_neutral and.commute bit.conj_disj_distrib bit.disj_cancel_right bit.disj_zero_right or.commute)
    moreover have "idx AND (idx - 1) \<le> idx - 1" using pos by (intro AND_upper2) auto
    ultimately show False by simp
  qed
  moreover have "0 \<le> idx AND - idx" using pos by (intro AND_lower) simp
  ultimately show ?thesis using le by linarith
qed

function fwTreePrefixSum_loop :: "fenwickTree \<Rightarrow> int \<Rightarrow> u64 \<Rightarrow> u64 option" where
  "fwTreePrefixSum_loop ft idx acc =
     (if idx > 0 then
        do { t \<leftarrow> tree_rd ft idx; fwTreePrefixSum_loop ft (idx - (idx AND - idx)) (acc + t) }
      else Some acc)"
  by pat_completeness auto
termination
  by (relation "measure (\<lambda>(ft, idx, acc). nat idx)") (auto dest: lowbit_bounds)

declare fwTreePrefixSum_loop.simps [simp del]

definition fwTreePrefixSum :: "fenwickTree option \<Rightarrow> int \<Rightarrow> u64 option" where
  "fwTreePrefixSum ft idx =
     (case ft of None \<Rightarrow> Some 0
      | Some ft \<Rightarrow>
          if idx < 0 then Some 0
          else (let idx = (if idx \<ge> ft_size ft then ft_size ft - 1 else idx)
                in fwTreePrefixSum_loop ft (idx + 1) 0))"

text \<open>The loop of \<^verbatim>\<open>fwTreeUpdate\<close> is entered with an index of at least 1; \<open>idx \<le> 0\<close> never occurs. The negation of
  the \<^verbatim>\<open>long long\<close> and the step of the \<^verbatim>\<open>int\<close> index must not overflow.\<close>

function fwTreeUpdate_loop :: "fenwickTree \<Rightarrow> int \<Rightarrow> int \<Rightarrow> fenwickTree option" where
  "fwTreeUpdate_loop ft idx delta =
     (if idx \<le> 0 then None
      else if idx \<le> ft_size ft then
        do { t \<leftarrow> tree_rd ft idx;
             guard (delta < 0 \<longrightarrow> - delta < 2 ^ 63 \<and> t \<ge> word_of_int (- delta));
             guard (idx + (idx AND - idx) < 2 ^ 31);
             fwTreeUpdate_loop (ft\<lparr>tree := (tree ft)[nat idx := t + word_of_int delta]\<rparr>)
               (idx + (idx AND - idx)) delta }
      else Some ft)"
  by pat_completeness auto
termination
  by (relation "measure (\<lambda>(ft, idx, delta). nat (ft_size ft + 1 - idx))")
     (auto simp: not_le dest: lowbit_bounds)

declare fwTreeUpdate_loop.simps [simp del]

definition fwTreeUpdate :: "fenwickTree option \<Rightarrow> int \<Rightarrow> int \<Rightarrow> fenwickTree option option" where
  "fwTreeUpdate ft idx delta =
     (case ft of None \<Rightarrow> Some None
      | Some ft \<Rightarrow>
          if idx < 0 \<or> idx \<ge> ft_size ft then Some (Some ft)
          else map_option Some
                 (fwTreeUpdate_loop (ft\<lparr>total := total ft + word_of_int delta\<rparr>) (idx + 1) delta))"

fun fwTreeFindIndex_loop :: "fenwickTree \<Rightarrow> nat \<Rightarrow> int \<Rightarrow> u64 \<Rightarrow> int option" where
  "fwTreeFindIndex_loop ft i result target =
     (if i \<noteq> 0 then
        (let current = result + int i
         in do { t \<leftarrow> tree_rd ft current;
                 if target > t then fwTreeFindIndex_loop ft (i div 2) current (target - t)
                 else fwTreeFindIndex_loop ft (i div 2) result target })
      else Some result)"

declare fwTreeFindIndex_loop.simps [simp del]

definition fwTreeFindIndex :: "fenwickTree \<Rightarrow> u64 \<Rightarrow> int option" where
  "fwTreeFindIndex ft target =
     (if target \<le> 0 then Some 0 else fwTreeFindIndex_loop ft (2 ^ size_bits ft) 0 target)"

definition fwTreeFindFirstNonEmpty :: "fenwickTree \<Rightarrow> int option" where
  "fwTreeFindFirstNonEmpty ft = fwTreeFindIndex ft 1"

definition fwTreeFindNextNonEmpty :: "fenwickTree option \<Rightarrow> int \<Rightarrow> int option" where
  "fwTreeFindNextNonEmpty ft idx =
     (case ft of None \<Rightarrow> Some (- 1)
      | Some f \<Rightarrow>
          if idx < 0 \<or> idx \<ge> ft_size f then Some (- 1)
          else do { s \<leftarrow> fwTreePrefixSum ft idx;
                    (let next_sum = s + 1
                     in if next_sum \<le> total f then fwTreeFindIndex f next_sum else Some (- 1)) })"

definition fwTreeClear :: "fenwickTree \<Rightarrow> fenwickTree" where
  "fwTreeClear ft = ft\<lparr>tree := replicate (length (tree ft)) 0, total := 0\<rparr>"


section \<open>The lowest set bit\<close>

abbreviation lowbit :: "int \<Rightarrow> int" where
  "lowbit n \<equiv> n AND - n"

lemma and_double: "(2 * a) AND (2 * b) = 2 * (a AND b)" for a b :: int
  by (subst and_rec) simp

lemma lowbit_odd: "lowbit (2 * m + 1) = 1"
proof -
  have neg: "- (2 * m + 1) = 2 * (NOT m) + (1 :: int)" by (simp add: not_int_def)
  have "(2 * m + 1) AND (2 * NOT m + 1) = (1 :: int)" by (subst and_rec) simp
  then show ?thesis by (simp only: neg)
qed

lemma lowbit_double: "lowbit (2 * m) = 2 * lowbit m"
  using and_double [of m "- m"] by simp

lemma lowbit_power: "lowbit (2 ^ k * (2 * m + 1)) = 2 ^ k"
proof (induction k)
  case 0
  show ?case using lowbit_odd by simp
next
  case (Suc k)
  then show ?case using lowbit_double [of "2 ^ k * (2 * m + 1)"] by (simp add: mult.assoc)
qed

lemma pos_decompose:
  assumes "0 < (n :: int)"
  obtains k m where "n = 2 ^ k * (2 * m + 1)" "0 \<le> m"
proof -
  have "\<exists>k m. n = 2 ^ k * (2 * m + 1) \<and> 0 \<le> m"
    using assms
  proof (induction "nat n" arbitrary: n rule: less_induct)
    case less
    show ?case
    proof (cases "even n")
      case True
      then obtain h where h: "n = 2 * h" by blast
      with less.prems have "nat h < nat n" "0 < h" by auto
      from less.hyps [OF this] obtain k m where "h = 2 ^ k * (2 * m + 1)" "0 \<le> m" by blast
      then show ?thesis using h by (intro exI [of _ "Suc k"] exI [of _ m]) simp
    next
      case False
      then obtain m where "n = 2 * m + 1" by (rule oddE)
      with less.prems show ?thesis by (intro exI [of _ 0] exI [of _ m]) simp
    qed
  qed
  then show ?thesis using that by blast
qed

text \<open>\<open>covers i x\<close>: the partial sum stored at \<open>i\<close> includes the element \<open>x\<close> (both 1-based).\<close>

definition covers :: "int \<Rightarrow> int \<Rightarrow> bool" where
  "covers i x \<longleftrightarrow> i - lowbit i < x \<and> x \<le> i"

lemma dvd_pos_gap: "(d :: int) dvd a \<Longrightarrow> d dvd b \<Longrightarrow> a < b \<Longrightarrow> d \<le> b - a"
  by (metis dvd_diff zdvd_imp_le diff_gt_0_iff_gt)

lemma covers_step:
  assumes x: "0 < x" and i: "0 < i"
  shows "covers i x \<longleftrightarrow> i = x \<or> covers i (x + lowbit x)"
proof -
  obtain k m where xm: "x = 2 ^ k * (2 * m + 1)" using x by (rule pos_decompose)
  obtain l q where iq: "i = 2 ^ l * (2 * q + 1)" using i by (rule pos_decompose)
  have lx: "lowbit x = 2 ^ k" and li: "lowbit i = 2 ^ l" by (simp_all only: xm iq lowbit_power)
  define b where "b = 2 ^ Suc l * q"
  have b: "i = b + 2 ^ l" by (simp add: iq b_def algebra_simps)
  define y where "y = x + 2 ^ k"
  have "y = 2 ^ Suc k * (m + 1)" by (simp add: y_def xm algebra_simps)
  then have ydvd: "2 ^ Suc k dvd y" by simp
  have bdvd: "2 ^ Suc l dvd b" by (simp add: b_def)
  have kdvd: "2 ^ k dvd x" by (simp add: xm)
  have forward: "y \<le> b + 2 ^ l" if "b < x" "x < b + 2 ^ l"
  proof -
    have "k < l"
    proof (rule ccontr)
      assume "\<not> k < l"
      then have "(2 :: int) ^ l dvd 2 ^ k" by (simp add: le_imp_power_dvd)
      then have "2 ^ l dvd x" using kdvd by (rule dvd_trans)
      moreover have "2 ^ l dvd b" using bdvd by (rule power_le_dvd) simp
      ultimately have "2 ^ l \<le> x - b" using that(1) by (intro dvd_pos_gap)
      then show False using that(2) by simp
    qed
    then have "(2 :: int) ^ Suc k dvd 2 ^ l" by (intro le_imp_power_dvd) simp
    moreover have "2 ^ Suc k dvd b"
      using bdvd \<open>k < l\<close> by (intro power_le_dvd [OF bdvd]) simp
    ultimately have d: "2 ^ Suc k dvd b + 2 ^ l" by (rule dvd_add [rotated])
    show ?thesis
    proof (rule ccontr)
      assume "\<not> y \<le> b + 2 ^ l"
      then have "2 ^ Suc k \<le> y - (b + 2 ^ l)" using d ydvd by (intro dvd_pos_gap) auto
      then have "x \<ge> b + 2 ^ l + 2 ^ k" by (simp add: y_def)
      moreover have "(0 :: int) < 2 ^ k" by simp
      ultimately show False using that(2) by linarith
    qed
  qed
  have backward: "b < x" if "b < y" "y \<le> b + 2 ^ l"
  proof (rule ccontr)
    assume "\<not> b < x"
    then have gap: "y - b \<le> 2 ^ k" by (simp add: y_def)
    show False
    proof (cases "k \<le> l")
      case True
      then have "2 ^ Suc k dvd b" by (intro power_le_dvd [OF bdvd]) simp
      then have "2 ^ Suc k \<le> y - b" using ydvd that(1) by (rule dvd_pos_gap)
      then have "(2 :: int) ^ Suc k \<le> 2 ^ k" using gap by linarith
      then show False by simp
    next
      case False
      then have "2 ^ Suc l dvd y" by (intro power_le_dvd [OF ydvd]) simp
      then have "2 ^ Suc l \<le> y - b" using bdvd that(1) by (intro dvd_pos_gap)
      then have "(2 :: int) ^ Suc l \<le> 2 ^ l" using that(2) by linarith
      then show False by simp
    qed
  qed
  obtain P Q where PQ: "P = (2 :: int) ^ k" "Q = (2 :: int) ^ l" and pos: "0 < P" "0 < Q" by simp
  show ?thesis
    unfolding covers_def li lx
    using forward backward b pos unfolding y_def PQ [symmetric] by auto
qed


section \<open>The counters a tree stands for\<close>

text \<open>
  \<open>ft_rep ft a\<close>: the tree stands for the counters \<open>a\<close>, one natural number per index, whose sum fits
  in 64 bits. Cell \<open>i\<close> of the array holds the sum of the elements \<open>i - lowbit i + 1, \<dots>, i\<close>, counted
  from 1. \<open>upto_sum a n\<close> is the sum of the first \<open>n\<close> counters.
\<close>

definition upto_sum :: "nat list \<Rightarrow> int \<Rightarrow> nat" where
  "upto_sum a n = sum_list (take (nat n) a)"

definition ft_rep :: "fenwickTree \<Rightarrow> nat list \<Rightarrow> bool" where
  "ft_rep ft a \<longleftrightarrow>
     size_bits ft \<le> 30 \<and> ft_size ft = 2 ^ size_bits ft \<and> int (length a) = ft_size ft \<and>
     length (tree ft) = Suc (length a) \<and>
     total ft = of_nat (sum_list a) \<and> sum_list a < 2 ^ 64 \<and>
     (\<forall>i. 0 < i \<and> i \<le> ft_size ft \<longrightarrow>
        tree ft ! nat i = of_nat (upto_sum a i - upto_sum a (i - lowbit i)))"

lemma upto_sum_mono: "i \<le> j \<Longrightarrow> upto_sum a i \<le> upto_sum a j"
proof -
  assume "i \<le> j"
  then have "take (nat j) a = take (nat i) a @ take (nat j - nat i) (drop (nat i) a)"
    by (metis le_add_diff_inverse nat_mono take_add)
  then show ?thesis by (simp add: upto_sum_def)
qed

lemma upto_sum_0 [simp]: "i \<le> 0 \<Longrightarrow> upto_sum a i = 0"
  by (simp add: upto_sum_def)

lemma upto_sum_all: "int (length a) \<le> i \<Longrightarrow> upto_sum a i = sum_list a"
  by (simp add: upto_sum_def)

lemma upto_sum_le_total: "upto_sum a i \<le> sum_list a"
  using upto_sum_mono [of i "max i (int (length a))" a] upto_sum_all [of a "max i (int (length a))"] by simp

lemma upto_sum_Suc: "0 \<le> i \<Longrightarrow> i < int (length a) \<Longrightarrow> upto_sum a (i + 1) = upto_sum a i + a ! nat i"
  by (simp add: upto_sum_def nat_add_distrib take_Suc_conv_app_nth)

lemma upto_sum_update:
  assumes "0 \<le> p" "p < int (length a)"
  shows "int (upto_sum (a[nat p := v]) i) = int (upto_sum a i) + (if p < i then int v - int (a ! nat p) else 0)"
proof (cases "p < i")
  case True
  then have "nat p < nat i" using assms by simp
  then have "take (nat i) (a[nat p := v]) = (take (nat i) a)[nat p := v]" by (simp add: take_update_swap)
  moreover have "nat p < length (take (nat i) a)" using assms \<open>nat p < nat i\<close> by simp
  moreover have "a ! nat p \<le> sum_list (take (nat i) a)"
    using elem_le_sum_list [OF \<open>nat p < length (take (nat i) a)\<close>] \<open>nat p < nat i\<close> by simp
  ultimately show ?thesis using True \<open>nat p < nat i\<close> by (simp add: upto_sum_def sum_list_update)
next
  case False
  then have "nat i \<le> nat p" by simp
  then show ?thesis using False by (simp add: upto_sum_def)
qed

lemma ft_rep_rd:
  assumes "ft_rep ft a" "0 < i" "i \<le> ft_size ft"
  shows "tree_rd ft i = Some (of_nat (upto_sum a i - upto_sum a (i - lowbit i)))"
proof -
  have "nat i < length (tree ft)" using assms unfolding ft_rep_def by linarith
  then show ?thesis using assms by (simp add: ft_rep_def tree_rd_def)
qed

lemma fwTreeCreate_rep:
  assumes "k \<le> 30"
  obtains ft where "fwTreeCreate k = Some ft" "ft_rep ft (replicate (2 ^ k) 0)"
proof -
  define ft where "ft = \<lparr>tree = replicate (nat (2 ^ k + 1)) (0 :: u64), size_bits = k, ft_size = 2 ^ k, total = 0\<rparr>"
  have ft: "fwTreeCreate k = Some ft" "tree ft = replicate (nat (2 ^ k + 1)) 0" "size_bits ft = k" "ft_size ft = 2 ^ k" "total ft = 0"
    using assms by (simp_all add: fwTreeCreate_def Let_def ft_def)
  have "tree ft ! nat i = 0" if "0 < i" "i \<le> 2 ^ k" for i using that by (simp add: ft(2))
  then have "ft_rep ft (replicate (2 ^ k) 0)"
    using assms ft by (auto simp: ft_rep_def upto_sum_def sum_list_replicate nat_add_distrib nat_power_eq)
  then show thesis using ft(1) that by blast
qed

lemma prefixSum_loop_correct:
  assumes "ft_rep ft a" "idx \<le> ft_size ft"
  shows "fwTreePrefixSum_loop ft idx acc = Some (acc + of_nat (upto_sum a idx))"
  using assms
proof (induction ft idx acc rule: fwTreePrefixSum_loop.induct)
  case (1 ft idx acc)
  show ?case
  proof (cases "0 < idx")
    case True
    let ?j = "idx - lowbit idx"
    have lb: "0 < lowbit idx" using lowbit_bounds [OF True] by simp
    have rd: "tree_rd ft idx = Some (of_nat (upto_sum a idx - upto_sum a ?j))"
      using "1.prems" True by (intro ft_rep_rd)
    have le: "upto_sum a ?j \<le> upto_sum a idx" using lb by (intro upto_sum_mono) linarith
    have "fwTreePrefixSum_loop ft ?j (acc + of_nat (upto_sum a idx - upto_sum a ?j)) =
        Some (acc + of_nat (upto_sum a idx - upto_sum a ?j) + of_nat (upto_sum a ?j))"
      using "1.prems" lb by (intro "1.IH" [OF True rd]) auto
    then show ?thesis
      using True rd le by (simp add: fwTreePrefixSum_loop.simps [of ft idx acc] flip: of_nat_add)
  next
    case False
    then show ?thesis by (simp add: fwTreePrefixSum_loop.simps [of ft idx acc])
  qed
qed

lemma fwTreePrefixSum_correct:
  assumes "ft_rep ft a"
  shows "fwTreePrefixSum (Some ft) idx = Some (of_nat (upto_sum a (idx + 1)))"
proof -
  have n: "int (length a) = ft_size ft" using assms by (simp add: ft_rep_def)
  show ?thesis
  proof (cases "ft_size ft \<le> idx")
    case True
    then have "upto_sum a (idx + 1) = upto_sum a (ft_size ft)" using n by (simp add: upto_sum_all)
    moreover have "0 \<le> ft_size ft" using n by (metis of_nat_0_le_iff)
    ultimately show ?thesis using True prefixSum_loop_correct [OF assms, of "ft_size ft" 0]
      by (simp add: fwTreePrefixSum_def Let_def)
  next
    case False
    then show ?thesis using prefixSum_loop_correct [OF assms, of "idx + 1" 0]
      by (simp add: fwTreePrefixSum_def Let_def)
  qed
qed


lemma update_loop_correct:
  assumes "0 < x" "int (length (tree ft)) = ft_size ft + 1" "ft_size ft < 2 ^ 30" "- (2 ^ 63) < delta"
    and "\<And>i. delta < 0 \<Longrightarrow> covers (int i) x \<Longrightarrow> i < length (tree ft) \<Longrightarrow> word_of_int (- delta) \<le> tree ft ! i"
  shows "fwTreeUpdate_loop ft x delta =
     Some (ft\<lparr>tree := map (\<lambda>i. if covers (int i) x then tree ft ! i + word_of_int delta else tree ft ! i)
                     [0..<length (tree ft)]\<rparr>)"
  using assms
proof (induction ft x delta rule: fwTreeUpdate_loop.induct)
  case (1 ft x delta)
  note step = fwTreeUpdate_loop.simps [of ft x delta]
  have lb: "0 < lowbit x" using lowbit_bounds [OF "1.prems"(1)] by simp
  have self: "covers x x" using lb unfolding covers_def by linarith
  show ?case
  proof (cases "x \<le> ft_size ft")
    case True
    let ?t = "tree ft ! nat x" and ?y = "x + lowbit x"
    let ?ft' = "ft\<lparr>tree := (tree ft)[nat x := ?t + word_of_int delta]\<rparr>"
    have nx: "nat x < length (tree ft)" "int (nat x) = x" using True "1.prems"(1,2) by linarith+
    have rd: "tree_rd ft x = Some ?t" using nx "1.prems"(1) by (simp add: tree_rd_def)
    have ok: "delta < 0 \<longrightarrow> - delta < 2 ^ 63 \<and> word_of_int (- delta) \<le> ?t"
      using "1.prems"(4) "1.prems"(5) [of "nat x"] nx self by auto
    have small: "?y < 2 ^ 31" using lowbit_bounds [OF "1.prems"(1)] True "1.prems"(3) by simp
    have cov: "covers (int i) x \<longleftrightarrow> i = nat x \<or> covers (int i) ?y" if "0 < i" for i
      using covers_step [OF "1.prems"(1), of "int i"] that nx by auto
    have cov0: "\<not> covers (int 0) x" "\<not> covers (int 0) ?y" "\<not> covers x ?y"
      using "1.prems"(1) lb unfolding covers_def by linarith+
    have IH: "fwTreeUpdate_loop ?ft' ?y delta =
       Some (?ft'\<lparr>tree := map (\<lambda>i. if covers (int i) ?y then tree ?ft' ! i + word_of_int delta else tree ?ft' ! i)
                     [0..<length (tree ?ft')]\<rparr>)"
    proof (rule "1.IH")
      show "\<not> x \<le> 0" "x \<le> ft_size ft" "tree_rd ft x = Some ?t" "guard (delta < 0 \<longrightarrow> - delta < 2 ^ 63 \<and> word_of_int (- delta) \<le> ?t) = Some ()"
        "guard (?y < 2 ^ 31) = Some ()" "- (2 ^ 63) < delta" "ft_size ?ft' < 2 ^ 30"
        using "1.prems"(1,3,4) True rd ok small by auto
      show "0 < ?y" using "1.prems"(1) lb by linarith
      show "int (length (tree ?ft')) = ft_size ?ft' + 1" using "1.prems"(2) by simp
      fix i assume i: "delta < 0" "covers (int i) ?y" "i < length (tree ?ft')"
      have "i \<noteq> 0" using i(2) cov0(2) by (cases i) auto
      moreover have "i \<noteq> nat x" using i(2) cov0(3) nx by auto
      ultimately show "word_of_int (- delta) \<le> tree ?ft' ! i"
        using "1.prems"(5) [of i] i cov [of i] by auto
    qed
    have "(if covers (int i) ?y then tree ?ft' ! i + word_of_int delta else tree ?ft' ! i) =
          (if covers (int i) x then tree ft ! i + word_of_int delta else tree ft ! i)"
      if "i < length (tree ft)" for i
    proof (cases "i = 0")
      case True
      then show ?thesis using cov0 "1.prems"(1) nx by auto
    next
      case False
      then show ?thesis using cov [of i] cov0(3) nx that by (auto simp: nth_list_update)
    qed
    then have "map (\<lambda>i. if covers (int i) ?y then tree ?ft' ! i + word_of_int delta else tree ?ft' ! i)
        [0..<length (tree ft)] =
      map (\<lambda>i. if covers (int i) x then tree ft ! i + word_of_int delta else tree ft ! i) [0..<length (tree ft)]"
      by (intro map_cong) auto
    then show ?thesis using step IH rd ok small True "1.prems"(1) by simp
  next
    case False
    have "\<not> covers (int i) x" if "i < length (tree ft)" for i
      using that False "1.prems"(2) unfolding covers_def by linarith
    then have "map (\<lambda>i. if covers (int i) x then tree ft ! i + word_of_int delta else tree ft ! i)
        [0..<length (tree ft)] = tree ft"
      by (intro nth_equalityI) auto
    then show ?thesis using step False "1.prems"(1) by simp
  qed
qed

lemma fwTreeUpdate_correct:
  assumes rep: "ft_rep ft a" and idx: "0 \<le> idx" "idx < ft_size ft"
    and nonneg: "0 \<le> int (a ! nat idx) + delta" and fits: "int (sum_list a) + delta < 2 ^ 64"
    and ints: "ft_size ft < 2 ^ 30" "- (2 ^ 63) < delta"
  shows "\<exists>ft'. fwTreeUpdate (Some ft) idx delta = Some (Some ft') \<and> ft_size ft' = ft_size ft \<and>
     ft_rep ft' (a[nat idx := nat (int (a ! nat idx) + delta)])"
proof -
  let ?v = "nat (int (a ! nat idx) + delta)" and ?x = "idx + 1"
  let ?a' = "a[nat idx := ?v]"
  define seg where "seg i = upto_sum a i - upto_sum a (i - lowbit i)" for i
  have n: "int (length a) = ft_size ft" "int (length (tree ft)) = ft_size ft + 1"
    using rep by (simp_all add: ft_rep_def)
  have upd: "int (upto_sum ?a' i) = int (upto_sum a i) + (if idx < i then delta else 0)" for i
    using upto_sum_update [of idx a ?v i] idx n nonneg by simp
  have cell: "tree ft ! i = of_nat (seg (int i))" if "0 < i" "i < length (tree ft)" for i
    using rep that n unfolding ft_rep_def seg_def by (metis nat_int of_nat_0_less_iff of_nat_less_iff zless_iff_Suc_zadd zle_add1_eq_le)
  have seg_int: "int (seg i) = int (upto_sum a i) - int (upto_sum a (i - lowbit i))" if "0 < i" for i
    using lowbit_bounds [OF that] upto_sum_mono [of "i - lowbit i" i a] unfolding seg_def by (simp add: of_nat_diff)
  have seg_ge: "a ! nat idx \<le> seg i" if "covers i ?x" "0 < i" for i
  proof -
    have "upto_sum a (i - lowbit i) \<le> upto_sum a idx" "upto_sum a ?x \<le> upto_sum a i"
      using that unfolding covers_def by (intro upto_sum_mono; linarith)+
    then show ?thesis
      using upto_sum_Suc [of idx a] idx n seg_int [OF that(2)] by linarith
  qed
  have ge: "word_of_int (- delta) \<le> tree ft ! i"
    if neg: "delta < 0" and c: "covers (int i) ?x" and i: "i < length (tree ft)" for i
  proof -
    have pos: "0 < i" using c idx(1) unfolding covers_def by linarith
    have sm: "seg (int i) < 2 ^ 64"
      using upto_sum_le_total [of a "int i"] rep unfolding seg_def ft_rep_def by linarith
    have "a ! nat idx \<le> seg (int i)" using seg_ge c pos by simp
    then have "nat (- delta) \<le> seg (int i)" using nonneg by linarith
    then have "of_nat (nat (- delta)) \<le> (of_nat (seg (int i)) :: u64)"
      using sm by (simp add: word_le_nat_alt unat_of_nat)
    then show ?thesis using cell [OF pos i] neg by simp
  qed
  let ?ft1 = "ft\<lparr>total := total ft + word_of_int delta\<rparr>"
  let ?t' = "map (\<lambda>i. if covers (int i) ?x then tree ft ! i + word_of_int delta else tree ft ! i) [0..<length (tree ft)]"
  have loop: "fwTreeUpdate_loop ?ft1 ?x delta = Some (?ft1\<lparr>tree := ?t'\<rparr>)"
    using update_loop_correct [of ?x ?ft1 delta] idx(1) n(2) ge ints by simp
  have seg': "of_nat (upto_sum ?a' i - upto_sum ?a' (i - lowbit i)) =
      (if covers i ?x then of_nat (seg i) + word_of_int delta else (of_nat (seg i) :: u64))" if "0 < i" for i
  proof -
    have lb: "i - lowbit i \<le> i" using lowbit_bounds [OF that] by linarith
    have "int (upto_sum ?a' i - upto_sum ?a' (i - lowbit i)) = int (upto_sum ?a' i) - int (upto_sum ?a' (i - lowbit i))"
      using upto_sum_mono [OF lb, of ?a'] by (simp add: of_nat_diff)
    also have "\<dots> = int (seg i) + (if covers i ?x then delta else 0)"
    proof -
      obtain j where j: "j = i - lowbit i" by simp
      show ?thesis using lb unfolding upd seg_int [OF that] covers_def j [symmetric] by auto
    qed
    finally have "word_of_int (int (upto_sum ?a' i - upto_sum ?a' (i - lowbit i))) =
        (word_of_int (int (seg i) + (if covers i ?x then delta else 0)) :: u64)" by (rule arg_cong)
    then show ?thesis by (simp split: if_splits)
  qed
  have tot: "int (sum_list ?a') = int (sum_list a) + delta"
    using upd [of "ft_size ft"] upto_sum_all [of a "ft_size ft"] upto_sum_all [of ?a' "ft_size ft"] n idx by simp
  have "ft_rep (?ft1\<lparr>tree := ?t'\<rparr>) ?a'"
    unfolding ft_rep_def
  proof (intro conjI allI impI)
    have "(of_nat (sum_list ?a') :: u64) = word_of_int (int (sum_list ?a'))" by simp
    also have "\<dots> = of_nat (sum_list a) + word_of_int delta" by (simp add: tot)
    finally show "total (?ft1\<lparr>tree := ?t'\<rparr>) = of_nat (sum_list ?a')" using rep by (simp add: ft_rep_def)
    have "int (sum_list ?a') < 2 ^ 64" using tot fits by linarith
    then show "sum_list ?a' < 2 ^ 64" by simp
    fix i assume i: "0 < i \<and> i \<le> ft_size (?ft1\<lparr>tree := ?t'\<rparr>)"
    then have ni: "nat i < length (tree ft)" "0 < nat i" "int (nat i) = i" using n(2) by auto
    then show "tree (?ft1\<lparr>tree := ?t'\<rparr>) ! nat i = of_nat (upto_sum ?a' i - upto_sum ?a' (i - lowbit i))"
      using seg' [of i] cell [OF ni(2,1)] i by simp
  qed (use rep in \<open>auto simp: ft_rep_def\<close>)
  then show ?thesis using loop idx by (auto simp: fwTreeUpdate_def)
qed


section \<open>Searching by cumulative sum\<close>

lemma lowbit_aligned:
  assumes "2 ^ Suc b dvd (r :: int)" "0 \<le> r"
  shows "lowbit (r + 2 ^ b) = 2 ^ b"
proof -
  obtain q where "r = 2 ^ Suc b * q" using assms(1) by blast
  then have "r + 2 ^ b = 2 ^ b * (2 * q + 1)" by (simp add: algebra_simps)
  then show ?thesis by (simp only: lowbit_power)
qed

lemma of_nat_u64_less: "x < 2 ^ 64 \<Longrightarrow> y < 2 ^ 64 \<Longrightarrow> (of_nat x :: u64) < of_nat y \<longleftrightarrow> x < y"
  by (simp add: word_less_nat_alt unat_of_nat)

lemma find_step:
  assumes rep: "ft_rep ft a" and w: "0 < w" and c: "c = r + int w" "0 < c" "c \<le> ft_size ft"
    and lb: "lowbit c = int w" and g: "upto_sum a r < g" "g \<le> sum_list a"
  shows "fwTreeFindIndex_loop ft w r (of_nat (g - upto_sum a r)) =
     (if upto_sum a c < g then fwTreeFindIndex_loop ft (w div 2) c (of_nat (g - upto_sum a c))
      else fwTreeFindIndex_loop ft (w div 2) r (of_nat (g - upto_sum a r)))"
proof -
  obtain t d where t: "t = g - upto_sum a r" and d: "d = upto_sum a c - upto_sum a r" by simp
  have le: "upto_sum a r \<le> upto_sum a c" using w c(1) by (intro upto_sum_mono) simp
  have "c - lowbit c = r" using lb c(1) by simp
  then have rd: "tree_rd ft c = Some (of_nat d)" using ft_rep_rd [OF rep c(2,3)] d by simp
  have "t < 2 ^ 64" "d < 2 ^ 64"
    using upto_sum_le_total [of a c] rep g unfolding ft_rep_def t d by linarith+
  then have "(of_nat d :: u64) < of_nat t \<longleftrightarrow> upto_sum a c < g"
    using of_nat_u64_less [of d t] le g(1) t d by auto
  moreover have "(of_nat t :: u64) - of_nat d = of_nat (g - upto_sum a c)" if "upto_sum a c < g"
  proof -
    have "d \<le> t" "t - d = g - upto_sum a c" using that le t d by auto
    then show ?thesis by (metis of_nat_diff)
  qed
  ultimately show ?thesis
    using rd w c(1) unfolding t [symmetric] by (simp add: fwTreeFindIndex_loop.simps [of ft w] Let_def del: of_nat_diff)
qed

text \<open>
  The loop invariant of the search with step \<open>2 ^ b\<close>: the answer lies beyond \<open>r\<close>, which is a
  multiple of the next larger power, and not beyond \<open>r + 2 ^ Suc b\<close>.
\<close>

lemma find_loop_correct:
  assumes rep: "ft_rep ft a" and b: "b < size_bits ft \<or> (b = size_bits ft \<and> r = 0)"
    and r: "2 ^ Suc b dvd r" "0 \<le> r" "r + 2 ^ b \<le> ft_size ft"
    and lo: "upto_sum a r < g" and hi: "g \<le> upto_sum a (r + 2 ^ Suc b)" "g \<le> sum_list a"
  shows "\<exists>q. fwTreeFindIndex_loop ft (2 ^ b) r (of_nat (g - upto_sum a r)) = Some q \<and>
     0 \<le> q \<and> q < ft_size ft \<and> upto_sum a q < g \<and> g \<le> upto_sum a (q + 1)"
  using b r lo hi
proof (induction b arbitrary: r)
  case (0 r)
  have n: "int (length a) = ft_size ft" using rep by (simp add: ft_rep_def)
  have lb: "lowbit (r + 1) = 1" using lowbit_aligned [of 0 r] "0.prems"(2,3) by simp
  have "r + 1 < ft_size ft" if "upto_sum a (r + 1) < g"
  proof (rule ccontr)
    assume "\<not> r + 1 < ft_size ft"
    then have "upto_sum a (r + 1) = sum_list a" using n by (intro upto_sum_all) simp
    then show False using that "0.prems"(7) by simp
  qed
  then show ?case
    using find_step [OF rep, of 1 "r + 1" r g] lb "0.prems"
    by (auto simp: fwTreeFindIndex_loop.simps [of ft 0] add.commute)
next
  case (Suc b r)
  have n: "int (length a) = ft_size ft" using rep by (simp add: ft_rep_def)
  obtain P where P: "P = (2 :: int) ^ b" "0 < P" by simp
  define c where "c = r + 2 ^ Suc b"
  have c1: "c = r + 2 * P" by (simp add: c_def P)
  then have c: "c = r + 2 * P" "0 < c" "c \<le> ft_size ft"
    using Suc.prems(3,4) P(2) unfolding c_def by linarith+
  have lb: "lowbit c = 2 ^ Suc b" unfolding c_def using Suc.prems(2,3) by (rule lowbit_aligned)
  have half: "(2 :: nat) ^ Suc b div 2 = 2 ^ b" by simp
  note step = find_step [OF rep, of "2 ^ Suc b" c r g, unfolded half]
  have pw: "ft_size ft = 2 ^ size_bits ft" using rep by (simp add: ft_rep_def)
  have d: "2 ^ Suc b dvd r" using Suc.prems(2) by (rule power_le_dvd) simp
  show ?case
  proof (cases "upto_sum a c < g")
    case True
    have cn: "c < ft_size ft"
    proof (rule ccontr)
      assume "\<not> c < ft_size ft"
      then have "upto_sum a c = sum_list a" using n by (intro upto_sum_all) simp
      then show False using True Suc.prems(7) by simp
    qed
    have lt: "Suc b < size_bits ft" using Suc.prems(1) cn pw c_def by (metis add_0 order_less_irrefl)
    have dc: "2 ^ Suc b dvd c" unfolding c_def using d by (intro dvd_add) auto
    have "2 ^ Suc b dvd ft_size ft" unfolding pw using lt by (intro le_imp_power_dvd) simp
    then have "2 * P \<le> ft_size ft - c" using dvd_pos_gap [OF dc _ cn] P by simp
    then have "c + 2 ^ b \<le> ft_size ft" using P by linarith
    moreover have "c + 2 ^ Suc b = r + 2 ^ Suc (Suc b)" by (simp add: c_def)
    ultimately have "\<exists>q. fwTreeFindIndex_loop ft (2 ^ b) c (of_nat (g - upto_sum a c)) = Some q \<and>
       0 \<le> q \<and> q < ft_size ft \<and> upto_sum a q < g \<and> g \<le> upto_sum a (q + 1)"
      using lt dc c(2) True Suc.prems(6,7) by (intro Suc.IH) (auto simp del: power_Suc)
    then show ?thesis using step c lb True Suc.prems(5,7) by (simp add: c_def del: of_nat_diff)
  next
    case False
    have "r + 2 ^ b \<le> ft_size ft" using c P by linarith
    moreover have "b < size_bits ft" using Suc.prems(1) by auto
    ultimately have "\<exists>q. fwTreeFindIndex_loop ft (2 ^ b) r (of_nat (g - upto_sum a r)) = Some q \<and>
       0 \<le> q \<and> q < ft_size ft \<and> upto_sum a q < g \<and> g \<le> upto_sum a (q + 1)"
      using d Suc.prems(3,5,7) False by (intro Suc.IH) (auto simp: c_def simp del: power_Suc)
    then show ?thesis using step c lb False Suc.prems(5,7) by (simp add: c_def del: of_nat_diff)
  qed
qed

lemma fwTreeFindIndex_correct:
  assumes rep: "ft_rep ft a" and g: "1 \<le> g" "g \<le> sum_list a"
  shows "\<exists>q. fwTreeFindIndex ft (of_nat g) = Some q \<and> 0 \<le> q \<and> q < ft_size ft \<and>
             upto_sum a q < g \<and> g \<le> upto_sum a (q + 1)"
proof -
  have sz: "ft_size ft = 2 ^ size_bits ft" "int (length a) = ft_size ft" using rep by (simp_all add: ft_rep_def)
  have "upto_sum a (0 + 2 ^ Suc (size_bits ft)) = sum_list a" using sz by (intro upto_sum_all) simp
  then have "\<exists>q. fwTreeFindIndex_loop ft (2 ^ size_bits ft) 0 (of_nat (g - upto_sum a 0)) = Some q \<and>
     0 \<le> q \<and> q < ft_size ft \<and> upto_sum a q < g \<and> g \<le> upto_sum a (q + 1)"
    using rep g sz by (intro find_loop_correct) auto
  moreover have "\<not> (of_nat g :: u64) \<le> 0"
  proof -
    have "g < 2 ^ 64" using g rep unfolding ft_rep_def by linarith
    then show ?thesis using g by (simp add: word_le_nat_alt unat_of_nat)
  qed
  ultimately show ?thesis by (simp add: fwTreeFindIndex_def)
qed


section \<open>The interface of a family of counters\<close>

text \<open>What the slot-indexed key-value store relies on.\<close>

locale counter_family =
  fixes create :: "nat \<Rightarrow> 't option"
    and prefix :: "'t \<Rightarrow> int \<Rightarrow> u64 option"
    and update :: "'t \<Rightarrow> int \<Rightarrow> int \<Rightarrow> 't option"
    and find_index :: "'t \<Rightarrow> u64 \<Rightarrow> int option"
    and rep :: "'t \<Rightarrow> nat list \<Rightarrow> bool"
  assumes rep_create: "k \<le> 30 \<Longrightarrow> \<exists>t. create k = Some t \<and> rep t (replicate (2 ^ k) 0)"
    and rep_bound: "rep t a \<Longrightarrow> sum_list a < 2 ^ 64"
    and prefix_law: "rep t a \<Longrightarrow> prefix t i = Some (of_nat (upto_sum a (i + 1)))"
    and update_law: "rep t a \<Longrightarrow> 0 \<le> i \<Longrightarrow> i < int (length a) \<Longrightarrow> 0 \<le> int (a ! nat i) + d \<Longrightarrow>
      int (sum_list a) + d < 2 ^ 64 \<Longrightarrow> length a < 2 ^ 30 \<Longrightarrow> - (2 ^ 63) < d \<Longrightarrow> \<exists>t'. update t i d = Some t' \<and> rep t' (a[nat i := nat (int (a ! nat i) + d)])"
    and find_law: "rep t a \<Longrightarrow> 1 \<le> g \<Longrightarrow> g \<le> sum_list a \<Longrightarrow>
      \<exists>q. find_index t (of_nat g) = Some q \<and> 0 \<le> q \<and> q < int (length a) \<and>
          upto_sum a q < g \<and> g \<le> upto_sum a (q + 1)"
begin

lemma find_index_counted:
  assumes "rep t a" "1 \<le> g" "g \<le> sum_list a" "find_index t (of_nat g) = Some q"
  shows "0 \<le> q \<and> q < int (length a) \<and> 0 < a ! nat q \<and> upto_sum a q < g \<and> g \<le> upto_sum a (q + 1)"
  using find_law [OF assms(1-3)] assms(4) upto_sum_Suc [of q a] by auto

text \<open>Searching for the element after the first \<open>i + 1\<close> counters finds the next index in use.\<close>

lemma find_after_prefix:
  assumes "rep t a" "0 \<le> i" "i < int (length a)" "upto_sum a (i + 1) < sum_list a"
  shows "\<exists>q. find_index t (of_nat (upto_sum a (i + 1) + 1)) = Some q \<and> i < q \<and> q < int (length a) \<and>
     0 < a ! nat q \<and> (\<forall>j. i < j \<and> j < q \<longrightarrow> a ! nat j = 0)"
proof -
  let ?g = "upto_sum a (i + 1) + 1"
  obtain q where q: "find_index t (of_nat ?g) = Some q" "0 \<le> q" "q < int (length a)"
    "upto_sum a q < ?g" "?g \<le> upto_sum a (q + 1)"
    using find_law [OF assms(1), of ?g] assms(4) by auto
  have iq: "i < q"
  proof (rule ccontr)
    assume "\<not> i < q"
    then have "upto_sum a (q + 1) \<le> upto_sum a (i + 1)" by (intro upto_sum_mono) simp
    then show False using q(5) by simp
  qed
  have "a ! nat j = 0" if "i < j" "j < q" for j
  proof -
    have "upto_sum a (i + 1) \<le> upto_sum a j" "upto_sum a (j + 1) \<le> upto_sum a q"
      using that by (intro upto_sum_mono; simp)+
    then show ?thesis using upto_sum_Suc [of j a] that assms(2) q(3,4) by simp
  qed
  then show ?thesis using q iq upto_sum_Suc [of q a] by auto
qed

end

interpretation fw: counter_family fwTreeCreate "\<lambda>t. fwTreePrefixSum (Some t)"
  "\<lambda>t i d. Option.bind (fwTreeUpdate (Some t) i d) id" fwTreeFindIndex ft_rep
proof unfold_locales
  fix k :: nat
  assume "k \<le> 30"
  then show "\<exists>t. fwTreeCreate k = Some t \<and> ft_rep t (replicate (2 ^ k) 0)" using fwTreeCreate_rep by blast
next
  fix t a
  assume rep: "ft_rep t a"
  then have n: "ft_size t = int (length a)" by (simp add: ft_rep_def)
  show "sum_list a < 2 ^ 64" using rep unfolding ft_rep_def by blast
  show "fwTreePrefixSum (Some t) i = Some (of_nat (upto_sum a (i + 1)))" for i
    using rep by (rule fwTreePrefixSum_correct)
  fix i d
  assume "0 \<le> i" "i < int (length a)" "0 \<le> int (a ! nat i) + d" "int (sum_list a) + d < 2 ^ 64"
    "length a < 2 ^ 30" "- (2 ^ 63) < d"
  with fwTreeUpdate_correct [OF rep, of i d] n
  show "\<exists>t'. Option.bind (fwTreeUpdate (Some t) i d) id = Some t' \<and> ft_rep t' (a[nat i := nat (int (a ! nat i) + d)])"
    by auto
next
  fix t a g
  assume "ft_rep t a" "1 \<le> g" "g \<le> sum_list a"
  then show "\<exists>q. fwTreeFindIndex t (of_nat g) = Some q \<and> 0 \<le> q \<and> q < int (length a) \<and>
      upto_sum a q < g \<and> g \<le> upto_sum a (q + 1)"
    using fwTreeFindIndex_correct [of t a g] unfolding ft_rep_def by metis
qed

text \<open>A new tree of four counters, and one whose second counter is 7.\<close>

lemma example_new: obtains ft where "fwTreeCreate 2 = Some ft" "ft_rep ft [0, 0, 0, 0]" "ft_size ft = 4"
proof -
  have a: "replicate (2 ^ 2) 0 = [0, 0, 0, 0 :: nat]" by (simp add: numeral_eq_Suc)
  obtain ft where ft: "fwTreeCreate 2 = Some ft" "ft_rep ft (replicate (2 ^ 2) 0)" by (rule fwTreeCreate_rep [of 2]) simp
  have "ft_size ft = 4" using ft(2) by (simp add: ft_rep_def)
  then show thesis using that [OF ft(1)] ft(2) unfolding a by blast
qed

lemma example_ft: "\<exists>ft. ft_rep ft [0, 7, 0, 0]"
proof -
  obtain ft where ft: "ft_rep ft [0, 0, 0, 0]" "ft_size ft = 4" by (rule example_new)
  show ?thesis using fwTreeUpdate_correct [OF ft(1), of 1 7] ft(2) by auto
qed

section \<open>Properties\<close>

text \<open>C26. Prefix sums. On a tree that stands for the counters \<open>a\<close>, \<^verbatim>\<open>fwTreePrefixSum\<close> stays inside the
  array and returns the sum of the counters up to and including \<open>idx\<close>, for every C index: 0 below
  the range and the grand total above it.\<close>

theorem fwTreePrefixSum_sums:
  assumes "ft_rep ft a"
  shows "fwTreePrefixSum (Some ft) idx = Some (of_nat (sum_list (take (nat (idx + 1)) a)))"
  using fwTreePrefixSum_correct [OF assms, of idx] by (simp add: upto_sum_def)

theorem fwTreePrefixSum_sums_witness:
  "\<exists>ft. ft_rep ft [0, 7, 0, 0] \<and> fwTreePrefixSum (Some ft) 0 = Some 0 \<and> fwTreePrefixSum (Some ft) 1 = Some 7 \<and>
     fwTreePrefixSum (Some ft) 90 = Some 7"
proof -
  obtain ft where ft: "ft_rep ft [0, 7, 0, 0]" using example_ft by blast
  show ?thesis using ft fwTreePrefixSum_sums [OF ft, of 0] fwTreePrefixSum_sums [OF ft, of 1] fwTreePrefixSum_sums [OF ft, of 90]
    by (auto simp: nat_add_distrib)
qed

text \<open>C10. Updates. In a tree of at most \<open>2 ^ 29\<close> counters, adding a \<^verbatim>\<open>delta\<close> above the least \<^verbatim>\<open>long long\<close> to a counter
  that stays non-negative, with a sum that stays below \<open>2 ^ 64\<close>, overflows no C integer, passes every assertion of
  \<^verbatim>\<open>fwTreeUpdate\<close>, changes that counter by \<open>delta\<close> and no other, and keeps the condition its \<^verbatim>\<open>debugAssert\<close> states: the total is the prefix sum of the last
  index.\<close>

theorem fwTreeUpdate_adds:
  assumes "ft_rep ft a" and "0 \<le> idx" and "idx < ft_size ft"
    and "0 \<le> int (a ! nat idx) + delta" and "int (sum_list a) + delta < 2 ^ 64"
    and "ft_size ft \<le> 2 ^ 29" and "- (2 ^ 63) < delta"
  shows "\<exists>ft'. fwTreeUpdate (Some ft) idx delta = Some (Some ft') \<and>
     ft_rep ft' (a[nat idx := nat (int (a ! nat idx) + delta)]) \<and>
     fwTreePrefixSum (Some ft') (ft_size ft' - 1) = Some (total ft')"
proof -
  obtain ft' where ft': "fwTreeUpdate (Some ft) idx delta = Some (Some ft')"
    "ft_rep ft' (a[nat idx := nat (int (a ! nat idx) + delta)])"
    using fwTreeUpdate_correct [OF assms(1-5) _ assms(7)] assms(6) by auto
  have "fwTreePrefixSum (Some ft') (ft_size ft' - 1) = Some (total ft')"
    using fwTreePrefixSum_correct [OF ft'(2), of "ft_size ft' - 1"] ft'(2)
    by (simp add: ft_rep_def upto_sum_all)
  with ft' show ?thesis by blast
qed

theorem fwTreeUpdate_adds_witness:
  "\<exists>ft ft'. fwTreeCreate 2 = Some ft \<and> fwTreeUpdate (Some ft) 1 7 = Some (Some ft') \<and> ft_rep ft' [0, 7, 0, 0]"
proof -
  obtain ft where ft: "fwTreeCreate 2 = Some ft" "ft_rep ft [0, 0, 0, 0]" "ft_size ft = 4" by (rule example_new)
  show ?thesis using ft(1,3) fwTreeUpdate_adds [OF ft(2), of 1 7] by auto
qed

text \<open>C11. Search. For a target between 1 and the grand total \<^verbatim>\<open>fwTreeFindIndex\<close> stays inside the array
  and returns the one index at which the cumulative sum first reaches the target.\<close>

theorem fwTreeFindIndex_first_reaching:
  assumes "ft_rep ft a" and "1 \<le> g" and "g \<le> sum_list a"
  shows "\<exists>q. fwTreeFindIndex ft (of_nat g) = Some (int q) \<and> q < length a \<and>
     sum_list (take q a) < g \<and> g \<le> sum_list (take (Suc q) a)"
proof -
  obtain q where "fwTreeFindIndex ft (of_nat g) = Some q" "0 \<le> q" "q < ft_size ft"
    "upto_sum a q < g" "g \<le> upto_sum a (q + 1)"
    using fwTreeFindIndex_correct [OF assms] by blast
  with assms(1) show ?thesis
    by (intro exI [of _ "nat q"]) (auto simp: ft_rep_def upto_sum_def nat_add_distrib)
qed

theorem fwTreeFindIndex_first_reaching_witness:
  "\<exists>ft. ft_rep ft [0, 7, 0, 0] \<and> fwTreeFindIndex ft 3 = Some 1"
proof -
  obtain ft where ft: "ft_rep ft [0, 7, 0, 0]" using example_ft by blast
  obtain q where q: "fwTreeFindIndex ft 3 = Some (int q)" "q < 4"
    "sum_list (take q [0, 7, 0, 0 :: nat]) < 3" "3 \<le> sum_list (take (Suc q) [0, 7, 0, 0 :: nat])"
    using fwTreeFindIndex_first_reaching [OF ft, of 3] by auto
  have "q \<in> {0, 1, 2, 3}" using q(2) by auto
  then have "q = 1" using q(3,4) by auto
  then show ?thesis using ft q(1) by auto
qed

text \<open>The search from an index inside the tree.\<close>

lemma find_next_inside:
  assumes rep: "ft_rep ft a" and k: "int k < ft_size ft" and small: "sum_list a < 2 ^ 64 - 1"
  shows "fwTreeFindNextNonEmpty (Some ft) (int k) =
     Some (case List.find (\<lambda>j. 0 < a ! j) [Suc k..<length a] of None \<Rightarrow> - 1 | Some j \<Rightarrow> int j)"
proof -
  have n: "int (length a) = ft_size ft" "total ft = of_nat (sum_list a)"
    using rep by (auto simp: ft_rep_def)
  define s where "s = upto_sum a (int k + 1)"
  have ps: "fwTreePrefixSum (Some ft) (int k) = Some (of_nat s)"
    unfolding s_def using rep by (rule fwTreePrefixSum_correct)
  have sle: "s \<le> sum_list a" unfolding s_def by (rule upto_sum_le_total)
  have cmp: "(of_nat (s + 1) :: u64) \<le> of_nat (sum_list a) \<longleftrightarrow> s < sum_list a"
    using of_nat_u64_less [of "sum_list a" "s + 1"] sle small by (simp add: not_less [symmetric]) linarith
  have nx: "fwTreeFindNextNonEmpty (Some ft) (int k) =
      (if s < sum_list a then fwTreeFindIndex ft (of_nat (s + 1)) else Some (- 1))"
    using ps k n cmp by (simp add: fwTreeFindNextNonEmpty_def add.commute)
  show ?thesis
  proof (cases "s < sum_list a")
    case True
    obtain q where q: "fwTreeFindIndex ft (of_nat (s + 1)) = Some q" "int k < q" "q < int (length a)"
      "0 < a ! nat q" "\<forall>j. int k < j \<and> j < q \<longrightarrow> a ! nat j = 0"
      using fw.find_after_prefix [OF rep _ _ True [unfolded s_def]] k n s_def by auto
    define r where "r = nat q"
    have r: "q = int r" "k < r" "r < length a" using q(2,3) by (auto simp: r_def)
    have "a ! j = 0" if "k < j" "j < r" for j
      using q(5) [rule_format, of "int j"] that r(1) by simp
    then have "List.find (\<lambda>j. 0 < a ! j) [Suc k..<length a] = Some r"
      unfolding find_Some_iff using r q(4) by (intro exI [of _ "r - Suc k"]) auto
    then show ?thesis using nx True q(1) r(1) by simp
  next
    case False
    have "a ! j = 0" if "k < j" "j < length a" for j
    proof -
      have "s \<le> upto_sum a (int j)" unfolding s_def using that by (intro upto_sum_mono) auto
      moreover have "upto_sum a (int j + 1) \<le> sum_list a" by (rule upto_sum_le_total)
      ultimately show ?thesis using upto_sum_Suc [of "int j" a] that False by simp
    qed
    then have "List.find (\<lambda>j. 0 < a ! j) [Suc k..<length a] = None"
      by (auto simp: find_None_iff)
    then show ?thesis using nx False by simp
  qed
qed


text \<open>C25. Iteration. On a tree whose sum is below \<open>2 ^ 64 - 1\<close>, \<^verbatim>\<open>fwTreeFindNextNonEmpty\<close> returns for an index inside
  the tree the least later index whose counter is not zero, and -1 when there is none: it neither skips a counter
  in use nor returns an empty one. For every other index, -1 included, it returns -1, although the comment above
  the function says that from -1 the first non-empty index is found.\<close>

theorem fwTreeFindNextNonEmpty_least:
  assumes "ft_rep ft a" and "sum_list a < 2 ^ 64 - 1"
  shows "fwTreeFindNextNonEmpty (Some ft) idx =
     Some (if 0 \<le> idx \<and> idx < int (length a)
           then (case List.find (\<lambda>j. 0 < a ! j) [Suc (nat idx)..<length a] of None \<Rightarrow> - 1 | Some j \<Rightarrow> int j) else - 1)"
proof (cases "0 \<le> idx \<and> idx < int (length a)")
  case True
  then show ?thesis using find_next_inside [OF assms(1) _ assms(2), of "nat idx"] assms(1) by (simp add: ft_rep_def)
next
  case False
  then show ?thesis using assms(1) by (auto simp: fwTreeFindNextNonEmpty_def ft_rep_def)
qed

theorem fwTreeFindNextNonEmpty_least_witness:
  "\<exists>ft. ft_rep ft [0, 7, 0, 0] \<and> fwTreeFindNextNonEmpty (Some ft) 0 = Some 1 \<and>
        fwTreeFindNextNonEmpty (Some ft) 1 = Some (- 1) \<and> fwTreeFindNextNonEmpty (Some ft) (- 1) = Some (- 1)"
proof -
  obtain ft where ft: "ft_rep ft [0, 7, 0, 0]" using example_ft by blast
  have u: "[Suc 0..<4] = [1, 2, 3]" "[Suc (Suc 0)..<4] = [2, 3]" by (simp_all add: upt_rec)
  show ?thesis
    using ft fwTreeFindNextNonEmpty_least [OF ft, of 0] fwTreeFindNextNonEmpty_least [OF ft, of 1]
      fwTreeFindNextNonEmpty_least [OF ft, of "- 1"] u by auto
qed

end
