(* ===== verification/Util.thy ===== *)
theory Util
  imports Prelude
begin

text \<open>
  The number conversions of \<^verbatim>\<open>src/util.c\<close>. A buffer is a list of bytes written in place; a store
  outside it is \<open>None\<close>. 64-bit unsigned values that are only compared, divided or guarded against
  overflow before each step are natural numbers; where the C code tests for overflow the test is
  written out with the same bounds. Characters are bytes; the digit tests agree for signed and
  unsigned \<^verbatim>\<open>char\<close> because bytes above 127 are outside every digit range in both readings.
\<close>

section \<open>Constants and buffer stores\<close>

definition ULLONG_MAX :: nat where "ULLONG_MAX = 2 ^ 64 - 1"
definition LLONG_MAX :: int where "LLONG_MAX = 2 ^ 63 - 1"
definition LLONG_MIN :: int where "LLONG_MIN = - (2 ^ 63)"
definition LONG_STR_SIZE :: nat where "LONG_STR_SIZE = 21"

definition int64 :: "int \<Rightarrow> bool" where
  "int64 v \<longleftrightarrow> LLONG_MIN \<le> v \<and> v \<le> LLONG_MAX"

definition buf_set :: "bytes \<Rightarrow> nat \<Rightarrow> byte \<Rightarrow> bytes option" where
  "buf_set dst i c = (if i < length dst then Some (dst[i := c]) else None)"

section \<open>Number of digits\<close>

fun digits10 :: "nat \<Rightarrow> nat" where
  "digits10 v =
     (if v < 10 then 1
      else if v < 100 then 2
      else if v < 1000 then 3
      else if v < 1000000000000 then
        (if v < 100000000 then
           (if v < 1000000 then
              (if v < 10000 then 4 else 5 + (if v \<ge> 100000 then 1 else 0))
            else 7 + (if v \<ge> 10000000 then 1 else 0))
         else if v < 10000000000 then 9 + (if v \<ge> 1000000000 then 1 else 0)
         else 11 + (if v \<ge> 100000000000 then 1 else 0))
      else 12 + digits10 (v div 1000000000000))"

declare digits10.simps [simp del]

definition sdigits10 :: "int \<Rightarrow> nat" where
  "sdigits10 v =
     (if v < 0 then
        (let uv = (if v \<noteq> LLONG_MIN then nat (- v) else nat LLONG_MAX + 1) in digits10 uv + 1)
      else digits10 (nat v))"

section \<open>Printing\<close>

text \<open>The two-digit table: the ASCII digits of 00, 01, ..., 99.\<close>

definition digit_pairs :: bytes where
  "digit_pairs = map (\<lambda>c. of_nat (of_char c))
     (''0001020304050607080910111213141516171819'' @
      ''2021222324252627282930313233343536373839'' @
      ''4041424344454647484950515253545556575859'' @
      ''6061626364656667686970717273747576777879'' @
      ''8081828384858687888990919293949596979899'')"

text \<open>The loop and the last one or two digits of \<^verbatim>\<open>ull2string\<close>.\<close>

fun ull2string_loop :: "bytes \<Rightarrow> nat \<Rightarrow> nat \<Rightarrow> bytes option" where
  "ull2string_loop dst nxt value =
     (if value \<ge> 100 then
        (let i = (value mod 100) * 2
         in do { dst \<leftarrow> buf_set dst nxt (digit_pairs ! (i + 1));
                 guard (nxt \<ge> 2);
                 dst \<leftarrow> buf_set dst (nxt - 1) (digit_pairs ! i);
                 ull2string_loop dst (nxt - 2) (value div 100) })
      else if value < 10 then buf_set dst nxt (48 + of_nat value)
      else (let i = value * 2
            in do { dst \<leftarrow> buf_set dst nxt (digit_pairs ! (i + 1));
                    guard (nxt \<ge> 1);
                    buf_set dst (nxt - 1) (digit_pairs ! i) }))"

declare ull2string_loop.simps [simp del]

text \<open>\<open>dst\<close> is the memory from the destination on; the result holds it and the return value.\<close>

definition str_err :: "bytes \<Rightarrow> nat \<Rightarrow> (bytes \<times> nat) option" where
  "str_err dst dstlen = (if dstlen > 0 then do { dst \<leftarrow> buf_set dst 0 0; Some (dst, 0) } else Some (dst, 0))"

definition ull2string :: "bytes \<Rightarrow> nat \<Rightarrow> nat \<Rightarrow> (bytes \<times> nat) option" where
  "ull2string dst dstlen value =
     (let len = digits10 value
      in if len \<ge> dstlen then str_err dst dstlen
         else do { dst \<leftarrow> buf_set dst len 0;
                   dst \<leftarrow> ull2string_loop dst (len - 1) value;
                   Some (dst, len) })"

definition ll2string :: "bytes \<Rightarrow> nat \<Rightarrow> int \<Rightarrow> (bytes \<times> nat) option" where
  "ll2string dst dstlen svalue =
     (if svalue < 0 then
        (let value = (if svalue \<noteq> LLONG_MIN then nat (- svalue) else nat LLONG_MAX + 1)
         in if dstlen < 2 then str_err dst dstlen
            else do { dst \<leftarrow> buf_set dst 0 45;
                      (rest, len) \<leftarrow> ull2string (drop 1 dst) (dstlen - 1) value;
                      Some (take 1 dst @ rest, if len = 0 then 0 else len + 1) })
      else ull2string dst dstlen (nat svalue))"

section \<open>Parsing\<close>

fun string2ll_loop :: "nat \<Rightarrow> bytes \<Rightarrow> (nat \<times> bytes) option" where
  "string2ll_loop v [] = Some (v, [])"
| "string2ll_loop v (c # p) =
     (if 48 \<le> c \<and> c \<le> 57 then
        (if v > ULLONG_MAX div 10 then None
         else if v * 10 > ULLONG_MAX - unat (c - 48) then None
         else string2ll_loop (v * 10 + unat (c - 48)) p)
      else Some (v, c # p))"

text \<open>\<open>None\<close> is the return value 0; the length test at the end is on the unread rest.\<close>

definition string2ll :: "bytes \<Rightarrow> int option" where
  "string2ll s =
     (if s = [] \<or> length s \<ge> LONG_STR_SIZE then None
      else if s = [48] then Some 0
      else (let negative = (hd s = 45);
                p = (if negative then tl s else s)
            in if p = [] then None
               else if \<not> (49 \<le> hd p \<and> hd p \<le> 57) then None
               else do {
                 (v, rest) \<leftarrow> string2ll_loop (unat (hd p - 48)) (tl p);
                 (if rest \<noteq> [] then None
                  else if negative then
                    (if v > nat (- (LLONG_MIN + 1)) + 1 then None else Some (- int v))
                  else if int v > LLONG_MAX then None else Some (int v)) }))"

text \<open>On the 64-bit targets \<^verbatim>\<open>long\<close> has the range of \<^verbatim>\<open>long long\<close>; \<open>lmin\<close> and \<open>lmax\<close> are its bounds.\<close>

definition string2l :: "int \<Rightarrow> int \<Rightarrow> bytes \<Rightarrow> int option" where
  "string2l lmin lmax s =
     (case string2ll s of None \<Rightarrow> None
      | Some llval \<Rightarrow> if llval < lmin \<or> llval > lmax then None else Some llval)"

definition safe_is_c_in_range :: "byte \<Rightarrow> byte \<Rightarrow> byte \<Rightarrow> bool" where
  "safe_is_c_in_range c start stop \<longleftrightarrow> sint start \<le> sint c \<and> sint c \<le> sint stop"

definition base_16_char_type :: "byte \<Rightarrow> nat option" where
  "base_16_char_type c =
     (if safe_is_c_in_range c 48 57 then Some 0
      else if safe_is_c_in_range c 97 102 then Some 1
      else if safe_is_c_in_range c 65 70 then Some 2
      else None)"

text \<open>\<^verbatim>\<open>src\<close> is the memory from the pointer on; the character is read before the length is tested.
  The outer option is an access outside that memory, the inner one is the overflow result -1.\<close>

fun string2ul_base16_loop :: "nat \<Rightarrow> bytes \<Rightarrow> nat \<Rightarrow> nat \<Rightarrow> nat option option" where
  "string2ul_base16_loop ulmax [] slen result = None"
| "string2ul_base16_loop ulmax (c # p) slen result =
     (case base_16_char_type c of None \<Rightarrow> Some (Some result)
      | Some t \<Rightarrow>
          if slen = 0 then Some (Some result)
          else (let curr_val = unat c - (if t = 0 then 48 else if t = 1 then 87 else 55)
                in if result > ulmax div 16 \<or> result > (ulmax - curr_val) div 16 then Some None
                   else string2ul_base16_loop ulmax p (slen - 1) (result * 16 + curr_val)))"

definition string2ul_base16_async_signal_safe :: "nat \<Rightarrow> bytes \<Rightarrow> nat \<Rightarrow> nat option option" where
  "string2ul_base16_async_signal_safe ulmax src slen = string2ul_base16_loop ulmax src slen 0"

text \<open>\<^verbatim>\<open>strtoull\<close> in base 10 on a C string (given without its terminator): white space, one sign, digits;
  the value, whether it was clamped (\<^verbatim>\<open>ERANGE\<close>) and the rest where \<^verbatim>\<open>endptr\<close> points. A minus sign negates
  in the unsigned type, and with no digit at all nothing is consumed.\<close>

definition c_isdigit :: "byte \<Rightarrow> bool" where "c_isdigit c \<longleftrightarrow> 48 \<le> c \<and> c \<le> 57"
definition c_isspace :: "byte \<Rightarrow> bool" where "c_isspace c \<longleftrightarrow> c = 32 \<or> (9 \<le> c \<and> c \<le> 13)"

definition digits_value :: "bytes \<Rightarrow> nat" where
  "digits_value ds = foldl (\<lambda>v c. v * 10 + unat (c - 48)) 0 ds"

definition strtoull :: "bytes \<Rightarrow> nat \<times> bool \<times> bytes" where
  "strtoull s =
     (let t = dropWhile c_isspace s;
          negative = (t \<noteq> [] \<and> hd t = 45);
          d = (if t \<noteq> [] \<and> (hd t = 45 \<or> hd t = 43) then tl t else t);
          ds = takeWhile c_isdigit d;
          v = digits_value ds
      in if ds = [] then (0, False, s)
         else if v > ULLONG_MAX then (ULLONG_MAX, True, dropWhile c_isdigit d)
         else (if negative then nat (- int v mod 2 ^ 64) else v, False, dropWhile c_isdigit d))"

text \<open>With no digits \<^verbatim>\<open>strtoull\<close> may or may not set \<^verbatim>\<open>EINVAL\<close>; \<open>einval\<close> says which.\<close>

definition string2ull :: "bool \<Rightarrow> bytes \<Rightarrow> nat option" where
  "string2ull einval s =
     (case string2ll s of
        Some ll \<Rightarrow> if ll < 0 then None else Some (nat ll)
      | None \<Rightarrow>
          (let (v, erange, rest) = strtoull s
           in if (einval \<and> rest = s) \<or> erange \<or> \<not> (s \<noteq> [] \<and> rest = []) then None else Some v))"

definition c_tolower :: "byte \<Rightarrow> byte" where
  "c_tolower c = (if 65 \<le> c \<and> c \<le> 90 then c + 32 else c)"

definition str_bytes :: "string \<Rightarrow> bytes" where
  "str_bytes s = map (\<lambda>c. of_nat (of_char c)) s"

definition strcaseeq :: "bytes \<Rightarrow> string \<Rightarrow> bool" where
  "strcaseeq u t \<longleftrightarrow> map c_tolower u = map c_tolower (str_bytes t)"

definition memtoull_mul :: "bytes \<Rightarrow> nat option" where
  "memtoull_mul u =
     (if u = [] \<or> strcaseeq u ''b'' then Some 1
      else if strcaseeq u ''k'' then Some 1000
      else if strcaseeq u ''kb'' then Some 1024
      else if strcaseeq u ''m'' then Some (1000 * 1000)
      else if strcaseeq u ''mb'' then Some (1024 * 1024)
      else if strcaseeq u ''g'' then Some (1000 * 1000 * 1000)
      else if strcaseeq u ''gb'' then Some (1024 * 1024 * 1024)
      else None)"

text \<open>\<open>None\<close> is the error result (0 with \<^verbatim>\<open>*err\<close> set to 1); \<open>p\<close> is a C string without its terminator.\<close>

definition memtoull :: "bool \<Rightarrow> bytes \<Rightarrow> nat option" where
  "memtoull einval p =
     (if p \<noteq> [] \<and> hd p = 45 then None
      else (let ds = takeWhile c_isdigit p; u = dropWhile c_isdigit p
            in case memtoull_mul u of None \<Rightarrow> None
               | Some mul \<Rightarrow>
                   if length ds \<ge> 128 then None
                   else (let (v, erange, rest) = strtoull ds
                         in if (v = 0 \<and> einval \<and> ds = []) \<or> rest \<noteq> [] then None
                            else if v > ULLONG_MAX div mul then Some ULLONG_MAX
                            else Some (v * mul))))"

text \<open>The index of the first byte of the set, or \<open>None\<close> for \<^verbatim>\<open>NULL\<close>.\<close>

fun mempbrk :: "bytes \<Rightarrow> bytes \<Rightarrow> nat option" where
  "mempbrk [] chars = None"
| "mempbrk (c # s) chars = (if c \<in> set chars then Some 0 else map_option Suc (mempbrk s chars))"

fun mapchar :: "byte \<Rightarrow> bytes \<Rightarrow> bytes \<Rightarrow> byte" where
  "mapchar c (f # from) (t # to) = (if c = f then t else mapchar c from to)"
| "mapchar c _ _ = c"

definition memmapchars :: "bytes \<Rightarrow> bytes \<Rightarrow> bytes \<Rightarrow> bytes" where
  "memmapchars s from to = map (\<lambda>c. mapchar c from to) s"

section \<open>Fixed-point printing\<close>

definition buf_fill :: "bytes \<Rightarrow> nat \<Rightarrow> nat \<Rightarrow> byte \<Rightarrow> bytes option" where
  "buf_fill dst k n c =
     (if k + n \<le> length dst then Some (take k dst @ replicate n c @ drop (k + n) dst) else None)"

fun fixedpoint_loop :: "bytes \<Rightarrow> nat \<Rightarrow> nat \<Rightarrow> nat \<Rightarrow> bytes option" where
  "fixedpoint_loop dst nxt integer_digits value =
     (if value \<ge> 100 then
        (let i = (value mod 100) * 2
         in do { dst \<leftarrow> buf_set dst nxt (digit_pairs ! (i + 1));
                 guard (nxt \<ge> 2);
                 dst \<leftarrow> buf_set dst (nxt - 1) (digit_pairs ! i);
                 guard (nxt - 2 \<noteq> integer_digits \<or> nxt \<ge> 3);
                 fixedpoint_loop dst (if nxt - 2 = integer_digits then nxt - 3 else nxt - 2)
                   integer_digits (value div 100) })
      else if value < 10 then buf_set dst nxt (48 + of_nat value)
      else (let i = value * 2
            in do { dst \<leftarrow> buf_set dst nxt (digit_pairs ! (i + 1));
                    guard (nxt \<ge> 1);
                    buf_set dst (nxt - 1) (digit_pairs ! i) }))"

declare fixedpoint_loop.simps [simp del]

text \<open>From the length check on, on the memory after an optional sign.\<close>

definition fixedpoint_digits :: "bytes \<Rightarrow> nat \<Rightarrow> nat \<Rightarrow> nat \<Rightarrow> (bytes \<times> nat) option" where
  "fixedpoint_digits dst dstlen value fractional_digits =
     (let ndigits = digits10 value
      in if ndigits \<ge> dstlen then str_err dst dstlen
         else (let frac_only = (int ndigits - int fractional_digits < 1);
                   integer_digits = (if frac_only then 1 else ndigits - fractional_digits);
                   size = integer_digits + 1 + fractional_digits
               in do { dst \<leftarrow> (if frac_only then buf_set dst 0 48 else Some dst);
                       dst \<leftarrow> buf_set dst integer_digits 46;
                       dst \<leftarrow> buf_fill dst (integer_digits + 1) fractional_digits 48;
                       dst \<leftarrow> fixedpoint_loop dst (size - 1) integer_digits value;
                       dst \<leftarrow> buf_set dst size 0;
                       Some (dst, size) }))"

text \<open>\<open>zero\<close> is \<^verbatim>\<open>dvalue == 0\<close> and \<open>svalue\<close> the scaled and rounded \<^verbatim>\<open>llrint(dvalue * 10^fractional_digits)\<close>.\<close>

definition fixedpoint_d2string ::
  "bytes \<Rightarrow> nat \<Rightarrow> bool \<Rightarrow> int \<Rightarrow> int \<Rightarrow> (bytes \<times> nat) option" where
  "fixedpoint_d2string dst dstlen zero svalue fractional_digits =
     (if fractional_digits < 1 \<or> fractional_digits > 17 then str_err dst dstlen
      else if signed_take_bit 31 (int dstlen) < fractional_digits + 3 then str_err dst dstlen
      else if zero then
        do { dst \<leftarrow> buf_set dst 0 48;
             dst \<leftarrow> buf_set dst 1 46;
             dst \<leftarrow> buf_fill dst 2 (nat fractional_digits) 48;
             dst \<leftarrow> buf_set dst (nat fractional_digits + 2) 0;
             Some (dst, nat fractional_digits + 2) }
      else if svalue < 0 then
        (let value = (if svalue \<noteq> LLONG_MIN then nat (- svalue) else nat LLONG_MAX + 1)
         in if dstlen < 2 then str_err dst dstlen
            else do { dst \<leftarrow> buf_set dst 0 45;
                      (rest, size) \<leftarrow> fixedpoint_digits (drop 1 dst) (dstlen - 1) value (nat fractional_digits);
                      Some (take 1 dst @ rest, if size = 0 then 0 else size + 1) })
      else fixedpoint_digits dst dstlen (nat svalue) (nat fractional_digits))"

text \<open>\<open>buf\<close> is the memory from the buffer on, with a terminator in it; \<^verbatim>\<open>strchr\<close> searches up to it.\<close>

fun trim_zeros :: "bytes \<Rightarrow> nat \<Rightarrow> nat option" where
  "trim_zeros buf 0 = None"
| "trim_zeros buf (Suc n) =
     (if n \<ge> length buf then None
      else if buf ! n = 48 then trim_zeros buf n
      else if buf ! n = 46 then Some n else Some (Suc n))"

definition trimDoubleString :: "bytes \<Rightarrow> nat \<Rightarrow> (bytes \<times> nat) option" where
  "trimDoubleString buf len =
     (if 0 \<notin> set buf then None
      else do {
        len \<leftarrow> (if 46 \<in> set (takeWhile (\<lambda>c. c \<noteq> 0) buf) then trim_zeros buf len else Some len);
        buf \<leftarrow> buf_set buf len 0;
        Some (buf, len) })"

section \<open>Decimal representation\<close>

definition digit :: "nat \<Rightarrow> byte" where "digit d = 48 + of_nat (d mod 10)"

fun dec :: "nat \<Rightarrow> bytes" where
  "dec v = (if v < 10 then [digit v] else dec (v div 10) @ [digit v])"

declare dec.simps [simp del]

definition sdec :: "int \<Rightarrow> bytes" where
  "sdec v = (if v < 0 then 45 # dec (nat (- v)) else dec (nat v))"

text \<open>The low \<open>k\<close> digits, with leading zeros.\<close>

fun dpad :: "nat \<Rightarrow> nat \<Rightarrow> bytes" where
  "dpad 0 v = []"
| "dpad (Suc k) v = dpad k (v div 10) @ [digit v]"

lemma length_dpad [simp]: "length (dpad k v) = k"
  by (induction k arbitrary: v) auto

lemma dec_ne [simp]: "dec v \<noteq> []"
  by (subst dec.simps) simp

lemma length_dec_pos [simp]: "0 < length (dec v)"
  by simp

lemma length_dec_small: "v < 10 \<Longrightarrow> length (dec v) = 1"
  by (subst dec.simps) simp

lemma length_dec_step: "10 \<le> v \<Longrightarrow> length (dec v) = Suc (length (dec (v div 10)))"
  by (subst dec.simps) simp

lemma length_dec_pow: "length (dec (v div 10 ^ k)) + k = length (dec v)" if "10 ^ k \<le> v"
  using that
proof (induction k arbitrary: v)
  case (Suc k)
  have "10 \<le> v" using Suc.prems by (metis le_trans one_le_numeral one_le_power power_Suc mult_le_mono2 mult.right_neutral)
  moreover have "10 ^ k \<le> v div 10" using Suc.prems by (simp add: less_eq_div_iff_mult_less_eq mult.commute)
  ultimately show ?case using Suc.IH [of "v div 10"] by (simp add: length_dec_step div_mult2_eq)
qed simp

lemma length_dec_eq: "10 ^ k \<le> v \<Longrightarrow> v < 10 * 10 ^ k \<Longrightarrow> length (dec v) = Suc k"
  using length_dec_pow [of k v] by (simp add: length_dec_small less_mult_imp_div_less)

lemma digits10_between: "digits10 v = Suc k" if "10 ^ k \<le> v" "v < 10 * 10 ^ k" "k < 12"
proof -
  have "k = 0 \<or> k = 1 \<or> k = 2 \<or> k = 3 \<or> k = 4 \<or> k = 5 \<or> k = 6 \<or> k = 7 \<or> k = 8 \<or> k = 9 \<or> k = 10 \<or> k = 11"
    using \<open>k < 12\<close> by presburger
  then show ?thesis
    using that(1,2) by (elim disjE) (simp_all add: digits10.simps [of v])
qed

lemma pow_bracket: "\<exists>k. 10 ^ k \<le> v \<and> v < 10 * 10 ^ k" if "0 < (v::nat)"
  using ex_power_ivl1 [of 10 v] that by auto

lemma digits10_length: "digits10 v = length (dec v)"
proof (induction v rule: less_induct)
  case (less v)
  show ?case
  proof (cases "1000000000000 \<le> v")
    case True
    then have "length (dec v) = 12 + length (dec (v div 1000000000000))"
      using length_dec_pow [of 12 v] by simp
    then show ?thesis using less [of "v div 1000000000000"] True by (simp add: digits10.simps [of v])
  next
    case False
    show ?thesis
    proof (cases "v = 0")
      case False
      then obtain k where k: "10 ^ k \<le> v" "v < 10 * 10 ^ k" using pow_bracket [of v] by auto
      have "(10::nat) ^ k < 10 ^ 12" using k \<open>\<not> 1000000000000 \<le> v\<close> by simp
      then have "k < 12" by (simp only: power_strict_increasing_iff)
      then show ?thesis using digits10_between [OF k] length_dec_eq [OF k] by simp
    qed (simp add: digits10.simps dec.simps)
  qed
qed

lemma dec_lt_pow: "v < 10 ^ length (dec v)"
proof (induction v rule: dec.induct)
  case (1 v)
  then show ?case by (cases "v < 10") (auto simp: length_dec_small length_dec_step)
qed

lemma length_dec_le: "v < 10 ^ k \<Longrightarrow> 0 < k \<Longrightarrow> length (dec v) \<le> k"
proof (induction k arbitrary: v)
  case (Suc k)
  show ?case
  proof (cases "v < 10")
    case False
    then have "v div 10 < 10 ^ k" "0 < k" using Suc.prems by (auto simp: less_mult_imp_div_less mult.commute intro: Nat.gr0I)
    then show ?thesis using Suc.IH [of "v div 10"] False by (simp add: length_dec_step)
  qed (simp add: length_dec_small)
qed simp

lemma dec_dpad: "dec v = dpad (length (dec v)) v"
proof (induction v rule: dec.induct)
  case (1 v)
  then show ?case
    by (cases "v < 10") (simp_all add: dec.simps [of v])
qed

lemma digit_le: "unat (digit d) = 48 + d mod 10"
proof -
  have "d mod 10 < 10" by simp
  then have "48 + d mod 10 < 2 ^ 8" by simp
  then show ?thesis unfolding digit_def
    using unat_of_nat [where 'a = 8, of "48 + d mod 10"] by simp
qed

lemma digit_range [simp]: "48 \<le> digit d" "digit d \<le> 57"
  using digit_le [of d] by (auto simp: word_le_nat_alt)

lemma digit_val [simp]: "unat (digit d - 48) = d mod 10"
  using digit_le [of d] by (simp add: unat_sub)

lemma digit_of_val: "48 \<le> c \<Longrightarrow> c \<le> 57 \<Longrightarrow> digit (unat (c - 48)) = c"
proof -
  assume a: "48 \<le> c" "c \<le> 57"
  then have "unat (c - 48) = unat c - 48" "unat c \<le> 57" "48 \<le> unat c" by (auto simp: unat_sub word_le_nat_alt)
  then have "unat (digit (unat (c - 48))) = unat c" by (simp add: digit_le)
  then show ?thesis by (simp add: word_unat_eq_iff)
qed

lemma dec_step2: "100 \<le> v \<Longrightarrow> dec v = dec (v div 100) @ [digit (v div 10), digit v]"
  by (subst dec.simps, subst dec.simps [of "v div 10"]) (simp add: div_mult2_eq [symmetric])

lemma dec_two: "10 \<le> v \<Longrightarrow> v < 100 \<Longrightarrow> dec v = [digit (v div 10), digit v]"
  by (subst dec.simps, subst dec.simps [of "v div 10"]) simp

lemma digit_pairs_eq: "digit_pairs = concat (map (\<lambda>n. [digit (n div 10), digit n]) [0..<100])"
  by (simp add: digit_pairs_def digit_def upt_rec)

lemma digit_pairs_nth:
  assumes "n < 100"
  shows "digit_pairs ! (n * 2) = digit (n div 10)" "digit_pairs ! Suc (n * 2) = digit n"
proof -
  let ?cs = "map (\<lambda>n. [digit (n div 10), digit n]) [0..<100]"
  have u: "uniform 2 ?cs" by (simp add: uniform_def)
  have "take 2 (drop (n * 2) digit_pairs) = [digit (n div 10), digit n]"
    unfolding digit_pairs_eq using nth_concat_uniform [OF u, of n] assms by simp
  moreover have "length digit_pairs = 200"
    unfolding digit_pairs_eq using length_concat_uniform [OF u] by simp
  ultimately show "digit_pairs ! (n * 2) = digit (n div 10)" "digit_pairs ! Suc (n * 2) = digit n"
    using assms nth_take [of 0 2 "drop (n * 2) digit_pairs"] nth_take [of 1 2 "drop (n * 2) digit_pairs"]
    by auto
qed

lemma digit_mod [simp]: "digit (v mod 100) = digit v" "digit (v mod 100 div 10) = digit (v div 10)"
proof -
  have "v mod 100 mod 10 = v mod 10" by (rule mod_mod_cancel) simp
  then show "digit (v mod 100) = digit v" by (simp add: digit_def)
  have "v mod 100 div 10 mod 10 = v div 10 mod 10" using mod_mult2_eq [of v 10 10] by simp
  then show "digit (v mod 100 div 10) = digit (v div 10)" by (simp add: digit_def)
qed

lemma digit_small: "v < 10 \<Longrightarrow> 48 + word_of_nat v = digit v"
  by (simp add: digit_def)

lemma drop_update1: "i < length dst \<Longrightarrow> drop i (dst[i := a]) = a # drop (Suc i) dst"
  by (simp add: upd_conv_take_nth_drop)

lemma drop_update2: "Suc i < length dst \<Longrightarrow> drop i (dst[Suc i := b, i := a]) = a # b # drop (Suc (Suc i)) dst"
  by (simp add: drop_update1 drop_update_swap Cons_nth_drop_Suc [symmetric])

lemma buf_set_ok [simp]: "i < length dst \<Longrightarrow> buf_set dst i c = Some (dst[i := c])"
  by (simp add: buf_set_def)

lemma ull2string_loop_100: "100 \<le> v \<Longrightarrow> Suc (Suc m) < length dst \<Longrightarrow>
  ull2string_loop dst (Suc (Suc m)) v =
    ull2string_loop (dst[Suc (Suc m) := digit v, Suc m := digit (v div 10)]) m (v div 100)"
  by (subst ull2string_loop.simps) (simp add: digit_pairs_nth)

lemma ull2string_loop_1: "v < 10 \<Longrightarrow> n < length dst \<Longrightarrow> ull2string_loop dst n v = Some (dst[n := digit v])"
  by (subst ull2string_loop.simps) (simp add: digit_small)

lemma ull2string_loop_2: "10 \<le> v \<Longrightarrow> v < 100 \<Longrightarrow> Suc n < length dst \<Longrightarrow>
  ull2string_loop dst (Suc n) v = Some (dst[Suc n := digit v, n := digit (v div 10)])"
  by (subst ull2string_loop.simps) (simp add: digit_pairs_nth Let_def)

lemma ull2string_loop_dec:
  "Suc nxt = length (dec v) \<Longrightarrow> nxt < length dst \<Longrightarrow>
   ull2string_loop dst nxt v = Some (dec v @ drop (Suc nxt) dst)"
proof (induction v arbitrary: dst nxt rule: less_induct)
  case (less v)
  consider "100 \<le> v" | "v < 10" | "10 \<le> v" "v < 100" by linarith
  then show ?case
  proof cases
    case 1
    then obtain m where m: "nxt = Suc (Suc m)" "Suc m = length (dec (v div 100))"
      using less.prems(1) gr0_implies_Suc [OF length_dec_pos [of "v div 100"]] by (auto simp: dec_step2)
    show ?thesis
      using 1 less.prems(2) m(1) less.IH [of "v div 100" m, OF _ m(2)]
      by (simp add: ull2string_loop_100 drop_update2 dec_step2)
  next
    case 2
    then have "nxt = 0" using less.prems by (simp add: length_dec_small)
    then show ?thesis using 2 less.prems drop_update1 [of 0 dst]
      by (simp add: ull2string_loop_1 dec.simps [of v])
  next
    case 3
    then have "nxt = 1" using less.prems by (simp add: dec_two)
    then show ?thesis using 3 less.prems drop_update2 [of 0 dst]
      by (simp add: ull2string_loop_2 dec_two)
  qed
qed

lemma ull2string_dec:
  assumes "dstlen \<le> length dst" "length (dec v) < dstlen"
  shows "ull2string dst dstlen v = Some (dec v @ 0 # drop (Suc (length (dec v))) dst, length (dec v))"
proof -
  have "ull2string_loop (dst[length (dec v) := 0]) (length (dec v) - 1) v
    = Some (dec v @ drop (length (dec v)) (dst[length (dec v) := 0]))"
    using assms ull2string_loop_dec [of "length (dec v) - 1" v "dst[length (dec v) := 0]"] by simp
  then show ?thesis using assms by (simp add: ull2string_def digits10_length drop_update1 Let_def)
qed

lemma str_err_ok: "dstlen \<le> length dst \<Longrightarrow>
  \<exists>dst'. str_err dst dstlen = Some (dst', 0) \<and> length dst' = length dst \<and> drop dstlen dst' = drop dstlen dst"
  by (cases "dst = []") (auto simp: str_err_def)

lemma ull2string_short: "length (dec v) \<ge> dstlen \<Longrightarrow> ull2string dst dstlen v = str_err dst dstlen"
  by (simp add: ull2string_def digits10_length)

lemma magnitude: "svalue < 0 \<Longrightarrow>
  (if svalue \<noteq> LLONG_MIN then nat (- svalue) else nat LLONG_MAX + 1) = nat (- svalue)"
  by (simp add: LLONG_MIN_def LLONG_MAX_def)

section \<open>Reading decimal digits back\<close>

lemma digits_value_append: "digits_value (ds @ [c]) = digits_value ds * 10 + unat (c - 48)"
  by (simp add: digits_value_def)

lemma digits_value_dec [simp]: "digits_value (dec v) = v"
proof (induction v rule: dec.induct)
  case (1 v)
  then show ?case
    by (cases "v < 10") (simp_all add: dec.simps [of v] digits_value_append digits_value_def [of "[_]"] del: digit_val
        , simp_all)
qed

lemma dec_digits: "c \<in> set (dec v) \<Longrightarrow> c_isdigit c"
proof (induction v rule: dec.induct)
  case (1 v)
  then show ?case by (cases "v < 10") (auto simp: dec.simps [of v] c_isdigit_def)
qed

lemma hd_dec: "0 < v \<Longrightarrow> hd (dec v) \<noteq> 48"
proof (induction v rule: dec.induct)
  case (1 v)
  show ?case
  proof (cases "v < 10")
    case True
    then have "unat (digit v) \<noteq> unat (48 :: byte)" using 1(2) by (simp add: digit_le)
    then show ?thesis using True by (auto simp: dec.simps [of v])
  qed (use 1 in \<open>simp add: dec.simps [of v]\<close>)
qed

lemma digits_value_pos: "ds \<noteq> [] \<Longrightarrow> \<forall>c \<in> set ds. c_isdigit c \<Longrightarrow> hd ds \<noteq> 48 \<Longrightarrow> 0 < digits_value ds"
proof (induction ds rule: rev_induct)
  case (snoc c ds)
  show ?case
  proof (cases "ds = []")
    case Nil: True
    have "c \<noteq> 48" "48 \<le> c" using snoc.prems Nil by (auto simp: c_isdigit_def)
    then have "unat (c - 48) \<noteq> 0" by (metis unat_eq_zero right_minus_eq)
    then show ?thesis using Nil by (simp add: digits_value_def)
  qed (use snoc in \<open>simp add: digits_value_append\<close>)
qed simp

lemma dec_digits_value:
  "ds \<noteq> [] \<Longrightarrow> \<forall>c \<in> set ds. c_isdigit c \<Longrightarrow> hd ds \<noteq> 48 \<Longrightarrow> dec (digits_value ds) = ds"
proof (induction ds rule: rev_induct)
  case (snoc c ds)
  have c: "48 \<le> c" "c \<le> 57" using snoc.prems by (auto simp: c_isdigit_def)
  then have d: "unat (c - 48) < 10" by (auto simp: unat_sub word_le_nat_alt)
  show ?case
  proof (cases "ds = []")
    case True
    then show ?thesis using c d by (simp add: digits_value_def dec.simps digit_of_val)
  next
    case False
    then have "0 < digits_value ds" using snoc.prems by (intro digits_value_pos) auto
    moreover have "digit (digits_value ds * 10 + unat (c - 48)) = c"
      using digit_of_val [OF c] by (simp add: digit_def)
    ultimately show ?thesis using False snoc d
      by (subst dec.simps) (simp add: digits_value_append)
  qed
qed simp

lemma digit_lt: "c_isdigit c \<Longrightarrow> unat (c - 48) < 10"
  by (auto simp: c_isdigit_def unat_sub word_le_nat_alt)

lemma foldl_digits_ge: "v \<le> foldl (\<lambda>v c. v * 10 + unat (c - 48)) v (p :: bytes)"
proof (induction p arbitrary: v)
  case (Cons c p)
  have "v \<le> v * 10 + unat (c - 48)" by simp
  also have "\<dots> \<le> foldl (\<lambda>v c. v * 10 + unat (c - 48)) (v * 10 + unat (c - 48)) p" by (rule Cons.IH)
  finally show ?case by simp
qed simp

lemma string2ll_loop_all:
  "v \<le> ULLONG_MAX \<Longrightarrow> string2ll_loop v p = Some (w, []) \<longleftrightarrow>
     (\<forall>c \<in> set p. c_isdigit c) \<and> w = foldl (\<lambda>v c. v * 10 + unat (c - 48)) v p \<and> w \<le> ULLONG_MAX"
proof (induction p arbitrary: v)
  case (Cons c p)
  let ?v = "v * 10 + unat (c - 48)"
  show ?case
  proof (cases "c_isdigit c \<and> ?v \<le> ULLONG_MAX")
    case True
    then show ?thesis using Cons.IH [of ?v] by (auto simp: c_isdigit_def)
  next
    case False
    have "w \<noteq> foldl (\<lambda>v c. v * 10 + unat (c - 48)) v (c # p) \<or> ULLONG_MAX < w" if "c_isdigit c"
      using False that foldl_digits_ge [of ?v p] by auto
    moreover have "string2ll_loop v (c # p) \<noteq> Some (w, [])"
    proof (cases "c_isdigit c")
      case True
      then have "ULLONG_MAX - unat (c - 48) < v * 10"
        using False digit_lt [OF True] by (auto simp: ULLONG_MAX_def)
      then show ?thesis using True by (simp add: c_isdigit_def)
    qed (auto simp: c_isdigit_def)
    ultimately show ?thesis by auto
  qed
qed auto

lemma string2ll_loop_hd:
  assumes "p \<noteq> []" "c_isdigit (hd p)"
  shows "string2ll_loop (unat (hd p - 48)) (tl p) = Some (w, []) \<longleftrightarrow>
    (\<forall>c \<in> set p. c_isdigit c) \<and> w = digits_value p \<and> w \<le> ULLONG_MAX"
proof -
  have "unat (hd p - 48) \<le> ULLONG_MAX" using digit_lt [OF assms(2)] by (simp add: ULLONG_MAX_def)
  then show ?thesis using assms by (cases p) (auto simp: string2ll_loop_all digits_value_def)
qed

lemma length_sdec: "int64 v \<Longrightarrow> length (sdec v) \<le> 20"
  using length_dec_le [of "nat v" 19] length_dec_le [of "nat (- v)" 19]
  by (auto simp: sdec_def int64_def LLONG_MIN_def LLONG_MAX_def nat_less_iff)

lemma hd_dec_digit: "c_isdigit (hd (dec w))"
  by (rule dec_digits [of _ w]) simp

lemma dec_canonical: "0 < w \<Longrightarrow> 49 \<le> hd (dec w) \<and> hd (dec w) \<le> 57"
proof -
  assume "0 < w"
  then have "hd (dec w) \<noteq> 48" by (rule hd_dec)
  moreover have "c_isdigit (hd (dec w))" by (rule hd_dec_digit)
  ultimately have "unat (hd (dec w)) \<noteq> 48" "48 \<le> unat (hd (dec w))" "hd (dec w) \<le> 57"
    by (auto simp: c_isdigit_def word_unat_eq_iff word_le_nat_alt)
  then show ?thesis by (simp add: word_le_nat_alt)
qed

lemma string2ll_loop_dec:
  "0 < w \<Longrightarrow> w \<le> ULLONG_MAX \<Longrightarrow> string2ll_loop (unat (hd (dec w) - 48)) (tl (dec w)) = Some (w, [])"
  by (subst string2ll_loop_hd) (auto simp: dec_digits hd_dec_digit)

lemma string2ll_sdec: "int64 v \<Longrightarrow> string2ll (sdec v) = Some v"
proof -
  assume v: "int64 v"
  consider "v = 0" | "0 < v" | "v < 0" by linarith
  then show ?thesis
  proof cases
    case 1
    then show ?thesis by (simp add: sdec_def string2ll_def dec.simps digit_def LONG_STR_SIZE_def)
  next
    case 2
    then have w: "0 < nat v" "nat v \<le> ULLONG_MAX" "hd (dec (nat v)) \<noteq> 45" "dec (nat v) \<noteq> [48]"
      using v dec_canonical [of "nat v"] by (auto simp: int64_def LLONG_MAX_def ULLONG_MAX_def)
    then show ?thesis
      using 2 v length_sdec [OF v] dec_canonical [of "nat v"] string2ll_loop_dec [OF w(1,2)]
      by (simp add: string2ll_def sdec_def LONG_STR_SIZE_def int64_def)
  next
    case 3
    then have w: "0 < nat (- v)" "nat (- v) \<le> ULLONG_MAX"
      using v by (auto simp: int64_def LLONG_MIN_def ULLONG_MAX_def)
    then show ?thesis
      using 3 v length_sdec [OF v] dec_canonical [of "nat (- v)"] string2ll_loop_dec [OF w]
      by (simp add: string2ll_def sdec_def LONG_STR_SIZE_def int64_def LLONG_MIN_def not_less nat_le_iff)
  qed
qed

lemma string2ll_Some: "string2ll s = Some v \<Longrightarrow> int64 v \<and> s = sdec v"
proof -
  assume a: "string2ll s = Some v"
  show ?thesis
  proof (cases "s = [48]")
    case True
    then show ?thesis using a
      by (auto simp: string2ll_def LONG_STR_SIZE_def sdec_def dec.simps digit_def int64_def LLONG_MIN_def LLONG_MAX_def)
  next
    case False
    define p where "p = (if hd s = 45 then tl s else s)"
    have p: "p \<noteq> []" "49 \<le> hd p" "hd p \<le> 57" "s \<noteq> []"
      using a False by (auto simp: string2ll_def Let_def p_def split: if_splits)
    then have hp: "c_isdigit (hd p)" "hd p \<noteq> 48" by (auto simp: c_isdigit_def word_le_nat_alt)
    obtain w where w: "string2ll_loop (unat (hd p - 48)) (tl p) = Some (w, [])"
      and v: "if hd s = 45 then w \<le> 2 ^ 63 \<and> v = - int w else w < 2 ^ 63 \<and> v = int w"
      using a False by (auto simp: string2ll_def Let_def p_def LLONG_MIN_def LLONG_MAX_def bind_eq_Some_conv
          split: if_splits)
    have c: "dec w = p" "0 < w"
      using w p hp dec_digits_value [of p] digits_value_pos [of p] by (auto simp: string2ll_loop_hd)
    have "s = (if hd s = 45 then 45 # p else p)" using p(4) by (cases s) (auto simp: p_def)
    then show ?thesis using c v
      by (auto simp: sdec_def int64_def LLONG_MIN_def LLONG_MAX_def split: if_splits)
  qed
qed

text \<open>C6. \<^verbatim>\<open>string2ll\<close> accepts exactly the canonical decimal strings of the 64-bit signed integers, and returns
  the integer the string spells: no spaces, no leading zeros, no \<^verbatim>\<open>-0\<close>, no out-of-range value is accepted, so
  the string is recovered from the number without loss.\<close>

theorem string2ll_exact: "string2ll s = Some v \<longleftrightarrow> int64 v \<and> s = sdec v"
  by (auto simp: string2ll_sdec dest: string2ll_Some)

lemma ll2string_run:
  assumes "int64 v" "dstlen \<le> length dst"
  shows "if length (sdec v) < dstlen
    then ll2string dst dstlen v = Some (sdec v @ 0 # drop (Suc (length (sdec v))) dst, length (sdec v))
    else \<exists>dst'. ll2string dst dstlen v = Some (dst', 0) \<and> length dst' = length dst
           \<and> drop dstlen dst' = drop dstlen dst"
proof (cases "v < 0")
  case False
  then show ?thesis using assms str_err_ok [OF assms(2)]
    by (auto simp: ll2string_def sdec_def ull2string_dec ull2string_short)
next
  case True
  show ?thesis
  proof (cases "dstlen < 2")
    case True
    moreover have "\<not> length (sdec v) < dstlen" using \<open>v < 0\<close> True by (cases "dec (nat (- v))") (auto simp: sdec_def)
    ultimately show ?thesis using \<open>v < 0\<close> str_err_ok [OF assms(2)] by (auto simp: ll2string_def Let_def)
  next
    case False
    then obtain x tail where dst: "dst = x # tail" "dstlen - 1 \<le> length tail" using assms(2) by (cases dst) auto
    define w where "w = nat (- v)"
    have run: "ll2string dst dstlen v =
      do { (rest, len) \<leftarrow> ull2string tail (dstlen - 1) w; Some (45 # rest, if len = 0 then 0 else len + 1) }"
      using \<open>v < 0\<close> False dst by (simp add: ll2string_def magnitude w_def Let_def)
    have sd: "sdec v = 45 # dec w" using \<open>v < 0\<close> by (simp add: sdec_def w_def)
    show ?thesis
    proof (cases "length (dec w) < dstlen - 1")
      case True
      then show ?thesis using run sd dst ull2string_dec [OF dst(2) True] by (auto simp: less_diff_conv)
    next
      case short: False
      obtain tail' where t: "str_err tail (dstlen - 1) = Some (tail', 0)" "length tail' = length tail"
        "drop (dstlen - 1) tail' = drop (dstlen - 1) tail"
        using str_err_ok [OF dst(2)] by auto
      then show ?thesis using run sd dst False short ull2string_short [of "dstlen - 1" w tail]
        by (auto simp: drop_Cons')
    qed
  qed
qed

text \<open>C24. \<^verbatim>\<open>ll2string\<close> on a 64-bit signed value and a buffer of \<open>dstlen\<close> bytes never stores outside those bytes.
  When the decimal representation and its terminator fit it writes exactly them, leaves the rest alone and
  returns the length; otherwise it returns 0.\<close>

theorem ll2string_writes_decimal:
  assumes "int64 v" "dstlen \<le> length dst"
  shows "if length (sdec v) < dstlen
    then ll2string dst dstlen v = Some (sdec v @ 0 # drop (Suc (length (sdec v))) dst, length (sdec v))
    else \<exists>dst'. ll2string dst dstlen v = Some (dst', 0) \<and> length dst' = length dst
           \<and> drop dstlen dst' = drop dstlen dst"
  by (rule ll2string_run [OF assms])

theorem ll2string_writes_decimal_witness:
  "ll2string (replicate 5 1) 5 (- 273) = Some ([45, 50, 55, 51, 0], 4)"
proof -
  have "int64 (- 273)" by (simp add: int64_def LLONG_MIN_def LLONG_MAX_def)
  moreover have "sdec (- 273) = [45, 50, 55, 51]" by (simp add: sdec_def dec.simps digit_def)
  ultimately show ?thesis using ll2string_writes_decimal [of "- 273" 5 "replicate 5 1"] by simp
qed

section \<open>Fixed-point correctness\<close>

definition fixedrep :: "nat \<Rightarrow> nat \<Rightarrow> bytes" where
  "fixedrep f v = dec (v div 10 ^ f) @ 46 # dpad f v"

definition sfixedrep :: "nat \<Rightarrow> int \<Rightarrow> bytes" where
  "sfixedrep f v = (if v < 0 then 45 # fixedrep f (nat (- v)) else fixedrep f (nat v))"

lemma dpad2: "dpad (Suc (Suc k)) v = dpad k (v div 100) @ [digit (v div 10), digit v]"
  by (simp add: div_mult2_eq [symmetric])

lemma dpad_zero: "dpad k 0 = replicate k 48"
  by (induction k) (auto simp: digit_def replicate_append_same)

lemma fixedpoint_loop_integer:
  "nxt < idg \<Longrightarrow> fixedpoint_loop dst nxt idg v = ull2string_loop dst nxt v"
proof (induction v arbitrary: dst nxt rule: less_induct)
  case (less v)
  show ?case
  proof (cases "100 \<le> v \<and> nxt \<ge> 2")
    case True
    then have "v div 100 < v" "nxt - 2 < idg" "nxt - 2 \<noteq> idg" using less.prems by auto
    then show ?thesis using True less.IH [of "v div 100" "nxt - 2"]
      by (subst fixedpoint_loop.simps, subst ull2string_loop.simps) (simp add: buf_set_def)
  next
    case False
    then show ?thesis
      by (subst fixedpoint_loop.simps, subst ull2string_loop.simps) (auto simp: buf_set_def guard_def Let_def)
  qed
qed

lemma update_pair: "(xs @ x # y # ys)[Suc (length xs) := a, length xs := b] = xs @ b # a # ys"
  by (simp add: list_update_append)

lemma fixedpoint_loop_100:
  assumes "100 \<le> v" "length xs = Suc m" "0 < idg"
  shows "fixedpoint_loop (xs @ x # y # ys) (Suc (Suc m)) idg v =
     fixedpoint_loop (xs @ digit (v div 10) # digit v # ys) (if m = idg then idg - 1 else m) idg (v div 100)"
proof -
  have "(xs @ x # y # ys)[Suc (Suc m) := digit v, Suc m := digit (v div 10)] = xs @ digit (v div 10) # digit v # ys"
    using update_pair [of xs x y ys] assms(2) by simp
  then show ?thesis using assms
    by (subst fixedpoint_loop.simps) (simp add: digit_pairs_nth numeral_3_eq_3 Suc_le_eq)
qed

lemma fixedpoint_loop_last:
  "v < 100 \<Longrightarrow> n = Suc (length xs) \<Longrightarrow>
   fixedpoint_loop (xs @ 48 # y # ys) n idg v = Some (xs @ digit (v div 10) # digit v # ys)"
  by (subst fixedpoint_loop.simps)
    (auto simp: digit_pairs_nth list_update_append Let_def digit_small digit_def [of 0])

lemma fixedpoint_loop_fraction:
  assumes "length ip = idg" "0 < idg" "j = 2 * Suc k" "10 ^ j \<le> v \<Longrightarrow> length (dec (v div 10 ^ j)) = idg"
  shows "fixedpoint_loop (ip @ 46 # replicate j 48 @ rest) (idg + j) idg v =
    Some ((if 10 ^ j \<le> v then dec (v div 10 ^ j) else ip) @ 46 # dpad j v @ rest)"
  using assms(3,4)
proof (induction k arbitrary: j v rest)
  case (0 j v rest)
  then have j: "j = Suc (Suc 0)" by simp
  let ?xs = "ip @ [46]"
  show ?case
  proof (cases "100 \<le> v")
    case True
    have "fixedpoint_loop (?xs @ digit (v div 10) # digit v # rest) (idg - 1) idg (v div 100)
      = Some (dec (v div 100) @ 46 # digit (v div 10) # digit v # rest)"
      using True 0 assms(1,2) j
      by (subst fixedpoint_loop_integer, simp, subst ull2string_loop_dec) auto
    then show ?thesis using True assms(1,2) j fixedpoint_loop_100 [OF True, of ?xs idg idg 48 48 rest]
      by (simp add: dpad2 del: dpad.simps(2))
  next
    case False
    then show ?thesis using assms(1) j fixedpoint_loop_last [of v "idg + 2" ?xs 48 rest idg]
      by (simp add: dpad2 del: dpad.simps(2))
  qed
next
  case (Suc k j v rest)
  then obtain i where i: "i = 2 * Suc k" "j = Suc (Suc i)" by simp
  let ?xs = "ip @ 46 # replicate i 48"
  have list: "ip @ 46 # replicate j 48 @ rest = ?xs @ 48 # 48 # rest"
    unfolding i(2) by (simp add: replicate_app_Cons_same)
  have pw: "10 ^ j \<le> v \<longleftrightarrow> 10 ^ i \<le> v div 100" "v div 100 div 10 ^ i = v div 10 ^ j"
    by (auto simp: i(2) less_eq_div_iff_mult_less_eq div_mult2_eq [symmetric])
  show ?case
  proof (cases "100 \<le> v")
    case True
    have "fixedpoint_loop (ip @ 46 # replicate i 48 @ digit (v div 10) # digit v # rest) (idg + i) idg (v div 100)
      = Some ((if 10 ^ i \<le> v div 100 then dec (v div 100 div 10 ^ i) else ip)
          @ 46 # dpad i (v div 100) @ digit (v div 10) # digit v # rest)"
      using Suc.prems(2) pw by (intro Suc.IH [OF i(1)]) simp
    then show ?thesis
      using assms(1,2) i pw fixedpoint_loop_100 [OF True, of ?xs "idg + i" idg 48 48 rest] unfolding list
      by (simp add: dpad2 del: dpad.simps(2))
  next
    case False
    moreover have "\<not> 10 ^ i \<le> v div 100" using False by simp
    ultimately show ?thesis
      using assms(1) i pw fixedpoint_loop_last [of v "idg + j" ?xs 48 rest idg] unfolding list
      by (simp add: dpad2 dpad_zero del: dpad.simps(2))
  qed
qed

lemma length_fixedrep: "length (fixedrep f v) = length (dec (v div 10 ^ f)) + 1 + f"
  by (simp add: fixedrep_def)

lemma fixedpoint_digits_rep:
  assumes "even f" "0 < f" and fit: "length (fixedrep f v) < dstlen" "dstlen \<le> length dst"
  shows "fixedpoint_digits dst dstlen v f =
    Some (fixedrep f v @ 0 # drop (Suc (length (fixedrep f v))) dst, length (fixedrep f v))"
proof -
  define q where "q = v div 10 ^ f"
  define idg where "idg = length (dec q)"
  have idg: "0 < idg" "idg + 1 + f < length dst" "length (fixedrep f v) = idg + 1 + f"
    using fit by (auto simp: idg_def q_def length_fixedrep)
  have nd: "10 ^ f \<le> v \<Longrightarrow> length (dec v) = idg + f" using length_dec_pow [of f v] by (simp add: idg_def q_def)
  have nd': "v < 10 ^ f \<Longrightarrow> length (dec v) \<le> f \<and> q = 0 \<and> idg = 1"
    using length_dec_le [of v f] \<open>0 < f\<close> by (simp add: q_def idg_def length_dec_small)
  define dst1 where "dst1 = (if v < 10 ^ f then dst[0 := 48] else dst)"
  define ip where "ip = take idg dst1"
  have len1: "length dst1 = length dst" and drop1: "\<And>n. 0 < n \<Longrightarrow> drop n dst1 = drop n dst"
    by (auto simp: dst1_def)
  have ip: "length ip = idg" using idg len1 by (simp add: ip_def)
  obtain k where k: "f = 2 * Suc k" using \<open>even f\<close> \<open>0 < f\<close> by (metis dvdE gr0_implies_Suc mult_0_right neq0_conv)
  have filled: "take (idg + 1) (dst1[idg := 46]) @ replicate f 48 @ drop (idg + 1 + f) (dst1[idg := 46])
      = ip @ 46 # replicate f 48 @ drop (idg + 1 + f) dst"
    using idg len1 drop1 [of "idg + 1 + f"] by (simp add: take_Suc_conv_app_nth ip_def)
  have loop: "fixedpoint_loop (ip @ 46 # replicate f 48 @ drop (idg + 1 + f) dst) (idg + f) idg v
      = Some (fixedrep f v @ drop (idg + 1 + f) dst)"
  proof -
    have "ip = dec q" if "v < 10 ^ f"
      using that nd' idg len1 by (cases dst) (auto simp: ip_def dst1_def dec.simps digit_def)
    then show ?thesis using fixedpoint_loop_fraction [OF ip idg(1) k, of v] by (auto simp: idg_def q_def not_le fixedrep_def)
  qed
  have b0: "buf_set dst 0 48 = Some (dst[0 := 48])" using idg by (intro buf_set_ok) linarith
  have "fixedpoint_digits dst dstlen v f =
    do { dst \<leftarrow> buf_fill (dst1[idg := 46]) (idg + 1) f 48;
         dst \<leftarrow> fixedpoint_loop dst (idg + f) idg v;
         dst \<leftarrow> buf_set dst (idg + 1 + f) 0;
         Some (dst, idg + 1 + f) }"
    using nd nd' idg fit \<open>0 < f\<close> b0
    by (cases "v < 10 ^ f") (auto simp: fixedpoint_digits_def digits10_length dst1_def Let_def)
  also have "\<dots> = do { dst \<leftarrow> fixedpoint_loop (ip @ 46 # replicate f 48 @ drop (idg + 1 + f) dst) (idg + f) idg v;
         dst \<leftarrow> buf_set dst (idg + 1 + f) 0; Some (dst, idg + 1 + f) }"
    using filled idg len1 by (simp add: buf_fill_def)
  also have "\<dots> = Some (fixedrep f v @ 0 # drop (Suc (idg + 1 + f)) dst, idg + 1 + f)"
  proof -
    have "drop (idg + 1 + f) dst = dst ! (idg + 1 + f) # drop (Suc (idg + 1 + f)) dst"
      using idg(2) by (rule Cons_nth_drop_Suc [symmetric])
    then show ?thesis
      unfolding loop using idg(3) list_update_length [of "fixedrep f v"] by (simp add: buf_set_def)
  qed
  finally show ?thesis by (simp add: idg)
qed

text \<open>C27. For an even number of fractional digits (the code's only caller prints 4), \<^verbatim>\<open>fixedpoint_d2string\<close> on a
  buffer with room for the result writes exactly the sign, the integer digits, the dot, all the fractional
  digits of the scaled value and the terminator, touches nothing behind them, and returns the length.\<close>

theorem fixedpoint_d2string_exact:
  assumes "even f" "1 \<le> f" "f \<le> 17" "int64 v" "length (sfixedrep f v) < dstlen"
    "dstlen \<le> length dst" "dstlen < 2 ^ 31"
  shows "fixedpoint_d2string dst dstlen False v (int f) =
    Some (sfixedrep f v @ 0 # drop (Suc (length (sfixedrep f v))) dst, length (sfixedrep f v))"
proof -
  have "signed_take_bit 31 (int dstlen) = int dstlen" using assms(7) by (simp add: signed_take_bit_int_eq_self)
  moreover have "f + 3 \<le> dstlen"
    using assms(5) length_dec_pos [of "nat v div 10 ^ f"] length_dec_pos [of "nat (- v) div 10 ^ f"]
    by (auto simp: sfixedrep_def length_fixedrep Suc_le_eq simp del: length_dec_pos length_greater_0_conv split: if_splits)
  ultimately have room: "\<not> (int f < 1 \<or> int f > 17)" "\<not> signed_take_bit 31 (int dstlen) < int f + 3"
    using assms(2,3) by auto
  show ?thesis
  proof (cases "v < 0")
    case False
    then show ?thesis using room assms fixedpoint_digits_rep [of f "nat v" dstlen dst]
      by (simp add: fixedpoint_d2string_def sfixedrep_def)
  next
    case True
    then obtain x tail where dst: "dst = x # tail" "dstlen - 1 \<le> length tail" using assms(5,6) by (cases dst) auto
    then have "fixedpoint_digits tail (dstlen - 1) (nat (- v)) f =
        Some (fixedrep f (nat (- v)) @ 0 # drop (Suc (length (fixedrep f (nat (- v))))) tail, length (fixedrep f (nat (- v))))"
      using True assms by (intro fixedpoint_digits_rep) (auto simp: sfixedrep_def)
    moreover have "\<not> dstlen < 2" using \<open>f + 3 \<le> dstlen\<close> by simp
    ultimately show ?thesis using True room dst
      by (simp add: fixedpoint_d2string_def sfixedrep_def magnitude Let_def length_fixedrep)
  qed
qed

theorem fixedpoint_d2string_exact_witness:
  "fixedpoint_d2string (replicate 9 1) 9 False (- 123456) 4 = Some ([45, 49, 50, 46, 51, 52, 53, 54, 0], 8)"
proof -
  have "int64 (- 123456)" by (simp add: int64_def LLONG_MIN_def LLONG_MAX_def)
  moreover have "sfixedrep 4 (- 123456) = [45, 49, 50, 46, 51, 52, 53, 54]"
    using dpad2 [of 2 123456] dpad2 [of 0 1234, folded numeral_2_eq_2]
    by (simp add: sfixedrep_def fixedrep_def dec_two digit_def)
  ultimately show ?thesis using fixedpoint_d2string_exact [of 4 "- 123456" 9 "replicate 9 1"] by simp
qed

text \<open>With an odd number of fractional digits the pairs of digits straddle the dot: the test for its position never
  fires, and the loop stores the digits as \<^verbatim>\<open>ull2string\<close> does.\<close>

lemma fixedpoint_loop_odd:
  "odd (nxt + idg) \<Longrightarrow> fixedpoint_loop dst nxt idg v = ull2string_loop dst nxt v"
proof (induction v arbitrary: dst nxt rule: less_induct)
  case (less v)
  show ?case
  proof (cases "100 \<le> v \<and> nxt \<ge> 2")
    case True
    then have "v div 100 < v" "odd (nxt - 2 + idg)" "nxt - 2 \<noteq> idg" using less.prems by auto
    then show ?thesis using True less.IH [of "v div 100" "nxt - 2"]
      by (subst fixedpoint_loop.simps, subst ull2string_loop.simps) (simp add: buf_set_def)
  next
    case False
    then show ?thesis
      by (subst fixedpoint_loop.simps, subst ull2string_loop.simps) (auto simp: buf_set_def guard_def Let_def)
  qed
qed

lemma ull2string_loop_shift:
  "ull2string_loop dst nxt v = Some dst' \<Longrightarrow> ull2string_loop (x # dst) (Suc nxt) v = Some (x # dst')"
proof (induction v arbitrary: dst nxt rule: less_induct)
  case (less v)
  show ?case
  proof (cases "100 \<le> v")
    case True
    then have "v div 100 < v" by simp
    then show ?thesis using True less.prems less.IH [of "v div 100" _ "nxt - 2"]
      by (subst ull2string_loop.simps, subst (asm) ull2string_loop.simps)
        (auto simp: buf_set_def guard_def Let_def Suc_diff_le numeral_2_eq_2 split: if_splits nat.splits bind_splits)
  next
    case False
    then show ?thesis using less.prems
      by (subst ull2string_loop.simps, subst (asm) ull2string_loop.simps)
        (auto simp: buf_set_def guard_def Let_def split: if_splits nat.splits bind_splits)
  qed
qed

lemma fixedpoint_loop_length: "fixedpoint_loop dst nxt idg v = Some dst' \<Longrightarrow> length dst' = length dst"
proof (induction v arbitrary: dst nxt rule: less_induct)
  case (less v)
  have IH: "100 \<le> v \<Longrightarrow> fixedpoint_loop d n idg (v div 100) = Some dst' \<Longrightarrow> length dst' = length d" for d n
    using less.IH [of "v div 100"] by simp
  show ?case using less.prems
    by (subst (asm) fixedpoint_loop.simps)
      (auto simp: buf_set_def guard_def Let_def dest!: IH split: if_splits bind_splits)
qed

lemma fixedpoint_digits_odd:
  assumes "odd f" "10 ^ f \<le> v" and fit: "length (dec v) + 1 < dstlen" "dstlen \<le> length dst"
  shows "fixedpoint_digits dst dstlen v f =
    Some (dst ! 0 # dec v @ 0 # drop (length (dec v) + 2) dst, length (dec v) + 1)"
proof -
  define idg where "idg = length (dec (v div 10 ^ f))"
  have n: "length (dec v) = idg + f" "0 < idg" using length_dec_pow [OF assms(2)] by (auto simp: idg_def)
  define dst1 where "dst1 = take (idg + 1) (dst[idg := 46]) @ replicate f 48 @ drop (idg + 1 + f) dst"
  obtain x tail where dst1: "dst1 = x # tail" "x = dst ! 0" "length tail = length dst - 1"
      "drop (idg + f) tail = drop (idg + 1 + f) dst"
  proof
    have "0 < length dst1" "dst1 ! 0 = dst ! 0" using fit n by (auto simp: dst1_def nth_append)
    then show "dst1 = dst ! 0 # tl dst1" by (cases dst1) auto
    show "length (tl dst1) = length dst - 1" using fit n by (simp add: dst1_def)
    have "drop (idg + 1 + f) dst1 = drop (idg + 1 + f) dst" using fit n by (simp add: dst1_def)
    then show "drop (idg + f) (tl dst1) = drop (idg + 1 + f) dst" by (simp add: drop_Suc [symmetric] del: drop_Suc)
  qed simp
  have "ull2string_loop tail (idg + f - 1) v = Some (dec v @ drop (idg + f) tail)"
    using ull2string_loop_dec [of "idg + f - 1" v tail] n fit dst1(3) by simp
  then have "fixedpoint_loop dst1 (idg + f) idg v = Some (x # dec v @ drop (idg + 1 + f) dst)"
    using ull2string_loop_shift [of tail "idg + f - 1" v _ x] fixedpoint_loop_odd [of "idg + f" idg dst1 v] n \<open>odd f\<close> dst1
    by simp
  moreover have "fixedpoint_digits dst dstlen v f =
    do { dst \<leftarrow> fixedpoint_loop dst1 (idg + f) idg v;
         dst \<leftarrow> buf_set dst (idg + 1 + f) 0;
         Some (dst, idg + 1 + f) }"
    using n fit by (simp add: fixedpoint_digits_def digits10_length Let_def buf_fill_def dst1_def)
  moreover have "drop (idg + 1 + f) dst = dst ! (idg + 1 + f) # drop (idg + f + 2) dst"
    using fit n Cons_nth_drop_Suc [of "idg + 1 + f" dst] by simp
  ultimately show ?thesis
    using n fit dst1(2) list_update_length [of "x # dec v" "dst ! (idg + 1 + f)" _ 0] by (simp add: buf_set_def)
qed

lemma fixedpoint_digits_overrun:
  assumes "10 ^ f \<le> v" "dstlen = length (dec v) + 1" "length dst = dstlen"
  shows "fixedpoint_digits dst dstlen v f = None"
proof -
  define idg where "idg = length (dec (v div 10 ^ f))"
  have n: "length (dec v) = idg + f" "0 < idg" using length_dec_pow [OF assms(1)] by (auto simp: idg_def)
  show ?thesis using n assms(2,3)
    by (auto simp: fixedpoint_digits_def digits10_length Let_def buf_fill_def buf_set_def
        dest!: fixedpoint_loop_length split: bind_splits)
qed

lemma power10_le_abs: "10 ^ k \<le> \<bar>v :: int\<bar> \<longleftrightarrow> 10 ^ k \<le> nat \<bar>v\<bar> \<and> v \<noteq> 0"
  using zero_less_power [of "10 :: int" k] by (cases "v = 0") (simp_all add: le_nat_iff not_le)

lemma fixedpoint_d2string_signed:
  assumes "1 \<le> f" "f \<le> 17" "int64 v" "v \<noteq> 0" "f + 3 \<le> dstlen" "dstlen < 2 ^ 31" "0 < length dst"
  shows "fixedpoint_d2string dst dstlen False v (int f) =
    (if v < 0 then do { (rest, size) \<leftarrow> fixedpoint_digits (drop 1 dst) (dstlen - 1) (nat \<bar>v\<bar>) f;
                        Some (45 # rest, if size = 0 then 0 else size + 1) }
     else fixedpoint_digits dst dstlen (nat \<bar>v\<bar>) f)"
proof -
  have "signed_take_bit 31 (int dstlen) = int dstlen" using assms(6) by (simp add: signed_take_bit_int_eq_self)
  moreover have "\<not> dstlen < 2" using assms(5) by simp
  ultimately show ?thesis using assms
    by (cases dst) (auto simp: fixedpoint_d2string_def magnitude Let_def)
qed

text \<open>C35. \<^verbatim>\<open>fixedpoint_d2string\<close> accepts odd numbers of fractional digits but prints a wrong text for every value
  with a non-zero integer part (scaled, at least \<open>10 ^ f\<close> in magnitude): one of the two-digit stores runs over the
  dot. The sign is followed by a byte the call never set, then by all the digits with no dot between them, and the
  length returned is the one of the right text.\<close>

theorem fixedpoint_d2string_odd_loses_dot:
  fixes v :: int
  defines "s \<equiv> (if v < 0 then [45] else [])"
  assumes "odd f" "f \<le> 17" "int64 v" "10 ^ f \<le> \<bar>v\<bar>" "length (s @ dec (nat \<bar>v\<bar>)) + 1 < dstlen"
    "dstlen \<le> length dst" "dstlen < 2 ^ 31"
  shows "fixedpoint_d2string dst dstlen False v (int f) =
    Some (s @ dst ! length s # dec (nat \<bar>v\<bar>) @ 0 # drop (length (s @ dec (nat \<bar>v\<bar>)) + 2) dst,
          length (s @ dec (nat \<bar>v\<bar>)) + 1)"
proof -
  have v: "10 ^ f \<le> nat \<bar>v\<bar>" "v \<noteq> 0" using assms(5) unfolding power10_le_abs by blast+
  have "f + 1 \<le> length (dec (nat \<bar>v\<bar>))"
    using length_dec_pow [OF v(1)] length_dec_pos [of "nat \<bar>v\<bar> div 10 ^ f"] by linarith
  then have "f + 3 \<le> dstlen" "1 \<le> f" "0 < length dst" using assms by (auto simp: Suc_le_eq odd_pos)
  then show ?thesis
    using fixedpoint_d2string_signed [of f v dstlen dst] v assms
      fixedpoint_digits_odd [of f "nat \<bar>v\<bar>" "dstlen - 1" "drop 1 dst"]
      fixedpoint_digits_odd [of f "nat \<bar>v\<bar>" dstlen dst]
    by (auto simp: s_def)
qed

theorem fixedpoint_d2string_odd_loses_dot_witness:
  "fixedpoint_d2string [2, 3, 1, 1, 1, 1, 1, 1] 8 False (- 125) 1 = Some ([45, 3, 49, 50, 53, 0, 1, 1], 5)"
proof -
  have "int64 (- 125)" by (simp add: int64_def LLONG_MIN_def LLONG_MAX_def)
  moreover have "dec 125 = [49, 50, 53]" by (simp add: dec.simps digit_def)
  ultimately show ?thesis
    using fixedpoint_d2string_odd_loses_dot [of 1 "- 125" 8 "[2, 3, 1, 1, 1, 1, 1, 1]"] by simp
qed

text \<open>C36. The length check of \<^verbatim>\<open>fixedpoint_d2string\<close> leaves the dot out: whenever the buffer has room for exactly the
  sign, the digits and one more byte, the call is not refused and stores its terminator one byte behind the
  buffer.\<close>

theorem fixedpoint_d2string_overruns:
  fixes v :: int
  assumes "1 \<le> f" "f \<le> 17" "int64 v" "10 ^ (f + 1) \<le> \<bar>v\<bar>"
    "dstlen = (if v < 0 then 1 else 0) + length (dec (nat \<bar>v\<bar>)) + 1" "length dst = dstlen"
  shows "fixedpoint_d2string dst dstlen False v (int f) = None"
proof -
  have v1: "10 ^ (f + 1) \<le> nat \<bar>v\<bar>" and nz: "v \<noteq> 0"
    using assms(4) unfolding power10_le_abs by blast+
  have v: "10 ^ f \<le> nat \<bar>v\<bar>"
    by (rule order_trans [OF power_increasing v1]) simp_all
  have "f + 2 \<le> length (dec (nat \<bar>v\<bar>))"
    using length_dec_pow [OF v1] length_dec_pos [of "nat \<bar>v\<bar> div 10 ^ (f + 1)"] by linarith
  moreover have "length (dec (nat \<bar>v\<bar>)) \<le> 19"
    using assms(3) by (intro length_dec_le) (auto simp: int64_def LLONG_MIN_def LLONG_MAX_def nat_less_iff)
  ultimately have "f + 3 \<le> dstlen" "dstlen < 2 ^ 31" "0 < length dst" using assms(5,6) by auto
  then show ?thesis
    using fixedpoint_d2string_signed [of f v dstlen dst] nz assms(1-3,5,6)
      fixedpoint_digits_overrun [OF v, of "dstlen - 1" "drop 1 dst"] fixedpoint_digits_overrun [OF v, of dstlen dst]
    by auto
qed

theorem fixedpoint_d2string_overruns_witness:
  "fixedpoint_d2string (replicate 6 1) 6 False 12345 2 = None"
proof -
  have "int64 12345" by (simp add: int64_def LLONG_MIN_def LLONG_MAX_def)
  moreover have "dec 12345 = [49, 50, 51, 52, 53]" by (simp add: dec.simps digit_def)
  ultimately show ?thesis
    using fixedpoint_d2string_overruns [of 2 12345 6 "replicate 6 1"] by simp
qed

text \<open>C37. \<^verbatim>\<open>string2ull\<close> refuses negative numbers only in canonical form: a minus sign followed by a zero
  and the digits of \<open>n\<close> falls through to \<^verbatim>\<open>strtoull\<close>, which negates in the unsigned type, so the call succeeds
  with the value \<open>2 ^ 64 - n\<close>.\<close>

theorem string2ull_wraps_negative:
  assumes "0 < n" "n \<le> ULLONG_MAX"
  shows "string2ull einval (45 # 48 # dec n) = Some (2 ^ 64 - n)"
proof -
  have digs: "takeWhile c_isdigit (48 # dec n) = 48 # dec n" "dropWhile c_isdigit (48 # dec n) = []"
    using dec_digits [of _ n] by (simp_all add: c_isdigit_def takeWhile_eq_all_conv dropWhile_eq_Nil_conv)
  have "string2ll (45 # 48 # dec n) = None"
    by (simp add: string2ll_def)
  moreover have "digits_value (48 # dec n) = n"
    using digits_value_dec [of n] by (simp add: digits_value_def)
  moreover have "nat (- int n mod 2 ^ 64) = 2 ^ 64 - n"
    using assms by (subst zmod_zminus1_eq_if) (simp add: ULLONG_MAX_def nat_diff_distrib)
  moreover have "\<not> c_isspace 45" by (simp add: c_isspace_def)
  ultimately show ?thesis using assms digs by (simp add: string2ull_def strtoull_def Let_def)
qed

theorem string2ull_wraps_negative_witness:
  "string2ull False [45, 48, 53] = Some 18446744073709551611"
proof -
  have "dec 5 = [53]" by (simp add: dec.simps digit_def)
  moreover have "(0::nat) < 5" "5 \<le> ULLONG_MAX" by (simp_all add: ULLONG_MAX_def)
  ultimately show ?thesis using string2ull_wraps_negative [of 5 False] by simp
qed

lemma strcaseeq_hd: "strcaseeq u (x # t) \<Longrightarrow> c_isdigit (hd u) \<Longrightarrow> hd u = c_tolower (of_nat (of_char x))"
  by (cases u) (auto simp: strcaseeq_def str_bytes_def c_tolower_def c_isdigit_def word_le_nat_alt split: if_splits)

lemma memtoull_mul_not_digit: "memtoull_mul u = Some mul \<Longrightarrow> u \<noteq> [] \<Longrightarrow> \<not> c_isdigit (hd u)"
proof
  assume a: "memtoull_mul u = Some mul" "u \<noteq> []" "c_isdigit (hd u)"
  then have "hd u \<in> {98, 107, 109, 103}"
    by (auto simp: memtoull_mul_def c_tolower_def dest!: strcaseeq_hd split: if_splits)
  then show False using a(3) by (auto simp: c_isdigit_def)
qed

lemma memtoull_mul_pos: "memtoull_mul u = Some mul \<Longrightarrow> 0 < mul"
  by (auto simp: memtoull_mul_def split: if_splits)

lemma clamp:
  assumes "0 < mul" "0 < (m::nat)"
  shows "(if min n m > m div mul then m else min n m * mul) = min (n * mul) m"
proof (cases "n * mul \<le> m")
  case True
  have "n \<le> n * mul" using assms by simp
  then have "n \<le> m" "n \<le> m div mul" using True assms by (linarith, simp add: less_eq_div_iff_mult_less_eq)
  then show ?thesis using True by (simp add: min_def)
next
  case False
  then have "m div mul < n" using assms less_eq_div_iff_mult_less_eq [of mul n m] by linarith
  moreover have "mul = 1 \<or> m div mul < m" using assms by (auto intro: div_less_dividend)
  ultimately show ?thesis using False by (auto simp: min_def)
qed

text \<open>C29. \<^verbatim>\<open>memtoull\<close> on a number of fewer than 128 digits followed by one of its units returns the number times
  the unit's factor, clamped to the largest unsigned 64-bit value, whether the number itself or only the
  product overflows.\<close>

theorem memtoull_scales:
  assumes "memtoull_mul u = Some mul" "length (dec n) < 128"
  shows "memtoull einval (dec n @ u) = Some (min (n * mul) ULLONG_MAX)"
proof -
  have tw: "takeWhile c_isdigit u = []" "dropWhile c_isdigit u = u"
    using memtoull_mul_not_digit [OF assms(1)] by (cases u; simp)+
  have ds: "takeWhile c_isdigit (dec n @ u) = dec n" "dropWhile c_isdigit (dec n @ u) = u"
    using dec_digits [of _ n] tw by (simp_all add: takeWhile_append2 dropWhile_append2)
  have "\<not> c_isspace (hd (dec n))" "hd (dec n) \<noteq> 45" "hd (dec n) \<noteq> 43"
    using hd_dec_digit [of n] by (auto simp: c_isdigit_def c_isspace_def word_le_nat_alt)
  moreover have "takeWhile c_isdigit (dec n) = dec n" "dropWhile c_isdigit (dec n) = []"
    using dec_digits [of _ n] by (simp_all add: takeWhile_eq_all_conv dropWhile_eq_Nil_conv)
  moreover have "dropWhile c_isspace (dec n) = dec n" using calculation(1) by (cases "dec n") auto
  ultimately have st: "strtoull (dec n) = (min n ULLONG_MAX, n > ULLONG_MAX, [])" "hd (dec n @ u) \<noteq> 45"
    by (simp_all add: strtoull_def Let_def min_def del: takeWhile_eq_all_conv dropWhile_eq_Nil_conv)
  have "0 < ULLONG_MAX" by (simp add: ULLONG_MAX_def)
  from clamp [OF memtoull_mul_pos [OF assms(1)] this, of n] show ?thesis
    using st ds assms by (simp add: memtoull_def split: if_splits del: min_less_iff_conj)
qed

theorem memtoull_scales_witness: "memtoull False [49, 71, 98] = Some 1073741824"
proof -
  have "dec 1 = [49]" by (simp add: dec.simps digit_def)
  moreover have "memtoull_mul [71, 98] = Some (1024 * 1024 * 1024)"
    by (simp add: memtoull_mul_def strcaseeq_def str_bytes_def c_tolower_def)
  ultimately show ?thesis using memtoull_scales [of "[71, 98]" "1024 * 1024 * 1024" 1 False]
    by (simp add: ULLONG_MAX_def)
qed

end
