(* ===== verification/Glob.thy ===== *)
theory Glob
  imports Util
begin

text \<open>
  Glob-style matching of \<^verbatim>\<open>src/util.c\<close>: \<^verbatim>\<open>stringmatchlen\<close> and \<^verbatim>\<open>prefixmatch\<close>. The pattern and the string are
  the lists of the bytes still to be read, so \<^verbatim>\<open>pattern++; patternLen--\<close> is the tail. The one byte the code
  reads behind the pattern (\<^verbatim>\<open>pattern[1]\<close> when one byte is left) is the terminator every caller's pattern
  has, hence never a star. \<^verbatim>\<open>char\<close> is signed where the code compares characters as \<^verbatim>\<open>int\<close>.
\<close>

section \<open>The matcher\<close>

definition chareq :: "bool \<Rightarrow> byte \<Rightarrow> byte \<Rightarrow> bool" where
  "chareq nocase a b \<longleftrightarrow> (if nocase then c_tolower a = c_tolower b else a = b)"

definition inrange :: "bool \<Rightarrow> byte \<Rightarrow> byte \<Rightarrow> byte \<Rightarrow> bool" where
  "inrange nocase a z ch \<longleftrightarrow>
     (let (start, stop) = (if sint a > sint z then (z, a) else (a, z));
          low = (if nocase then c_tolower else id)
      in sint (low start) \<le> sint (low ch) \<and> sint (low ch) \<le> sint (low stop))"

text \<open>The loop over a bracket expression, from behind \<^verbatim>\<open>[\<close> and \<^verbatim>\<open>^\<close>: the value of \<^verbatim>\<open>match\<close> and the pattern behind
  the closing bracket. A pattern that ends inside the brackets leaves nothing.\<close>

fun class_loop :: "bool \<Rightarrow> byte \<Rightarrow> bool \<Rightarrow> bytes \<Rightarrow> bool \<times> bytes" where
  "class_loop nocase ch m p =
     (case p of
        [] \<Rightarrow> (m, [])
      | a # q \<Rightarrow>
          if q \<noteq> [] \<and> a = 92 then class_loop nocase ch (m \<or> hd q = ch) (tl q)
          else if a = 93 then (m, q)
          else if length p \<ge> 3 \<and> hd q = 45 then
            class_loop nocase ch (m \<or> inrange nocase a (hd (tl q)) ch) (tl (tl q))
          else class_loop nocase ch (m \<or> chareq nocase a ch) q)"

declare class_loop.simps [simp del]

lemma class_loop_length: "length (snd (class_loop nocase ch m p)) \<le> length p"
proof (induction nocase ch m p rule: class_loop.induct)
  case (1 nocase ch m p)
  then show ?case
    by (subst class_loop.simps) (fastforce split: list.split dest: le_SucI)
qed

text \<open>One pattern element other than a star against the first byte of the string: \<open>None\<close> is \<^verbatim>\<open>return 0\<close>,
  otherwise the pattern behind the element.\<close>

definition match_one :: "bool \<Rightarrow> bytes \<Rightarrow> byte \<Rightarrow> bytes option" where
  "match_one nocase p ch =
     (if hd p = 63 then Some (tl p)
      else if hd p = 91 then
        (let neg = (tl p \<noteq> [] \<and> hd (tl p) = 94);
             (m, rest) = class_loop nocase ch False (if neg then tl (tl p) else tl p)
         in if m \<noteq> neg then Some rest else None)
      else (let q = (if hd p = 92 \<and> length p \<ge> 2 then tl p else p)
            in if chareq nocase (hd q) ch then Some (tl q) else None))"

lemma match_one_length: "match_one nocase p ch = Some p' \<Longrightarrow> p \<noteq> [] \<Longrightarrow> length p' < length p"
  using class_loop_length [of nocase ch False "tl p"] class_loop_length [of nocase ch False "tl (tl p)"]
  by (cases p) (auto simp: match_one_def Let_def split: if_splits prod.splits)

lemma dropWhile_star_length: "p \<noteq> [] \<Longrightarrow> hd p = 42 \<Longrightarrow> length (dropWhile (\<lambda>c. c = (42 :: byte)) p) < length p"
  by (cases p) (auto simp: le_imp_less_Suc length_dropWhile_le)

text \<open>The result is the return value and the final \<^verbatim>\<open>*skipLongerMatches\<close>. \<open>star_loop\<close> is the loop that tries the
  pattern behind a run of stars at each position of the string.\<close>

function stringmatchlen_impl :: "bool \<Rightarrow> nat \<Rightarrow> bool \<Rightarrow> bytes \<Rightarrow> bytes \<Rightarrow> bool \<times> bool"
  and match_loop :: "bool \<Rightarrow> nat \<Rightarrow> bool \<Rightarrow> bytes \<Rightarrow> bytes \<Rightarrow> bool \<times> bool"
  and star_loop :: "bool \<Rightarrow> nat \<Rightarrow> bool \<Rightarrow> bytes \<Rightarrow> bytes \<Rightarrow> bool \<times> bool" where
  "stringmatchlen_impl nocase nesting skip p s =
     (if nesting > 1000 then (False, skip) else match_loop nocase nesting skip p s)"
| "match_loop nocase nesting skip p s =
     (if p = [] \<or> s = [] then (p = [] \<and> s = [], skip)
      else if hd p = 42 then
        (let rest = dropWhile (\<lambda>c. c = 42) p
         in if rest = [] then (True, skip) else star_loop nocase nesting skip rest s)
      else (case match_one nocase p (hd s) of
              None \<Rightarrow> (False, skip)
            | Some p' \<Rightarrow>
                if tl s = [] then (dropWhile (\<lambda>c. c = 42) p' = [], skip)
                else match_loop nocase nesting skip p' (tl s)))"
| "star_loop nocase nesting skip rest s =
     (if s = [] then (False, True)
      else (case stringmatchlen_impl nocase (nesting + 1) skip rest s of (r, skip) \<Rightarrow>
              if r then (True, skip)
              else if skip then (False, skip)
              else star_loop nocase nesting skip rest (tl s)))"
  by pat_completeness auto

termination
  by (relation "measures
      [\<lambda>x. case x of Inl (_, _, _, p, s) \<Rightarrow> 3 * length p + 1
         | Inr (Inl (_, _, _, p, s)) \<Rightarrow> 3 * length p
         | Inr (Inr (_, _, _, p, s)) \<Rightarrow> 3 * length p + 2,
       \<lambda>x. case x of Inl (_, _, _, p, s) \<Rightarrow> length s
         | Inr (Inl (_, _, _, p, s)) \<Rightarrow> length s
         | Inr (Inr (_, _, _, p, s)) \<Rightarrow> length s]")
    (auto dest: match_one_length dropWhile_star_length)

declare stringmatchlen_impl.simps [simp del] match_loop.simps [simp del] star_loop.simps [simp del]

definition stringmatchlen :: "bytes \<Rightarrow> bytes \<Rightarrow> bool \<Rightarrow> bool" where
  "stringmatchlen p s nocase = fst (stringmatchlen_impl nocase 0 False p s)"

text \<open>On C strings without their terminators.\<close>

definition stringmatch :: "bytes \<Rightarrow> bytes \<Rightarrow> bool \<Rightarrow> bool" where
  "stringmatch p s nocase = stringmatchlen p s nocase"

fun backslashes :: "bytes \<Rightarrow> nat" where
  "backslashes [] = 0"
| "backslashes (c # cs) = (if c = 92 then Suc (backslashes cs) else 0)"

definition prefixmatch :: "bytes \<Rightarrow> bytes \<Rightarrow> bool \<Rightarrow> bool" where
  "prefixmatch p pre nocase \<longleftrightarrow>
     fst (stringmatchlen_impl nocase 0 False p pre) \<and>
     p \<noteq> [] \<and> last p = 42 \<and> even (backslashes (rev (butlast p)))"

section \<open>Reference semantics\<close>

text \<open>The inside of a bracket expression is a sequence of items: an escaped byte, which stands for itself in any case,
  a range between two bytes in either order, or a byte. It ends at the first closing bracket that is not part of an
  item, or with the pattern.\<close>

datatype item = Escaped byte | Range byte byte | Byte byte

fun in_item :: "bool \<Rightarrow> byte \<Rightarrow> item \<Rightarrow> bool" where
  "in_item nocase ch (Escaped b) \<longleftrightarrow> b = ch"
| "in_item nocase ch (Range a z) \<longleftrightarrow>
     (let low = (\<lambda>c. sint (if nocase then c_tolower c else c)); first = (if sint a \<le> sint z then a else z);
          last = (if sint a \<le> sint z then z else a)
      in low ch \<in> {low first .. low last})"
| "in_item nocase ch (Byte b) \<longleftrightarrow> chareq nocase b ch"

definition first_item :: "bytes \<Rightarrow> item \<times> bytes" where
  "first_item p =
     (case p of
        a # b # q \<Rightarrow>
          if a = 92 then (Escaped b, q)
          else (case q of z # r \<Rightarrow> if b = 45 then (Range a z, r) else (Byte a, b # q) | [] \<Rightarrow> (Byte a, b # q))
      | _ \<Rightarrow> (Byte (hd p), tl p))"

lemma first_item_length: "p \<noteq> [] \<Longrightarrow> first_item p = (i, q) \<Longrightarrow> length q < length p"
  by (auto simp: first_item_def split: list.splits if_splits)

function bracket :: "bytes \<Rightarrow> item list \<times> bytes" where
  "bracket p =
     (if p = [] \<or> hd p = 93 then ([], tl p)
      else (let (i, q) = first_item p; (is, rest) = bracket q in (i # is, rest)))"
  by pat_completeness auto
termination
  by (relation "measure length") (auto dest: first_item_length [OF _ sym])

declare bracket.simps [simp del]

lemma bracket_length: "length (snd (bracket p)) \<le> length p"
proof (induction p rule: bracket.induct)
  case (1 p)
  show ?case
  proof (cases "p = [] \<or> hd p = 93")
    case False
    obtain i q where i: "first_item p = (i, q)" by fastforce
    then have "length q < length p" using False first_item_length by blast
    moreover have "length (snd (bracket q)) \<le> length q" using 1 [OF False refl] i by simp
    ultimately show ?thesis using i False by (subst bracket.simps) (auto split: prod.split)
  qed (subst bracket.simps, auto)
qed

text \<open>A pattern is a sequence of elements: a star, or a set of bytes with the element's extent in the pattern.\<close>

datatype elem = Star | One "byte \<Rightarrow> bool"

function parse :: "bool \<Rightarrow> bytes \<Rightarrow> elem list" where
  "parse nocase p =
     (if p = [] then []
      else if hd p = 42 then Star # parse nocase (tl p)
      else if hd p = 63 then One (\<lambda>_. True) # parse nocase (tl p)
      else if hd p = 91 then
        (let neg = (tl p \<noteq> [] \<and> hd (tl p) = 94); q = (if neg then tl (tl p) else tl p)
         in One (\<lambda>ch. list_ex (in_item nocase ch) (fst (bracket q)) \<noteq> neg) # parse nocase (snd (bracket q)))
      else if hd p = 92 \<and> length p \<ge> 2 then One (chareq nocase (hd (tl p))) # parse nocase (tl (tl p))
      else One (chareq nocase (hd p)) # parse nocase (tl p))"
  by pat_completeness auto
termination
proof (relation "measure (\<lambda>(nocase, p). length p)", goal_cases)
  case (4 nocase p neg q)
  then show ?case using bracket_length [of q] by (cases p) auto
qed (auto simp: neq_Nil_conv)

declare parse.simps [simp del]

fun matches :: "elem list \<Rightarrow> bytes \<Rightarrow> bool" where
  "matches [] s \<longleftrightarrow> s = []"
| "matches (Star # es) s \<longleftrightarrow> (\<exists>k \<le> length s. matches es (drop k s))"
| "matches (One P # es) s \<longleftrightarrow> (case s of [] \<Rightarrow> False | c # cs \<Rightarrow> P c \<and> matches es cs)"

lemma parse_Nil [simp]: "parse nocase [] = []"
  by (simp add: parse.simps)

lemma parse_star [simp]: "parse nocase (42 # p) = Star # parse nocase p"
  by (subst parse.simps) simp

lemma class_loop_Nil [simp]: "class_loop nocase ch m [] = (m, [])"
  by (simp add: class_loop.simps)

lemma class_loop_Cons:
  "class_loop nocase ch m (a # q) =
     (if q \<noteq> [] \<and> a = 92 then class_loop nocase ch (m \<or> hd q = ch) (tl q)
      else if a = 93 then (m, q)
      else if length q \<ge> 2 \<and> hd q = 45 then
        class_loop nocase ch (m \<or> inrange nocase a (hd (tl q)) ch) (tl (tl q))
      else class_loop nocase ch (m \<or> chareq nocase a ch) q)"
  by (subst class_loop.simps) auto

text \<open>The loop computes what the items say: it finds the byte in one of them, and the end of the brackets.\<close>

lemma class_loop_bracket:
  "class_loop nocase ch m p = (m \<or> list_ex (in_item nocase ch) (fst (bracket p)), snd (bracket p))"
proof (induction "length p" arbitrary: p m rule: less_induct)
  case less
  show ?case
  proof (cases "p = [] \<or> hd p = 93")
    case True
    then show ?thesis by (cases p) (auto simp: class_loop_Cons bracket.simps)
  next
    case False
    then obtain a q where p: "p = a # q" "a \<noteq> 93" by (cases p) auto
    obtain i r where i: "first_item p = (i, r)" by fastforce
    then have b: "bracket p = (i # fst (bracket r), snd (bracket r))" and l: "length r < length p"
      using False first_item_length [of p i r] by (auto simp: bracket.simps [of p] split: prod.split)
    have range: "inrange nocase a z ch = in_item nocase ch (Range a z)" for z
      by (auto simp: inrange_def Let_def)
    have "class_loop nocase ch m p = class_loop nocase ch (m \<or> in_item nocase ch i) r"
      using i p(2) unfolding p(1) class_loop_Cons range
      by (auto simp: first_item_def simp del: in_item.simps(2) split: list.splits if_splits)
    then show ?thesis using less [OF l] by (simp add: b)
  qed
qed

lemma class_loop_rest: "snd (class_loop nocase ch m p) = snd (class_loop nocase ch' m' p)"
  by (simp add: class_loop_bracket)

lemma class_loop_count: "count_list (snd (class_loop nocase ch m p)) x \<le> count_list p x"
proof (induction "length p" arbitrary: p m rule: less_induct)
  case less
  show ?case
  proof (cases p)
    case (Cons a q)
    have l: "length (tl q) < length p" "length (tl (tl q)) < length p" "length q < length p"
      using Cons by auto
    have t: "count_list (tl xs) x \<le> count_list xs x" for xs by (cases xs) auto
    have "count_list (snd (class_loop nocase ch m' r)) x \<le> count_list q x" if "r \<in> {q, tl q, tl (tl q)}" for r m'
      using that less [OF l(1), of m'] less [OF l(2), of m'] less [OF l(3), of m'] t [of q] t [of "tl q"] by auto
    then show ?thesis unfolding Cons class_loop_Cons by (auto intro: le_SucI)
  qed simp
qed

lemma count_tl: "count_list (tl xs) x \<le> count_list xs x"
  by (cases xs) auto

lemma match_one_parse:
  assumes "p \<noteq> []" "hd p \<noteq> 42"
  shows "\<exists>P rest. parse nocase p = One P # parse nocase rest
    \<and> (\<forall>ch. match_one nocase p ch = (if P ch then Some rest else None))
    \<and> count_list rest 42 \<le> count_list p 42"
proof -
  note c1 = count_tl [of p 42] and c2 = count_tl [of "tl p" 42]
  consider "hd p = 63" | "hd p = 91" | "hd p = 92" "length p \<ge> 2"
    | "hd p \<noteq> 63" "hd p \<noteq> 91" "\<not> (hd p = 92 \<and> length p \<ge> 2)" by blast
  then show ?thesis
  proof cases
    case 1
    then show ?thesis using assms c1
      by (intro exI [of _ "\<lambda>_. True"] exI [of _ "tl p"]) (simp add: parse.simps [of _ p] match_one_def)
  next
    case 2
    define neg where "neg = (tl p \<noteq> [] \<and> hd (tl p) = 94)"
    define q where "q = (if neg then tl (tl p) else tl p)"
    define rest where "rest = snd (class_loop nocase 0 False q)"
    have m: "match_one nocase p ch = (if fst (class_loop nocase ch False q) \<noteq> neg then Some rest else None)" for ch
      using 2 class_loop_rest [of nocase ch False q 0 False]
      by (auto simp: match_one_def neg_def [symmetric] q_def [symmetric] rest_def split: prod.splits)
    moreover have "parse nocase p = One (\<lambda>ch. fst (class_loop nocase ch False q) \<noteq> neg) # parse nocase rest"
      using assms 2
      by (simp add: parse.simps [of _ p] Let_def neg_def [symmetric] q_def [symmetric] rest_def class_loop_bracket)
    moreover have "count_list rest 42 \<le> count_list p 42"
      using class_loop_count [of nocase 0 False q 42] c1 c2 by (simp add: rest_def q_def split: if_splits)
    ultimately show ?thesis by blast
  next
    case 3
    then show ?thesis using assms c1 c2
      by (intro exI [of _ "chareq nocase (hd (tl p))"] exI [of _ "tl (tl p)"])
        (simp add: parse.simps [of _ p] match_one_def)
  next
    case 4
    then show ?thesis using assms c1
      by (intro exI [of _ "chareq nocase (hd p)"] exI [of _ "tl p"])
        (auto simp: parse.simps [of _ p] match_one_def)
  qed
qed

lemma matches_stars: "matches (parse nocase p) [] \<longleftrightarrow> dropWhile (\<lambda>c. c = 42) p = []"
proof (induction p)
  case (Cons c p)
  show ?case
  proof (cases "c = 42")
    case False
    then show ?thesis using match_one_parse [of "c # p" nocase] by auto
  qed (use Cons in simp)
qed simp

lemma matches_Star: "matches (Star # es) s \<longleftrightarrow> (\<exists>k. matches es (drop k s))"
  by (simp, metis drop_all linorder_le_cases order_refl)

lemma matches_Star2: "matches (Star # Star # es) s \<longleftrightarrow> matches (Star # es) s"
  unfolding matches_Star drop_drop by (metis add_0)

lemma matches_star_run:
  "matches (parse nocase (42 # p)) s \<longleftrightarrow> (\<exists>k. matches (parse nocase (dropWhile (\<lambda>c. c = 42) p)) (drop k s))"
proof (induction p)
  case (Cons c p)
  show ?case
  proof (cases "c = 42")
    case True
    then show ?thesis using Cons.IH matches_Star2 [of "parse nocase p" s] by (simp del: matches.simps)
  qed (simp add: matches_Star del: matches.simps)
qed (simp add: matches_Star del: matches.simps)

text \<open>What a call without an earlier skip gives: the match, and that a skip is only reported when the pattern
  matches no later part of the string either.\<close>

definition decides :: "bool \<Rightarrow> bytes \<Rightarrow> bytes \<Rightarrow> bool \<times> bool \<Rightarrow> bool" where
  "decides nocase p s res \<longleftrightarrow>
     (fst res \<longleftrightarrow> matches (parse nocase p) s) \<and>
     (snd res \<longrightarrow> (\<forall>k. \<not> matches (parse nocase p) (drop k s)))"

lemma decides_one:
  assumes "parse nocase p = One P # parse nocase rest" "P c" "decides nocase rest s res"
  shows "decides nocase p (c # s) res"
proof -
  have "\<not> matches (parse nocase p) (drop k (c # s))" if no: "\<forall>k. \<not> matches (parse nocase rest) (drop k s)" for k
  proof (cases "drop k (c # s)")
    case (Cons d ds)
    then have "ds = drop k s" by (metis drop_Cons' drop_Suc list.sel(3) drop_tl)
    then show ?thesis using no assms(1) Cons by simp
  qed (simp add: assms(1))
  then show ?thesis using assms by (auto simp: decides_def)
qed

lemma decides_star:
  "decides nocase (42 # p) s res \<longleftrightarrow>
     (fst res \<longleftrightarrow> (\<exists>k. matches (parse nocase p) (drop k s))) \<and>
     (snd res \<longrightarrow> \<not> (\<exists>k. matches (parse nocase p) (drop k s)))"
  unfolding decides_def parse_star matches_Star drop_drop by (metis add_0)

lemma decides_star_run: "decides nocase (42 # p) s res \<longleftrightarrow> decides nocase (42 # dropWhile (\<lambda>c. c = 42) p) s res"
  using matches_star_run [of nocase p] matches_star_run [of nocase "dropWhile (\<lambda>c. c = 42) p"]
  by (simp add: decides_def dropWhile_idem del: parse_star)

lemma ex_drop_Cons: "(\<exists>k. P (drop k (c # s))) \<longleftrightarrow> P (c # s) \<or> (\<exists>k. P (drop k s))"
  by (metis drop_0 drop_Suc_Cons not0_implies_Suc)

lemma count_dropWhile: "count_list (dropWhile Q xs) x \<le> count_list xs x"
  by (induction xs) auto

lemma star_step:
  assumes "decides nocase p (c # s) (r, sk)"
    and "\<not> r \<Longrightarrow> \<not> sk \<Longrightarrow> decides nocase (42 # p) s res"
  shows "decides nocase (42 # p) (c # s) (if r then (True, sk) else if sk then (False, sk) else res)"
proof -
  let ?M = "\<lambda>s. matches (parse nocase p) s"
  have "(\<exists>k. ?M (drop k (c # s))) \<longleftrightarrow> ?M (c # s) \<or> (\<exists>k. ?M (drop k s))" by (rule ex_drop_Cons)
  moreover have "r \<longleftrightarrow> ?M (c # s)" "sk \<longrightarrow> \<not> (\<exists>k. ?M (drop k (c # s)))" using assms(1) by (simp_all add: decides_def)
  ultimately show ?thesis using assms(2) unfolding decides_star by (cases r; cases sk) simp_all
qed

lemma matcher_decides:
  shows "nesting + count_list p 42 \<le> 1000 \<Longrightarrow> \<not> skip \<Longrightarrow> s \<noteq> [] \<Longrightarrow>
      decides nocase p s (stringmatchlen_impl nocase nesting skip p s)"
    and "nesting + count_list p 42 \<le> 1000 \<Longrightarrow> \<not> skip \<Longrightarrow> s \<noteq> [] \<Longrightarrow>
      decides nocase p s (match_loop nocase nesting skip p s)"
    and "nesting + 1 + count_list p 42 \<le> 1000 \<Longrightarrow> \<not> skip \<Longrightarrow> p \<noteq> [] \<and> hd p \<noteq> 42 \<Longrightarrow>
      decides nocase (42 # p) s (star_loop nocase nesting skip p s)"
proof (induction nocase nesting skip p s and nocase nesting skip p s and nocase nesting skip p s
    rule: stringmatchlen_impl_match_loop_star_loop.induct)
  case (1 nocase nesting skip p s)
  then show ?case by (subst stringmatchlen_impl.simps) simp
next
  case (2 nocase nesting skip p s)
  show ?case
  proof (cases "p \<noteq> [] \<and> hd p = 42")
    case True
    then obtain q where q: "p = 42 # q" by (cases p) auto
    let ?rest = "dropWhile (\<lambda>c. c = 42) q"
    show ?thesis
    proof (cases "?rest = []")
      case rest: True
      then have "matches (parse nocase p) s" using matches_star_run [of nocase q s] q
        by (simp del: dropWhile_eq_Nil_conv matches.simps parse_star) (metis drop_all order_refl matches.simps(1) parse_Nil)
      then show ?thesis using 2 q rest by (subst match_loop.simps) (simp add: decides_def)
    next
      case False
      then have "decides nocase (42 # ?rest) s (star_loop nocase nesting skip ?rest s)"
        using 2 q True hd_dropWhile [OF False] count_dropWhile [of "\<lambda>c. c = 42" q 42] by simp
      then show ?thesis using 2 q False by (subst match_loop.simps) (simp add: decides_star_run [of nocase q] del: dropWhile_eq_Nil_conv)
    qed
  next
    case notstar: False
    obtain c cs where s: "s = c # cs" using 2 by (cases s) auto
    show ?thesis
    proof (cases "p = []")
      case False
      then obtain P rest where P: "parse nocase p = One P # parse nocase rest"
        "\<And>ch. match_one nocase p ch = (if P ch then Some rest else None)" "count_list rest 42 \<le> count_list p 42"
        using match_one_parse [of p nocase] notstar by blast
      consider "\<not> P c" | "P c" "cs = []" | "P c" "cs \<noteq> []" by blast
      then show ?thesis
      proof cases
        case 3
        then have "decides nocase rest cs (match_loop nocase nesting skip rest cs)"
          using "2.IH"(2) "2.prems" P s False notstar 3 by simp
        then show ?thesis using decides_one [OF P(1) 3(1)] 3 "2.prems" P(2) s False notstar
          by (subst match_loop.simps) simp
      qed (use "2.prems" P(1,2) s False notstar in \<open>subst match_loop.simps; simp add: decides_def matches_stars\<close>)+
    qed (use "2.prems" s in \<open>subst match_loop.simps; simp add: decides_def\<close>)
  qed
next
  case (3 nocase nesting skip rest s)
  show ?case
  proof (cases s)
    case Nil
    then show ?thesis using 3 matches_stars [of nocase rest]
      by (subst star_loop.simps) (cases rest; simp add: decides_star)
  next
    case (Cons c cs)
    obtain r sk where r: "stringmatchlen_impl nocase (nesting + 1) skip rest s = (r, sk)" by fastforce
    have d: "decides nocase rest (c # cs) (r, sk)"
      using 3 r Cons by simp
    have "decides nocase (42 # rest) cs (star_loop nocase nesting skip rest cs)" if "\<not> r" "\<not> sk"
      using "3.IH"(2) "3.prems" Cons r that by simp
    from star_step [OF d this] show ?thesis
      using r Cons "3.prems" by (subst star_loop.simps) (cases sk; cases r; simp)
  qed
qed

text \<open>C5. \<^verbatim>\<open>stringmatchlen\<close> decides glob matching: on a pattern with at most 1000 stars and a non-empty string it
  returns true exactly when the string splits into parts matched by the pattern's elements in order, so the
  early exit through \<^verbatim>\<open>skipLongerMatches\<close> and the collapsing of star runs never change an answer. The empty
  string is matched by the empty pattern only, not by \<^verbatim>\<open>*\<close>.\<close>

theorem stringmatchlen_correct:
  assumes "count_list p 42 \<le> 1000"
  shows "stringmatchlen p s nocase \<longleftrightarrow> (if s = [] then p = [] else matches (parse nocase p) s)"
proof (cases "s = []")
  case True
  then show ?thesis
    by (simp add: stringmatchlen_def stringmatchlen_impl.simps match_loop.simps)
next
  case False
  then show ?thesis using matcher_decides(1) [of 0 p False s nocase] assms
    by (simp add: stringmatchlen_def decides_def)
qed

theorem stringmatchlen_correct_witness:
  "stringmatchlen [42, 97, 63] [98, 97, 97, 99] False \<and> \<not> stringmatchlen [42] [] False"
proof -
  have "parse False [42, 97, 63] = [Star, One (chareq False 97), One (\<lambda>_. True)]"
    by (simp add: parse.simps)
  moreover have "matches [Star, One (chareq False 97), One (\<lambda>_. True)] [98, 97, 97, 99]"
    by (simp, rule exI [of _ 2], simp add: chareq_def)
  ultimately show ?thesis
    using stringmatchlen_correct [of "[42, 97, 63]" "[98, 97, 97, 99]" False] stringmatchlen_correct [of "[42]" "[]" False]
    by simp
qed

section \<open>Prefix matching\<close>

lemma backslashes_snoc:
  "backslashes (ys @ [x]) = (if \<forall>c \<in> set ys. c = 92 then length ys + (if x = 92 then 1 else 0) else backslashes ys)"
  by (induction ys) auto

lemma backslashes_all: "\<forall>c \<in> set ys. c = 92 \<Longrightarrow> backslashes ys = length ys"
  by (induction ys) auto

lemma backslashes_Cons:
  "x \<noteq> 92 \<Longrightarrow> q \<noteq> [] \<Longrightarrow> backslashes (rev (butlast (x # q))) = backslashes (rev (butlast q))"
  using backslashes_all [of "rev (butlast q)"] by (simp add: backslashes_snoc)

lemma backslashes_escape:
  "q \<noteq> [] \<Longrightarrow> even (backslashes (rev (butlast (92 # y # q)))) \<longleftrightarrow> even (backslashes (rev (butlast q)))"
  using backslashes_snoc [of "rev (butlast q) @ [y]" 92] backslashes_snoc [of "rev (butlast q)" y]
    backslashes_all [of "rev (butlast q)"] by simp

lemma parse_ends_star:
  assumes "91 \<notin> set p" "p \<noteq> []" "last p = 42" "even (backslashes (rev (butlast p)))"
  shows "\<exists>es. parse nocase p = es @ [Star]"
  using assms
proof (induction "length p" arbitrary: p rule: less_induct)
  case less
  obtain x q where p: "p = x # q" using less.prems by (cases p) auto
  show ?case
  proof (cases "q = []")
    case True
    then show ?thesis using less.prems p by simp
  next
    case q: False
    show ?thesis
    proof (cases "x = 92")
      case False
      then have "\<exists>es. parse nocase q = es @ [Star]"
        using less.prems p q by (intro less.hyps) (auto simp: backslashes_Cons simp del: butlast.simps)
      moreover have "\<exists>e. parse nocase p = e # parse nocase q"
        using False p less.prems by (subst parse.simps) auto
      ultimately show ?thesis by auto
    next
      case True
      obtain y r where r: "q = y # r" using q by (cases q) auto
      have "r \<noteq> []" using less.prems p r True by auto
      then have "\<exists>es. parse nocase r = es @ [Star]"
        using less.prems p r True by (intro less.hyps) (auto simp: backslashes_escape simp del: butlast.simps)
      moreover have "parse nocase p = One (chareq nocase y) # parse nocase r"
        using True p r by (subst parse.simps) simp
      ultimately show ?thesis by auto
    qed
  qed
qed

lemma matches_extend: "matches (es @ [Star]) s \<Longrightarrow> matches (es @ [Star]) (s @ t)"
proof (induction es arbitrary: s)
  case (Cons e es)
  show ?case
  proof (cases e)
    case Star
    then obtain k where "k \<le> length s" "matches (es @ [Star]) (drop k s)" using Cons.prems by auto
    then show ?thesis using Star Cons.IH [of "drop k s"] by (auto intro!: exI [of _ k])
  next
    case (One P)
    then show ?thesis using Cons by (cases s) auto
  qed
qed auto

text \<open>C28. When \<^verbatim>\<open>prefixmatch\<close> accepts a prefix for a pattern without a bracket expression and with at most 1000 stars
  (the nesting limit of the matcher), the pattern matches every string that extends the prefix.\<close>

theorem prefixmatch_extends:
  assumes "count_list p 42 \<le> 1000" "91 \<notin> set p" "prefixmatch p pre nocase"
  shows "stringmatchlen p (pre @ suf) nocase"
proof -
  obtain es where es: "parse nocase p = es @ [Star]"
    using parse_ends_star [of p nocase] assms(2,3) by (auto simp: prefixmatch_def)
  have "p \<noteq> []" "stringmatchlen p pre nocase" using assms(3) by (auto simp: prefixmatch_def stringmatchlen_def)
  then have "pre \<noteq> []" "matches (parse nocase p) pre"
    using matcher_decides(1) [of 0 p False pre nocase] assms(1)
    by (auto simp: stringmatchlen_def decides_def stringmatchlen_impl.simps match_loop.simps split: if_splits)
  then show ?thesis
    using es matches_extend [of es pre suf] matcher_decides(1) [of 0 p False "pre @ suf" nocase] assms(1)
    by (simp add: stringmatchlen_def decides_def)
qed

theorem prefixmatch_extends_witness:
  "prefixmatch [97, 42] [97] False \<and> stringmatchlen [97, 42] [97, 98, 99] False"
proof -
  have "prefixmatch [97, 42] [97] False"
    by (simp add: prefixmatch_def stringmatchlen_impl.simps match_loop.simps match_one_def chareq_def)
  then show ?thesis using prefixmatch_extends [of "[97, 42]" "[97]" False "[98, 99]"] by simp
qed

text \<open>C34. The star \<^verbatim>\<open>prefixmatch\<close> looks for may stand inside an unterminated bracket expression, where it is a
  literal: \<^verbatim>\<open>[*\<close> is accepted for the prefix \<^verbatim>\<open>*\<close>, yet it matches no string of two or more bytes.\<close>

theorem prefixmatch_bracket_star:
  "prefixmatch [91, 42] [42] nocase \<and> \<not> stringmatchlen [91, 42] (42 # c # s) nocase"
  by (simp add: prefixmatch_def stringmatchlen_def stringmatchlen_impl.simps match_loop.simps match_one_def
      class_loop_Cons chareq_def)

end
