(* ===== verification/Adlist.thy ===== *)
theory Adlist
  imports Prelude
begin

text \<open>
  The doubly linked list of \<^verbatim>\<open>src/adlist.c\<close> on an explicit store of nodes. A pointer to a node is an optional
  address, \<open>None\<close> being \<^verbatim>\<open>NULL\<close>; following a null or dangling pointer is the result \<open>None\<close> of the operation. The
  list structure is a record that the operations take and return. An allocation is an argument of the
  operation: the address \<^verbatim>\<open>zmalloc\<close> returns with the indeterminate content of the node, or nothing when it fails.
  The values are opaque; a call of the list's \<^verbatim>\<open>free\<close> method is logged in the store.
\<close>

section \<open>Nodes, lists and iterators\<close>

type_synonym ptr = "nat option"

record 'v listNode =
  n_prev :: ptr
  n_next :: ptr
  n_value :: 'v

datatype direction = AL_START_HEAD | AL_START_TAIL

record listIter =
  it_next :: ptr
  it_direction :: direction

record 'v adlist =
  l_head :: ptr
  l_tail :: ptr
  l_dup :: "('v \<Rightarrow> 'v option) option"
  l_free :: bool
  l_match :: "('v \<Rightarrow> 'v \<Rightarrow> bool) option"
  l_len :: u64

record 'v lstore =
  nodes :: "nat \<Rightarrow> 'v listNode option"
  freed :: "'v list"

type_synonym 'v mem = "(nat \<times> 'v listNode) option"

definition deref :: "'v lstore \<Rightarrow> ptr \<Rightarrow> 'v listNode option" where
  "deref s p = (case p of None \<Rightarrow> None | Some a \<Rightarrow> nodes s a)"

definition modify :: "'v lstore \<Rightarrow> ptr \<Rightarrow> ('v listNode \<Rightarrow> 'v listNode) \<Rightarrow> 'v lstore option" where
  "modify s p f = (case p of None \<Rightarrow> None
     | Some a \<Rightarrow> (case nodes s a of None \<Rightarrow> None | Some nd \<Rightarrow> Some (s\<lparr>nodes := (nodes s)(a \<mapsto> f nd)\<rparr>)))"

definition zmalloc_node :: "'v lstore \<Rightarrow> nat \<Rightarrow> 'v listNode \<Rightarrow> 'v lstore option" where
  "zmalloc_node s a junk =
     (if nodes s a = None then Some (s\<lparr>nodes := (nodes s)(a \<mapsto> junk)\<rparr>) else None)"

definition zfree_node :: "'v lstore \<Rightarrow> ptr \<Rightarrow> 'v lstore" where
  "zfree_node s p = (case p of None \<Rightarrow> s | Some a \<Rightarrow> s\<lparr>nodes := (nodes s)(a := None)\<rparr>)"

definition call_free :: "'v adlist \<Rightarrow> 'v lstore \<Rightarrow> 'v \<Rightarrow> 'v lstore" where
  "call_free l s v = (if l_free l then s\<lparr>freed := freed s @ [v]\<rparr> else s)"

section \<open>Operations\<close>

definition listCreate :: "'v adlist" where
  "listCreate = \<lparr>l_head = None, l_tail = None, l_dup = None, l_free = False, l_match = None, l_len = 0\<rparr>"

primrec listEmpty_loop :: "'v adlist \<Rightarrow> nat \<Rightarrow> 'v lstore \<Rightarrow> ptr \<Rightarrow> 'v lstore option" where
  "listEmpty_loop l 0 s current = Some s"
| "listEmpty_loop l (Suc n) s current =
     do { nd \<leftarrow> deref s current;
          listEmpty_loop l n (zfree_node (call_free l s (n_value nd)) current) (n_next nd) }"

definition listEmpty :: "'v lstore \<Rightarrow> 'v adlist \<Rightarrow> ('v lstore \<times> 'v adlist) option" where
  "listEmpty s l =
     do { s \<leftarrow> listEmpty_loop l (unat (l_len l)) s (l_head l);
          Some (s, l\<lparr>l_head := None, l_tail := None, l_len := 0\<rparr>) }"

text \<open>The list structure itself is gone afterwards.\<close>

definition listRelease :: "'v lstore \<Rightarrow> 'v adlist option \<Rightarrow> 'v lstore option" where
  "listRelease s lp = (case lp of None \<Rightarrow> Some s | Some l \<Rightarrow> do { (s, l) \<leftarrow> listEmpty s l; Some s })"

definition listReleaseGeneric :: "'v lstore \<Rightarrow> 'v adlist option \<Rightarrow> 'v lstore option" where
  "listReleaseGeneric s lp = listRelease s lp"

definition listLinkNodeHead :: "'v lstore \<Rightarrow> 'v adlist \<Rightarrow> nat \<Rightarrow> ('v lstore \<times> 'v adlist) option" where
  "listLinkNodeHead s l node =
     (if l_len l = 0 then
        do { s \<leftarrow> modify s (Some node) (\<lambda>n. n\<lparr>n_prev := None, n_next := None\<rparr>);
             Some (s, l\<lparr>l_head := Some node, l_tail := Some node, l_len := l_len l + 1\<rparr>) }
      else
        do { s \<leftarrow> modify s (Some node) (\<lambda>n. n\<lparr>n_prev := None, n_next := l_head l\<rparr>);
             s \<leftarrow> modify s (l_head l) (\<lambda>n. n\<lparr>n_prev := Some node\<rparr>);
             Some (s, l\<lparr>l_head := Some node, l_len := l_len l + 1\<rparr>) })"

definition listAddNodeHead ::
  "'v lstore \<Rightarrow> 'v adlist \<Rightarrow> 'v mem \<Rightarrow> 'v \<Rightarrow> ('v lstore \<times> 'v adlist \<times> bool) option" where
  "listAddNodeHead s l mem v = (case mem of None \<Rightarrow> Some (s, l, False)
     | Some (a, junk) \<Rightarrow>
         do { s \<leftarrow> zmalloc_node s a junk;
              s \<leftarrow> modify s (Some a) (\<lambda>n. n\<lparr>n_value := v\<rparr>);
              (s, l) \<leftarrow> listLinkNodeHead s l a;
              Some (s, l, True) })"

definition listLinkNodeTail :: "'v lstore \<Rightarrow> 'v adlist \<Rightarrow> nat \<Rightarrow> ('v lstore \<times> 'v adlist) option" where
  "listLinkNodeTail s l node =
     (if l_len l = 0 then
        do { s \<leftarrow> modify s (Some node) (\<lambda>n. n\<lparr>n_prev := None, n_next := None\<rparr>);
             Some (s, l\<lparr>l_head := Some node, l_tail := Some node, l_len := l_len l + 1\<rparr>) }
      else
        do { s \<leftarrow> modify s (Some node) (\<lambda>n. n\<lparr>n_prev := l_tail l, n_next := None\<rparr>);
             s \<leftarrow> modify s (l_tail l) (\<lambda>n. n\<lparr>n_next := Some node\<rparr>);
             Some (s, l\<lparr>l_tail := Some node, l_len := l_len l + 1\<rparr>) })"

definition listAddNodeTail ::
  "'v lstore \<Rightarrow> 'v adlist \<Rightarrow> 'v mem \<Rightarrow> 'v \<Rightarrow> ('v lstore \<times> 'v adlist \<times> bool) option" where
  "listAddNodeTail s l mem v = (case mem of None \<Rightarrow> Some (s, l, False)
     | Some (a, junk) \<Rightarrow>
         do { s \<leftarrow> zmalloc_node s a junk;
              s \<leftarrow> modify s (Some a) (\<lambda>n. n\<lparr>n_value := v\<rparr>);
              (s, l) \<leftarrow> listLinkNodeTail s l a;
              Some (s, l, True) })"

definition listInsertNode ::
  "'v lstore \<Rightarrow> 'v adlist \<Rightarrow> 'v mem \<Rightarrow> nat \<Rightarrow> 'v \<Rightarrow> bool \<Rightarrow> ('v lstore \<times> 'v adlist \<times> bool) option" where
  "listInsertNode s l mem old_node v after = (case mem of None \<Rightarrow> Some (s, l, False)
     | Some (node, junk) \<Rightarrow>
         do { s \<leftarrow> zmalloc_node s node junk;
              s \<leftarrow> modify s (Some node) (\<lambda>n. n\<lparr>n_value := v\<rparr>);
              old \<leftarrow> deref s (Some old_node);
              (s, l) \<leftarrow> (if after then
                 do { s \<leftarrow> modify s (Some node) (\<lambda>n. n\<lparr>n_prev := Some old_node, n_next := n_next old\<rparr>);
                      Some (s, if l_tail l = Some old_node then l\<lparr>l_tail := Some node\<rparr> else l) }
               else
                 do { s \<leftarrow> modify s (Some node) (\<lambda>n. n\<lparr>n_next := Some old_node, n_prev := n_prev old\<rparr>);
                      Some (s, if l_head l = Some old_node then l\<lparr>l_head := Some node\<rparr> else l) });
              nd \<leftarrow> deref s (Some node);
              s \<leftarrow> (if n_prev nd \<noteq> None then modify s (n_prev nd) (\<lambda>n. n\<lparr>n_next := Some node\<rparr>) else Some s);
              nd \<leftarrow> deref s (Some node);
              s \<leftarrow> (if n_next nd \<noteq> None then modify s (n_next nd) (\<lambda>n. n\<lparr>n_prev := Some node\<rparr>) else Some s);
              Some (s, l\<lparr>l_len := l_len l + 1\<rparr>, True) })"

definition listUnlinkNode :: "'v lstore \<Rightarrow> 'v adlist \<Rightarrow> nat \<Rightarrow> ('v lstore \<times> 'v adlist) option" where
  "listUnlinkNode s l node =
     do { nd \<leftarrow> deref s (Some node);
          (s, l) \<leftarrow> (if n_prev nd \<noteq> None
             then do { s \<leftarrow> modify s (n_prev nd) (\<lambda>n. n\<lparr>n_next := n_next nd\<rparr>); Some (s, l) }
             else Some (s, l\<lparr>l_head := n_next nd\<rparr>));
          nd \<leftarrow> deref s (Some node);
          (s, l) \<leftarrow> (if n_next nd \<noteq> None
             then do { s \<leftarrow> modify s (n_next nd) (\<lambda>n. n\<lparr>n_prev := n_prev nd\<rparr>); Some (s, l) }
             else Some (s, l\<lparr>l_tail := n_prev nd\<rparr>));
          s \<leftarrow> modify s (Some node) (\<lambda>n. n\<lparr>n_next := None, n_prev := None\<rparr>);
          Some (s, l\<lparr>l_len := l_len l - 1\<rparr>) }"

definition listDelNode :: "'v lstore \<Rightarrow> 'v adlist \<Rightarrow> nat \<Rightarrow> ('v lstore \<times> 'v adlist) option" where
  "listDelNode s l node =
     do { (s, l) \<leftarrow> listUnlinkNode s l node;
          nd \<leftarrow> deref s (Some node);
          Some (zfree_node (call_free l s (n_value nd)) (Some node), l) }"

definition listInitIterator :: "'v adlist \<Rightarrow> direction \<Rightarrow> listIter" where
  "listInitIterator l d =
     \<lparr>it_next = (if d = AL_START_HEAD then l_head l else l_tail l), it_direction = d\<rparr>"

definition listRewind :: "'v adlist \<Rightarrow> listIter" where
  "listRewind l = \<lparr>it_next = l_head l, it_direction = AL_START_HEAD\<rparr>"

definition listRewindTail :: "'v adlist \<Rightarrow> listIter" where
  "listRewindTail l = \<lparr>it_next = l_tail l, it_direction = AL_START_TAIL\<rparr>"

definition listNext :: "'v lstore \<Rightarrow> listIter \<Rightarrow> (ptr \<times> listIter) option" where
  "listNext s iter =
     (let current = it_next iter
      in if current \<noteq> None then
           do { nd \<leftarrow> deref s current;
                Some (current, iter\<lparr>it_next := (if it_direction iter = AL_START_HEAD then n_next nd else n_prev nd)\<rparr>) }
         else Some (current, iter))"

text \<open>The value of a copied node; \<open>None\<close> when the \<^verbatim>\<open>dup\<close> method fails.\<close>

definition dup_value :: "'v adlist \<Rightarrow> 'v \<Rightarrow> 'v option" where
  "dup_value l v = (case l_dup l of None \<Rightarrow> Some v | Some f \<Rightarrow> f v)"

text \<open>The \<open>k\<close>-th allocation of the copy loop is \<open>mems k\<close>. The result is the copy, or \<open>None\<close> for \<^verbatim>\<open>NULL\<close>.\<close>

partial_function (option) listDup_loop ::
  "(nat \<Rightarrow> 'v mem) \<Rightarrow> nat \<Rightarrow> 'v lstore \<Rightarrow> 'v adlist \<Rightarrow> listIter \<Rightarrow> ('v lstore \<times> 'v adlist option) option" where
  "listDup_loop mems k s copy iter =
     do { (node, iter) \<leftarrow> listNext s iter;
          (if node = None then Some (s, Some copy)
           else do {
             nd \<leftarrow> deref s node;
             (case dup_value copy (n_value nd) of
                None \<Rightarrow> do { s \<leftarrow> listRelease s (Some copy); Some (s, None) }
              | Some v \<Rightarrow>
                  do { (s, copy, ok) \<leftarrow> listAddNodeTail s copy (mems k) v;
                       (if ok then listDup_loop mems (k + 1) s copy iter
                        else do { s \<leftarrow> listRelease (call_free copy s v) (Some copy); Some (s, None) }) }) }) }"

definition listDup ::
  "bool \<Rightarrow> (nat \<Rightarrow> 'v mem) \<Rightarrow> 'v lstore \<Rightarrow> 'v adlist \<Rightarrow> ('v lstore \<times> 'v adlist option) option" where
  "listDup created mems s orig =
     (if \<not> created then Some (s, None)
      else listDup_loop mems 0 s
        (listCreate\<lparr>l_dup := l_dup orig, l_free := l_free orig, l_match := l_match orig\<rparr>) (listRewind orig))"

partial_function (option) listSearchKey_loop ::
  "'v lstore \<Rightarrow> 'v adlist \<Rightarrow> 'v \<Rightarrow> listIter \<Rightarrow> ptr option" where
  "listSearchKey_loop s l key iter =
     do { (node, iter) \<leftarrow> listNext s iter;
          (if node = None then Some None
           else do {
             nd \<leftarrow> deref s node;
             (if (case l_match l of Some m \<Rightarrow> m (n_value nd) key | None \<Rightarrow> key = n_value nd)
              then Some node
              else listSearchKey_loop s l key iter) }) }"

definition listSearchKey :: "'v lstore \<Rightarrow> 'v adlist \<Rightarrow> 'v \<Rightarrow> ptr option" where
  "listSearchKey s l key = listSearchKey_loop s l key (listRewind l)"

primrec listIndex_loop :: "('v listNode \<Rightarrow> ptr) \<Rightarrow> 'v lstore \<Rightarrow> nat \<Rightarrow> ptr \<Rightarrow> ptr option" where
  "listIndex_loop step s 0 n = Some n"
| "listIndex_loop step s (Suc i) n =
     (if n = None then Some n else do { nd \<leftarrow> deref s n; listIndex_loop step s i (step nd) })"

definition listIndex :: "'v lstore \<Rightarrow> 'v adlist \<Rightarrow> int \<Rightarrow> ptr option" where
  "listIndex s l index =
     (if index < 0 then listIndex_loop n_prev s (nat (- index - 1)) (l_tail l)
      else listIndex_loop n_next s (nat index) (l_head l))"

definition listRotateTailToHead :: "'v lstore \<Rightarrow> 'v adlist \<Rightarrow> ('v lstore \<times> 'v adlist) option" where
  "listRotateTailToHead s l =
     (if l_len l \<le> 1 then Some (s, l)
      else do {
        let tailp = l_tail l;
        nd \<leftarrow> deref s tailp;
        let l = l\<lparr>l_tail := n_prev nd\<rparr>;
        s \<leftarrow> modify s (l_tail l) (\<lambda>n. n\<lparr>n_next := None\<rparr>);
        s \<leftarrow> modify s (l_head l) (\<lambda>n. n\<lparr>n_prev := tailp\<rparr>);
        s \<leftarrow> modify s tailp (\<lambda>n. n\<lparr>n_prev := None, n_next := l_head l\<rparr>);
        Some (s, l\<lparr>l_head := tailp\<rparr>) })"

definition listRotateHeadToTail :: "'v lstore \<Rightarrow> 'v adlist \<Rightarrow> ('v lstore \<times> 'v adlist) option" where
  "listRotateHeadToTail s l =
     (if l_len l \<le> 1 then Some (s, l)
      else do {
        let headp = l_head l;
        nd \<leftarrow> deref s headp;
        let l = l\<lparr>l_head := n_next nd\<rparr>;
        s \<leftarrow> modify s (l_head l) (\<lambda>n. n\<lparr>n_prev := None\<rparr>);
        s \<leftarrow> modify s (l_tail l) (\<lambda>n. n\<lparr>n_next := headp\<rparr>);
        s \<leftarrow> modify s headp (\<lambda>n. n\<lparr>n_next := None, n_prev := l_tail l\<rparr>);
        Some (s, l\<lparr>l_tail := headp\<rparr>) })"

definition listJoin ::
  "'v lstore \<Rightarrow> 'v adlist \<Rightarrow> 'v adlist \<Rightarrow> ('v lstore \<times> 'v adlist \<times> 'v adlist) option" where
  "listJoin s l ot =
     (if l_len ot = 0 then Some (s, l, ot)
      else do {
        s \<leftarrow> modify s (l_head ot) (\<lambda>n. n\<lparr>n_prev := l_tail l\<rparr>);
        (s, l) \<leftarrow> (if l_tail l \<noteq> None
           then do { s \<leftarrow> modify s (l_tail l) (\<lambda>n. n\<lparr>n_next := l_head ot\<rparr>); Some (s, l) }
           else Some (s, l\<lparr>l_head := l_head ot\<rparr>));
        Some (s, l\<lparr>l_tail := l_tail ot, l_len := l_len l + l_len ot\<rparr>,
              ot\<lparr>l_head := None, l_tail := None, l_len := 0\<rparr>) })"

definition listInitNode :: "'v lstore \<Rightarrow> nat \<Rightarrow> 'v \<Rightarrow> 'v lstore option" where
  "listInitNode s node v = modify s (Some node) (\<lambda>n. n\<lparr>n_prev := None, n_next := None, n_value := v\<rparr>)"

section \<open>Representation\<close>

definition first_or :: "nat list \<Rightarrow> ptr \<Rightarrow> ptr" where
  "first_or ns q = (case ns of [] \<Rightarrow> q | a # _ \<Rightarrow> Some a)"

definition last_or :: "nat list \<Rightarrow> ptr \<Rightarrow> ptr" where
  "last_or ns p = (if ns = [] then p else Some (last ns))"

text \<open>The nodes at \<open>ns\<close> hold the values \<open>vs\<close> and are linked in both directions, from \<open>p\<close> before to \<open>q\<close> behind them.\<close>

fun chain :: "(nat \<Rightarrow> 'v listNode option) \<Rightarrow> ptr \<Rightarrow> nat list \<Rightarrow> 'v list \<Rightarrow> ptr \<Rightarrow> bool" where
  "chain h p [] [] q \<longleftrightarrow> True"
| "chain h p (a # ns) (v # vs) q \<longleftrightarrow>
     h a = Some \<lparr>n_prev = p, n_next = first_or ns q, n_value = v\<rparr> \<and> chain h (Some a) ns vs q"
| "chain h p _ _ q \<longleftrightarrow> False"

definition list_rep :: "'v lstore \<Rightarrow> 'v adlist \<Rightarrow> nat list \<Rightarrow> 'v list \<Rightarrow> bool" where
  "list_rep s l ns vs \<longleftrightarrow> distinct ns \<and> chain (nodes s) None ns vs None \<and> length ns < 2 ^ 64 \<and>
     l_head l = first_or ns None \<and> l_tail l = last_or ns None \<and> l_len l = of_nat (length ns)"

section \<open>Chains\<close>

named_theorems chain_simps

lemma first_or_simps [simp]: "first_or [] q = q" "first_or (a # ns) q = Some a"
  by (simp_all add: first_or_def)

lemma last_or_simps [simp]: "last_or [] p = p" "last_or (ns @ [a]) p = Some a" "last_or (a # ns) p = last_or ns (Some a)"
  by (simp_all add: last_or_def)

lemma first_or_append [simp]: "first_or (xs @ ys) q = first_or xs (first_or ys q)"
  by (cases xs) auto

lemma last_or_append [simp]: "last_or (xs @ ys) p = last_or ys (last_or xs p)"
  by (auto simp: last_or_def)

lemma chain_Nil [simp]: "chain h p [] vs q \<longleftrightarrow> vs = []"
  by (cases vs) auto

lemma chain_Nil2 [simp]: "chain h p ns [] q \<longleftrightarrow> ns = []"
  by (cases ns) auto

lemma chain_length: "chain h p ns vs q \<Longrightarrow> length vs = length ns"
  by (induction h p ns vs q rule: chain.induct) auto

lemma chain_append:
  "length vs1 = length xs \<Longrightarrow>
   chain h p (xs @ ys) (vs1 @ vs2) q \<longleftrightarrow> chain h p xs vs1 (first_or ys q) \<and> chain h (last_or xs p) ys vs2 q"
proof (induction xs arbitrary: vs1 p)
  case (Cons x xs)
  then show ?case by (cases vs1) auto
qed simp

lemma chain_cong: "\<forall>a \<in> set ns. h a = h' a \<Longrightarrow> chain h p ns vs q \<longleftrightarrow> chain h' p ns vs q"
  by (induction h p ns vs q rule: chain.induct) auto

lemma chain_frame [chain_simps]: "a \<notin> set ns \<Longrightarrow> chain (h(a := x)) p ns vs q \<longleftrightarrow> chain h p ns vs q"
  by (rule chain_cong) auto

lemma chain_present: "chain h p ns vs q \<Longrightarrow> a \<in> set ns \<Longrightarrow> \<exists>nd. h a = Some nd"
  by (induction h p ns vs q rule: chain.induct) auto

lemma chain_split: "chain h p (xs @ ys) vs q \<Longrightarrow>
  \<exists>vs1 vs2. vs = vs1 @ vs2 \<and> length vs1 = length xs \<and> chain h p xs vs1 (first_or ys q) \<and> chain h (last_or xs p) ys vs2 q"
proof -
  assume c: "chain h p (xs @ ys) vs q"
  then have "length vs = length xs + length ys" using chain_length by fastforce
  then show ?thesis using c chain_append [of "take (length xs) vs" xs h p ys "drop (length xs) vs" q]
    by (intro exI [of _ "take (length xs) vs"] exI [of _ "drop (length xs) vs"]) simp
qed

text \<open>Storing one link field.\<close>

definition set_next :: "(nat \<Rightarrow> 'v listNode option) \<Rightarrow> ptr \<Rightarrow> ptr \<Rightarrow> nat \<Rightarrow> 'v listNode option" where
  "set_next h p q = (case p of None \<Rightarrow> h | Some a \<Rightarrow> h(a := map_option (n_next_update (\<lambda>_. q)) (h a)))"

definition set_prev :: "(nat \<Rightarrow> 'v listNode option) \<Rightarrow> ptr \<Rightarrow> ptr \<Rightarrow> nat \<Rightarrow> 'v listNode option" where
  "set_prev h p q = (case p of None \<Rightarrow> h | Some a \<Rightarrow> h(a := map_option (n_prev_update (\<lambda>_. q)) (h a)))"

lemma set_other [simp]: "p \<noteq> Some a \<Longrightarrow> set_next h p q a = h a" "p \<noteq> Some a \<Longrightarrow> set_prev h p q a = h a"
  by (auto simp: set_next_def set_prev_def split: option.splits)

lemma set_None [simp]: "set_next h None q = h" "set_prev h None q = h"
  by (auto simp: set_next_def set_prev_def)

lemma set_same [simp]: "set_next h (Some a) q a = map_option (n_next_update (\<lambda>_. q)) (h a)"
  "set_prev h (Some a) q a = map_option (n_prev_update (\<lambda>_. q)) (h a)"
  by (auto simp: set_next_def set_prev_def)

lemma ends_in [simp]: "b \<notin> set ns \<Longrightarrow> first_or ns None \<noteq> Some b" "b \<notin> set ns \<Longrightarrow> last_or ns None \<noteq> Some b"
  by (cases ns; auto simp: last_or_def)+

lemma chain_set_next: "distinct xs \<Longrightarrow> chain h p xs vs q \<Longrightarrow> chain (set_next h (last_or xs None) q') p xs vs q'"
proof (induction xs arbitrary: p vs)
  case (Cons a xs)
  then obtain v vs' where vs: "vs = v # vs'" by (cases vs) auto
  show ?case
  proof (cases "xs = []")
    case False
    then have "last_or xs (Some a) = last_or xs None" "last_or xs None \<noteq> Some a"
      using Cons.prems by (auto simp: last_or_def)
    moreover have "first_or xs q' = first_or xs q" using False by (cases xs) auto
    ultimately show ?thesis using Cons vs by auto
  qed (use Cons vs in auto)
qed simp

lemma chain_set_prev: "distinct ys \<Longrightarrow> chain h p ys vs q \<Longrightarrow> chain (set_prev h (first_or ys None) p') p' ys vs q"
proof (cases ys)
  case (Cons a xs)
  assume "distinct ys" "chain h p ys vs q"
  then show ?thesis using Cons by (cases vs) (auto simp: set_prev_def chain_simps)
qed simp

lemma chain_next_other [chain_simps]:
  "set xs \<inter> set ns = {} \<Longrightarrow> chain (set_next h (last_or xs None) q') p ns vs q \<longleftrightarrow> chain h p ns vs q"
  by (rule chain_cong) (metis ends_in(2) set_other(1) disjoint_iff)

lemma chain_prev_other [chain_simps]:
  "set xs \<inter> set ns = {} \<Longrightarrow> chain (set_prev h (first_or xs None) q') p ns vs q \<longleftrightarrow> chain h p ns vs q"
  by (rule chain_cong) (metis ends_in(1) set_other(2) disjoint_iff)

text \<open>Two chains become one by storing the two links between them, and a node is placed between two chains.\<close>

lemma chain_connect:
  assumes "chain h p xs vs1 q1" "chain h p2 ys vs2 q" "distinct (xs @ ys)"
  shows "chain (set_prev (set_next h (last_or xs None) (first_or ys q)) (first_or ys None) (last_or xs p)) p (xs @ ys) (vs1 @ vs2) q"
proof -
  let ?h = "set_next h (last_or xs None) (first_or ys q)"
  have "chain ?h p xs vs1 (first_or ys q)" using assms by (intro chain_set_next) auto
  then have "chain (set_prev ?h (first_or ys None) (last_or xs p)) p xs vs1 (first_or ys q)"
    using assms(3) by (subst chain_prev_other [of ys]) auto
  moreover have "chain ?h p2 ys vs2 q" using assms by (subst chain_next_other [of xs]) auto
  then have "chain (set_prev ?h (first_or ys None) (last_or xs p)) (last_or xs p) ys vs2 q"
    using assms(3) by (intro chain_set_prev) auto
  ultimately show ?thesis using chain_length [OF assms(1)] by (simp add: chain_append)
qed

lemma chain_insert:
  assumes "chain h p xs vs1 q1" "chain h p2 ys vs2 q" "distinct (xs @ a # ys)"
    and a: "h a = Some \<lparr>n_prev = last_or xs p, n_next = first_or ys q, n_value = v\<rparr>"
  shows "chain (set_prev (set_next h (last_or xs None) (Some a)) (first_or ys None) (Some a)) p (xs @ a # ys) (vs1 @ v # vs2) q"
proof -
  let ?h = "set_next h (last_or xs None) (Some a)"
  let ?h' = "set_prev ?h (first_or ys None) (Some a)"
  have "chain ?h p xs vs1 (Some a)" using assms by (intro chain_set_next) auto
  then have "chain ?h' p xs vs1 (Some a)"
    using assms(3) by (subst chain_prev_other [of ys]) auto
  moreover have "chain ?h p2 ys vs2 q" using assms by (subst chain_next_other [of xs]) auto
  then have "chain ?h' (Some a) ys vs2 q"
    using assms(3) by (intro chain_set_prev) auto
  moreover have "last_or xs None \<noteq> Some a" "first_or ys None \<noteq> Some a"
    using assms(3) by auto
  ultimately show ?thesis using chain_length [OF assms(1)] a by (simp add: chain_append)
qed

section \<open>Operations on represented lists\<close>

definition frame :: "'v lstore \<Rightarrow> 'v lstore \<Rightarrow> nat set \<Rightarrow> bool" where
  "frame s s' X \<longleftrightarrow> (\<forall>b. b \<notin> X \<longrightarrow> nodes s' b = nodes s b) \<and> freed s' = freed s"

definition same_methods :: "'v adlist \<Rightarrow> 'v adlist \<Rightarrow> bool" where
  "same_methods l l' \<longleftrightarrow> l_dup l' = l_dup l \<and> l_free l' = l_free l \<and> l_match l' = l_match l"

lemma modify_next: "deref s p \<noteq> None \<Longrightarrow> modify s p (\<lambda>n. n\<lparr>n_next := q\<rparr>) = Some (s\<lparr>nodes := set_next (nodes s) p q\<rparr>)"
  by (auto simp: modify_def deref_def set_next_def split: option.splits intro!: arg_cong2 [where f = nodes_update])

lemma modify_prev: "deref s p \<noteq> None \<Longrightarrow> modify s p (\<lambda>n. n\<lparr>n_prev := q\<rparr>) = Some (s\<lparr>nodes := set_prev (nodes s) p q\<rparr>)"
  by (auto simp: modify_def deref_def set_prev_def split: option.splits intro!: arg_cong2 [where f = nodes_update])

lemma modify_some: "nodes s a = Some nd \<Longrightarrow> modify s (Some a) f = Some (s\<lparr>nodes := (nodes s)(a \<mapsto> f nd)\<rparr>)"
  by (simp add: modify_def)

lemma deref_simps [simp]: "deref s None = None" "deref s (Some a) = nodes s a"
  by (simp_all add: deref_def)

lemma list_rep_len0: "list_rep s l ns vs \<Longrightarrow> l_len l = 0 \<longleftrightarrow> ns = []"
proof -
  assume r: "list_rep s l ns vs"
  then have "unat (l_len l) = length ns" by (simp add: list_rep_def unat_of_nat)
  then show ?thesis by (metis length_0_conv unat_eq_zero)
qed

lemma list_rep_length: "list_rep s l ns vs \<Longrightarrow> length vs = length ns"
  by (auto simp: list_rep_def dest: chain_length)

lemma list_rep_deref:
  assumes "list_rep s l ns vs" "ns \<noteq> []"
  shows "deref s (l_head l) \<noteq> None" "deref s (l_tail l) \<noteq> None"
  using assms chain_present [of "nodes s" None ns vs None]
  by (auto simp: list_rep_def last_or_def neq_Nil_conv)

lemma listLinkNodeHead_rep:
  assumes rep: "list_rep s l ns vs" and a: "nodes s a = Some nd" "a \<notin> set ns" and room: "length ns + 1 < 2 ^ 64"
  shows "\<exists>s' l'. listLinkNodeHead s l a = Some (s', l') \<and> list_rep s' l' (a # ns) (n_value nd # vs)
    \<and> frame s s' (set (a # ns)) \<and> same_methods l l'"
proof -
  let ?h = "(nodes s)(a \<mapsto> nd\<lparr>n_prev := None, n_next := first_or ns None\<rparr>)"
  let ?s = "s\<lparr>nodes := set_prev ?h (first_or ns None) (Some a)\<rparr>"
  let ?l = "l\<lparr>l_head := Some a, l_tail := last_or (a # ns) None, l_len := l_len l + 1\<rparr>"
  have c: "chain (nodes s) None ns vs None" "distinct ns" using rep by (auto simp: list_rep_def)
  have "chain ?h None ns vs None" using c a by (simp add: chain_simps)
  then have "chain (set_prev ?h (first_or ns None) (Some a)) None (a # ns) (n_value nd # vs) None"
    using chain_insert [of ?h None "[]" "[]" None None ns vs None a "n_value nd"] c a by simp
  then have "list_rep ?s ?l (a # ns) (n_value nd # vs)"
    using rep a room by (simp add: list_rep_def)
  moreover have "listLinkNodeHead s l a = Some (?s, ?l)"
  proof (cases "ns = []")
    case True
    then show ?thesis using rep a list_rep_len0 [OF rep] by (simp add: listLinkNodeHead_def modify_some)
  next
    case False
    then have "deref (s\<lparr>nodes := ?h\<rparr>) (l_head l) \<noteq> None" using list_rep_deref(1) [OF rep False]
      by (cases "l_head l") auto
    moreover have "last_or (a # ns) None = l_tail l" using False rep by (simp add: list_rep_def last_or_def)
    ultimately show ?thesis
      using rep a False list_rep_len0 [OF rep] by (simp add: listLinkNodeHead_def modify_some modify_prev list_rep_def)
  qed
  moreover have "frame s ?s (set (a # ns))" by (auto simp: frame_def)
  ultimately show ?thesis by (auto simp: same_methods_def)
qed

lemma listLinkNodeTail_rep:
  assumes rep: "list_rep s l ns vs" and a: "nodes s a = Some nd" "a \<notin> set ns" and room: "length ns + 1 < 2 ^ 64"
  shows "\<exists>s' l'. listLinkNodeTail s l a = Some (s', l') \<and> list_rep s' l' (ns @ [a]) (vs @ [n_value nd])
    \<and> frame s s' (set (a # ns)) \<and> same_methods l l'"
proof -
  let ?h = "(nodes s)(a \<mapsto> nd\<lparr>n_prev := last_or ns None, n_next := None\<rparr>)"
  let ?s = "s\<lparr>nodes := set_next ?h (last_or ns None) (Some a)\<rparr>"
  let ?l = "l\<lparr>l_head := first_or (ns @ [a]) None, l_tail := Some a, l_len := l_len l + 1\<rparr>"
  have c: "chain (nodes s) None ns vs None" "distinct ns" using rep by (auto simp: list_rep_def)
  have "chain ?h None ns vs None" using c a by (simp add: chain_simps)
  then have "chain (set_next ?h (last_or ns None) (Some a)) None (ns @ [a]) (vs @ [n_value nd]) None"
    using chain_insert [of ?h None ns vs None None "[]" "[]" None a "n_value nd"] c a by simp
  then have "list_rep ?s ?l (ns @ [a]) (vs @ [n_value nd])"
    using rep a room by (simp add: list_rep_def)
  moreover have "listLinkNodeTail s l a = Some (?s, ?l)"
  proof (cases "ns = []")
    case True
    then show ?thesis using rep a list_rep_len0 [OF rep] by (simp add: listLinkNodeTail_def modify_some)
  next
    case False
    then have "deref (s\<lparr>nodes := ?h\<rparr>) (l_tail l) \<noteq> None" using list_rep_deref(2) [OF rep False]
      by (cases "l_tail l") auto
    moreover have "first_or (ns @ [a]) None = l_head l" using False rep by (cases ns) (auto simp: list_rep_def)
    ultimately show ?thesis
      using rep a False list_rep_len0 [OF rep] by (simp add: listLinkNodeTail_def modify_some modify_next list_rep_def)
  qed
  moreover have "frame s ?s (set (a # ns))" by (auto simp: frame_def)
  ultimately show ?thesis by (auto simp: same_methods_def)
qed

lemma rep_fresh: "list_rep s l ns vs \<Longrightarrow> nodes s a = None \<Longrightarrow> a \<notin> set ns"
  by (auto simp: list_rep_def dest: chain_present)

lemma rep_other: "list_rep s l ns vs \<Longrightarrow> a \<notin> set ns \<Longrightarrow> list_rep (s\<lparr>nodes := (nodes s)(a := x)\<rparr>) l ns vs"
  by (simp add: list_rep_def chain_simps)

lemma frame_trans: "frame s s1 X \<Longrightarrow> frame s1 s2 Y \<Longrightarrow> X \<subseteq> Z \<Longrightarrow> Y \<subseteq> Z \<Longrightarrow> frame s s2 Z"
  unfolding frame_def by (metis subsetD)

lemma listAddNodeHead_rep:
  assumes rep: "list_rep s l ns vs" and a: "nodes s a = None" and room: "length ns + 1 < 2 ^ 64"
  shows "\<exists>s' l'. listAddNodeHead s l (Some (a, junk)) v = Some (s', l', True) \<and> list_rep s' l' (a # ns) (v # vs)
    \<and> frame s s' (set (a # ns)) \<and> same_methods l l'"
proof -
  let ?s = "s\<lparr>nodes := (nodes s)(a \<mapsto> junk\<lparr>n_value := v\<rparr>)\<rparr>"
  have "list_rep ?s l ns vs" "a \<notin> set ns" using rep a by (auto intro: rep_other dest: rep_fresh)
  then obtain s' l' where "listLinkNodeHead ?s l a = Some (s', l')" "list_rep s' l' (a # ns) (v # vs)"
    "frame ?s s' (set (a # ns))" "same_methods l l'"
    using listLinkNodeHead_rep [of ?s l ns vs a "junk\<lparr>n_value := v\<rparr>"] room by auto
  then show ?thesis using a by (auto simp: listAddNodeHead_def zmalloc_node_def modify_some frame_def)
qed

lemma listAddNodeTail_rep:
  assumes rep: "list_rep s l ns vs" and a: "nodes s a = None" and room: "length ns + 1 < 2 ^ 64"
  shows "\<exists>s' l'. listAddNodeTail s l (Some (a, junk)) v = Some (s', l', True) \<and> list_rep s' l' (ns @ [a]) (vs @ [v])
    \<and> frame s s' (set (a # ns)) \<and> same_methods l l'"
proof -
  let ?s = "s\<lparr>nodes := (nodes s)(a \<mapsto> junk\<lparr>n_value := v\<rparr>)\<rparr>"
  have "list_rep ?s l ns vs" "a \<notin> set ns" using rep a by (auto intro: rep_other dest: rep_fresh)
  then obtain s' l' where "listLinkNodeTail ?s l a = Some (s', l')" "list_rep s' l' (ns @ [a]) (vs @ [v])"
    "frame ?s s' (set (a # ns))" "same_methods l l'"
    using listLinkNodeTail_rep [of ?s l ns vs a "junk\<lparr>n_value := v\<rparr>"] room by auto
  then show ?thesis using a by (auto simp: listAddNodeTail_def zmalloc_node_def modify_some frame_def)
qed

text \<open>A represented list cut at one of its nodes.\<close>

lemma rep_at:
  assumes "list_rep s l (xs @ a # ys) vs"
  obtains v vs1 vs2 where "vs = vs1 @ v # vs2" "length vs1 = length xs"
    "nodes s a = Some \<lparr>n_prev = last_or xs None, n_next = first_or ys None, n_value = v\<rparr>"
    "chain (nodes s) None xs vs1 (Some a)" "chain (nodes s) (Some a) ys vs2 None"
    "a \<notin> set xs" "a \<notin> set ys" "set xs \<inter> set ys = {}" "distinct xs" "distinct ys"
proof -
  have c: "chain (nodes s) None (xs @ a # ys) vs None" "distinct (xs @ a # ys)" using assms by (auto simp: list_rep_def)
  obtain vs1 vs2 where vs: "vs = vs1 @ vs2" "length vs1 = length xs" "chain (nodes s) None xs vs1 (Some a)"
    "chain (nodes s) (last_or xs None) (a # ys) vs2 None"
    using chain_split [OF c(1)] by auto
  then obtain v vs3 where "vs2 = v # vs3" by (cases vs2) auto
  then show ?thesis using that vs c(2) by auto
qed

lemma ends_present:
  "chain h p xs vs q \<Longrightarrow> xs \<noteq> [] \<Longrightarrow> \<exists>nd. h (last xs) = Some nd"
  "chain h p xs vs q \<Longrightarrow> xs \<noteq> [] \<Longrightarrow> \<exists>nd. h (hd xs) = Some nd"
  using chain_present [of h p xs vs q] by auto

lemma node_full:
  "(junk :: 'v listNode)\<lparr>n_value := v, n_prev := p, n_next := q\<rparr> = \<lparr>n_prev = p, n_next = q, n_value = v\<rparr>"
  "(junk :: 'v listNode)\<lparr>n_value := v, n_next := q, n_prev := p\<rparr> = \<lparr>n_prev = p, n_next = q, n_value = v\<rparr>"
  by (cases junk, simp)+

lemma listInsertNode_after_rep:
  assumes rep: "list_rep s l (xs @ z # ys) (vs1 @ w # vs2)" and len: "length vs1 = length xs"
    and a: "nodes s a = None" and room: "length (xs @ z # ys) + 1 < 2 ^ 64"
  shows "\<exists>s' l'. listInsertNode s l (Some (a, junk)) z v True = Some (s', l', True)
    \<and> list_rep s' l' (xs @ z # a # ys) (vs1 @ w # v # vs2)
    \<and> frame s s' (insert a (set (xs @ z # ys))) \<and> same_methods l l'"
proof -
  have az: "a \<notin> set (xs @ z # ys)" using rep_fresh [OF rep a] .
  obtain v' vs1' vs2' where r: "vs1 @ w # vs2 = vs1' @ v' # vs2'" "length vs1' = length xs"
    "nodes s z = Some \<lparr>n_prev = last_or xs None, n_next = first_or ys None, n_value = v'\<rparr>"
    "chain (nodes s) None xs vs1' (Some z)" "chain (nodes s) (Some z) ys vs2' None"
    and d: "z \<notin> set xs" "z \<notin> set ys" "set xs \<inter> set ys = {}" "distinct xs" "distinct ys"
    by (rule rep_at [OF rep])
  have eq: "vs1' = vs1" "v' = w" "vs2' = vs2" using r(1,2) len by auto
  let ?h = "(nodes s)(a \<mapsto> \<lparr>n_prev = Some z, n_next = first_or ys None, n_value = v\<rparr>)"
  let ?h' = "set_prev (set_next ?h (Some z) (Some a)) (first_or ys None) (Some a)"
  have "chain ?h' None ((xs @ [z]) @ a # ys) ((vs1 @ [w]) @ v # vs2) None"
    using chain_insert [of ?h None "xs @ [z]" "vs1 @ [w]" "first_or ys None" "Some z" ys vs2 None a v] r d az eq
    by (simp add: chain_append chain_simps)
  moreover have "listInsertNode s l (Some (a, junk)) z v True =
     Some (s\<lparr>nodes := ?h'\<rparr>, (if ys = [] then l\<lparr>l_tail := Some a\<rparr> else l)\<lparr>l_len := l_len l + 1\<rparr>, True)"
  proof -
    have tail: "l_tail l = Some z \<longleftrightarrow> ys = []" using rep d(2) by (auto simp: list_rep_def last_or_def)
    show ?thesis
    proof (cases ys)
      case Nil
      then show ?thesis using a az r(3) tail
        by (simp add: listInsertNode_def node_full zmalloc_node_def modify_some modify_next)
    next
      case (Cons y ys')
      then obtain nd where "nodes s y = Some nd" "y \<noteq> z" "y \<noteq> a"
        using chain_present [OF r(5), of y] d az by auto
      then show ?thesis using a az r(3) tail Cons
        by (simp add: listInsertNode_def node_full zmalloc_node_def modify_some modify_next modify_prev)
    qed
  qed
  moreover have "frame s (s\<lparr>nodes := ?h'\<rparr>) (insert a (set (xs @ z # ys)))" by (auto simp: frame_def)
  moreover have "last_or ys (Some a) = (if ys = [] then Some a else l_tail l)"
    using rep by (auto simp: list_rep_def last_or_def)
  ultimately show ?thesis using rep az room by (auto simp: list_rep_def same_methods_def)
qed

lemma listInsertNode_before_rep:
  assumes rep: "list_rep s l (xs @ z # ys) (vs1 @ w # vs2)" and len: "length vs1 = length xs"
    and a: "nodes s a = None" and room: "length (xs @ z # ys) + 1 < 2 ^ 64"
  shows "\<exists>s' l'. listInsertNode s l (Some (a, junk)) z v False = Some (s', l', True)
    \<and> list_rep s' l' (xs @ a # z # ys) (vs1 @ v # w # vs2)
    \<and> frame s s' (insert a (set (xs @ z # ys))) \<and> same_methods l l'"
proof -
  have az: "a \<notin> set (xs @ z # ys)" using rep_fresh [OF rep a] .
  obtain v' vs1' vs2' where r: "vs1 @ w # vs2 = vs1' @ v' # vs2'" "length vs1' = length xs"
    "nodes s z = Some \<lparr>n_prev = last_or xs None, n_next = first_or ys None, n_value = v'\<rparr>"
    "chain (nodes s) None xs vs1' (Some z)" "chain (nodes s) (Some z) ys vs2' None"
    and d: "z \<notin> set xs" "z \<notin> set ys" "set xs \<inter> set ys = {}" "distinct xs" "distinct ys"
    by (rule rep_at [OF rep])
  have eq: "vs1' = vs1" "v' = w" "vs2' = vs2" using r(1,2) len by auto
  let ?h = "(nodes s)(a \<mapsto> \<lparr>n_prev = last_or xs None, n_next = Some z, n_value = v\<rparr>)"
  let ?h' = "set_prev (set_next ?h (last_or xs None) (Some a)) (Some z) (Some a)"
  have "chain ?h' None (xs @ a # (z # ys)) (vs1 @ v # (w # vs2)) None"
    using chain_insert [of ?h None xs vs1 "Some z" "last_or xs None" "z # ys" "w # vs2" None a v] r d az eq
    by (simp add: chain_simps)
  moreover have "listInsertNode s l (Some (a, junk)) z v False =
     Some (s\<lparr>nodes := ?h'\<rparr>, (if xs = [] then l\<lparr>l_head := Some a\<rparr> else l)\<lparr>l_len := l_len l + 1\<rparr>, True)"
  proof -
    have head: "l_head l = Some z \<longleftrightarrow> xs = []" using rep d(1) by (cases xs) (auto simp: list_rep_def)
    show ?thesis
    proof (cases xs rule: rev_cases)
      case Nil
      then show ?thesis using a az r(3) head
        by (simp add: listInsertNode_def node_full zmalloc_node_def modify_some modify_prev)
    next
      case (snoc xs' y)
      then obtain nd where "nodes s y = Some nd" "y \<noteq> z" "y \<noteq> a"
        using chain_present [OF r(4), of y] d az by auto
      then show ?thesis using a az r(3) head snoc
        by (simp add: listInsertNode_def node_full zmalloc_node_def modify_some modify_next modify_prev)
    qed
  qed
  moreover have "frame s (s\<lparr>nodes := ?h'\<rparr>) (insert a (set (xs @ z # ys)))" by (auto simp: frame_def)
  moreover have "first_or xs (Some a) = (if xs = [] then Some a else l_head l)"
    using rep by (cases xs) (auto simp: list_rep_def)
  ultimately show ?thesis using rep az room by (auto simp: list_rep_def same_methods_def)
qed

lemma set_upd:
  "p \<noteq> Some a \<Longrightarrow> (set_prev h p q)(a := x) = set_prev (h(a := x)) p q"
  "p \<noteq> Some a \<Longrightarrow> (set_next h p q)(a := x) = set_next (h(a := x)) p q"
  by (auto simp: set_prev_def set_next_def fun_upd_twist split: option.splits)

lemma listUnlinkNode_rep:
  assumes rep: "list_rep s l (xs @ a # ys) (vs1 @ v # vs2)" and len: "length vs1 = length xs"
  shows "\<exists>s' l'. listUnlinkNode s l a = Some (s', l') \<and> list_rep s' l' (xs @ ys) (vs1 @ vs2)
    \<and> nodes s' a = Some \<lparr>n_prev = None, n_next = None, n_value = v\<rparr>
    \<and> frame s s' (set (xs @ a # ys)) \<and> same_methods l l'"
proof -
  obtain v' vs1' vs2' where r: "vs1 @ v # vs2 = vs1' @ v' # vs2'" "length vs1' = length xs"
    "nodes s a = Some \<lparr>n_prev = last_or xs None, n_next = first_or ys None, n_value = v'\<rparr>"
    "chain (nodes s) None xs vs1' (Some a)" "chain (nodes s) (Some a) ys vs2' None"
    and d: "a \<notin> set xs" "a \<notin> set ys" "set xs \<inter> set ys = {}" "distinct xs" "distinct ys"
    by (rule rep_at [OF rep])
  have eq: "vs1' = vs1" "v' = v" "vs2' = vs2" using r(1,2) len by auto
  let ?h = "set_prev (set_next (nodes s) (last_or xs None) (first_or ys None)) (first_or ys None) (last_or xs None)"
  let ?h' = "?h(a \<mapsto> \<lparr>n_prev = None, n_next = None, n_value = v\<rparr>)"
  let ?l = "l\<lparr>l_head := first_or (xs @ ys) None, l_tail := last_or (xs @ ys) None, l_len := l_len l - 1\<rparr>"
  have "chain ?h None (xs @ ys) (vs1 @ vs2) None"
    using chain_connect [of "nodes s" None xs vs1 "Some a" "Some a" ys vs2 None] r d eq by simp
  then have "list_rep (s\<lparr>nodes := ?h'\<rparr>) ?l (xs @ ys) (vs1 @ vs2)"
    using rep d by (simp add: list_rep_def chain_simps)
  moreover have "listUnlinkNode s l a = Some (s\<lparr>nodes := ?h'\<rparr>, ?l)"
  proof -
    have ends: "l_head l = first_or xs (Some a)" "l_tail l = last_or ys (Some a)"
      using rep by (auto simp: list_rep_def)
    have px: "xs = xs' @ [x] \<Longrightarrow> (\<exists>nd. nodes s x = Some nd) \<and> x \<noteq> a" for xs' x
      using chain_present [OF r(4), of x] d by auto
    have py: "ys = y # ys' \<Longrightarrow> (\<exists>nd. nodes s y = Some nd) \<and> y \<noteq> a" for ys' y
      using chain_present [OF r(5), of y] d by auto
    show ?thesis
    proof (cases xs rule: rev_cases; cases ys)
      assume e: "xs = []" "ys = []"
      then show ?thesis using r(3) eq by (simp add: listUnlinkNode_def modify_some)
    next
      fix y ys' assume e: "xs = []" "ys = y # ys'"
      then have "last_or (xs @ ys) None = l_tail l" using ends by (simp add: last_or_def)
      then show ?thesis using e r(3) eq py [OF e(2)] by (auto simp: listUnlinkNode_def modify_some modify_prev)
    next
      fix xs' x assume e: "xs = xs' @ [x]" "ys = []"
      then have "first_or (xs @ ys) None = l_head l" using ends by (cases xs') auto
      then show ?thesis using e r(3) eq px [OF e(1)] by (auto simp: listUnlinkNode_def modify_some modify_next)
    next
      fix xs' x y ys' assume e: "xs = xs' @ [x]" "ys = y # ys'"
      then have "first_or (xs @ ys) None = l_head l" "last_or (xs @ ys) None = l_tail l"
        using ends by (cases xs', auto simp: last_or_def)
      moreover have "x \<noteq> y" using d(3) e by auto
      ultimately show ?thesis using e r(3) eq px [OF e(1)] py [OF e(2)]
        by (auto simp: listUnlinkNode_def modify_some modify_next modify_prev)
    qed
  qed
  moreover have "frame s (s\<lparr>nodes := ?h'\<rparr>) (set (xs @ a # ys))" by (auto simp: frame_def)
  ultimately show ?thesis by (auto simp: same_methods_def)
qed

lemma listDelNode_rep:
  assumes rep: "list_rep s l (xs @ a # ys) (vs1 @ v # vs2)" and len: "length vs1 = length xs"
  shows "\<exists>s' l'. listDelNode s l a = Some (s', l') \<and> list_rep s' l' (xs @ ys) (vs1 @ vs2) \<and> nodes s' a = None
    \<and> freed s' = freed s @ (if l_free l then [v] else []) \<and> same_methods l l'
    \<and> (\<forall>b. b \<notin> set (xs @ a # ys) \<longrightarrow> nodes s' b = nodes s b)"
proof -
  obtain s1 l1 where u: "listUnlinkNode s l a = Some (s1, l1)" "list_rep s1 l1 (xs @ ys) (vs1 @ vs2)"
    "nodes s1 a = Some \<lparr>n_prev = None, n_next = None, n_value = v\<rparr>"
    "frame s s1 (set (xs @ a # ys))" "same_methods l l1"
    using listUnlinkNode_rep [OF assms] by blast
  have "a \<notin> set (xs @ ys)" using rep by (auto simp: list_rep_def)
  with u(2) have "list_rep (zfree_node (call_free l1 s1 v) (Some a)) l1 (xs @ ys) (vs1 @ vs2)"
    by (auto simp: list_rep_def zfree_node_def call_free_def chain_simps)
  then show ?thesis using u
    by (auto simp: listDelNode_def zfree_node_def call_free_def same_methods_def frame_def)
qed

lemma list_rep_len1: "list_rep s l ns vs \<Longrightarrow> l_len l \<le> 1 \<longleftrightarrow> length ns \<le> 1"
  by (simp add: list_rep_def word_le_nat_alt unat_of_nat)

lemma listRotateTailToHead_rep:
  assumes rep: "list_rep s l (xs @ [a]) (vs1 @ [v])"
  shows "\<exists>s' l'. listRotateTailToHead s l = Some (s', l') \<and> list_rep s' l' (a # xs) (v # vs1)
    \<and> frame s s' (set (a # xs)) \<and> same_methods l l'"
proof (cases "xs = []")
  case True
  then show ?thesis using rep list_rep_len1 [OF rep] list_rep_length [OF rep]
    by (auto simp: listRotateTailToHead_def frame_def same_methods_def)
next
  case False
  obtain v' vs1' vs2' where r: "vs1 @ [v] = vs1' @ v' # vs2'" "length vs1' = length xs"
    "nodes s a = Some \<lparr>n_prev = last_or xs None, n_next = first_or [] None, n_value = v'\<rparr>"
    "chain (nodes s) None xs vs1' (Some a)" "chain (nodes s) (Some a) [] vs2' None"
    and d: "a \<notin> set xs" "distinct xs"
    by (rule rep_at [OF rep])
  have eq: "vs1' = vs1" "v' = v" using r(1,5) by auto
  let ?g = "set_next (nodes s) (last_or xs None) None"
  let ?k = "?g(a \<mapsto> \<lparr>n_prev = None, n_next = first_or xs None, n_value = v\<rparr>)"
  let ?h = "set_prev ?k (first_or xs None) (Some a)"
  have "chain ?k None xs vs1 None" using r d eq by (simp add: chain_simps chain_set_next)
  then have c: "chain ?h None (a # xs) (v # vs1) None"
    using chain_insert [of ?k None "[]" "[]" None None xs vs1 None a v] d by simp
  have l: "l_head l = first_or xs None" "l_tail l = Some a" using rep False by (cases xs; auto simp: list_rep_def)+
  have "listRotateTailToHead s l = Some (s\<lparr>nodes := ?h\<rparr>, l\<lparr>l_head := Some a, l_tail := last_or xs None\<rparr>)"
  proof -
    have p: "last_or xs None \<noteq> Some a" "first_or xs None \<noteq> Some a" "deref s (last_or xs None) \<noteq> None"
      using False chain_present [OF r(4)] d by (auto simp: last_or_def)
    have "deref (s\<lparr>nodes := ?g\<rparr>) (first_or xs None) \<noteq> None"
      using False chain_present [OF r(4)] by (cases xs) (auto simp: set_next_def split: option.splits)
    then have m2: "modify (s\<lparr>nodes := ?g\<rparr>) (first_or xs None) (\<lambda>n. n\<lparr>n_prev := Some a\<rparr>)
        = Some (s\<lparr>nodes := set_prev ?g (first_or xs None) (Some a)\<rparr>)"
      by (simp add: modify_prev)
    have m3: "modify (s\<lparr>nodes := set_prev ?g (first_or xs None) (Some a)\<rparr>) (Some a)
        (\<lambda>n. n\<lparr>n_prev := None, n_next := first_or xs None\<rparr>) = Some (s\<lparr>nodes := ?h\<rparr>)"
      using p r(3) eq by (simp add: modify_some set_upd)
    show ?thesis using False list_rep_len1 [OF rep] r(3) l modify_next [OF p(3), of None] m2 m3
      by (simp add: listRotateTailToHead_def Let_def)
  qed
  moreover have "list_rep (s\<lparr>nodes := ?h\<rparr>) (l\<lparr>l_head := Some a, l_tail := last_or xs None\<rparr>) (a # xs) (v # vs1)"
    unfolding list_rep_def using c rep d False by (simp add: list_rep_def last_or_def)
  moreover have "frame s (s\<lparr>nodes := ?h\<rparr>) (set (a # xs))" by (auto simp: frame_def)
  ultimately show ?thesis by (auto simp: same_methods_def)
qed

lemma listRotateHeadToTail_rep:
  assumes rep: "list_rep s l (a # ys) (v # vs2)"
  shows "\<exists>s' l'. listRotateHeadToTail s l = Some (s', l') \<and> list_rep s' l' (ys @ [a]) (vs2 @ [v])
    \<and> frame s s' (set (a # ys)) \<and> same_methods l l'"
proof (cases "ys = []")
  case True
  then show ?thesis using rep list_rep_len1 [OF rep] list_rep_length [OF rep]
    by (auto simp: listRotateHeadToTail_def frame_def same_methods_def)
next
  case False
  have r: "nodes s a = Some \<lparr>n_prev = None, n_next = first_or ys None, n_value = v\<rparr>"
    "chain (nodes s) (Some a) ys vs2 None" and d: "a \<notin> set ys" "distinct ys"
    using rep by (auto simp: list_rep_def)
  let ?g = "set_prev (nodes s) (first_or ys None) None"
  let ?k = "?g(a \<mapsto> \<lparr>n_prev = last_or ys None, n_next = None, n_value = v\<rparr>)"
  let ?h = "set_next ?k (last_or ys None) (Some a)"
  have "chain ?k None ys vs2 None" using r d by (simp add: chain_simps chain_set_prev)
  then have c: "chain ?h None (ys @ [a]) (vs2 @ [v]) None"
    using chain_insert [of ?k None ys vs2 None None "[]" "[]" None a v] d by simp
  have l: "l_head l = Some a" "l_tail l = last_or ys None" using rep False by (auto simp: list_rep_def last_or_def)
  have "listRotateHeadToTail s l = Some (s\<lparr>nodes := ?h\<rparr>, l\<lparr>l_head := first_or ys None, l_tail := Some a\<rparr>)"
  proof -
    have "deref s (first_or ys None) \<noteq> None" using False chain_present [OF r(2)] by (cases ys) auto
    with d have p: "last_or ys None \<noteq> Some a" "first_or ys None \<noteq> Some a" "deref s (first_or ys None) \<noteq> None"
      by simp_all
    have "deref (s\<lparr>nodes := ?g\<rparr>) (last_or ys None) \<noteq> None"
      using False chain_present [OF r(2)] by (auto simp: last_or_def set_prev_def split: option.splits)
    then have m2: "modify (s\<lparr>nodes := ?g\<rparr>) (last_or ys None) (\<lambda>n. n\<lparr>n_next := Some a\<rparr>)
        = Some (s\<lparr>nodes := set_next ?g (last_or ys None) (Some a)\<rparr>)"
      by (simp add: modify_next)
    have m3: "modify (s\<lparr>nodes := set_next ?g (last_or ys None) (Some a)\<rparr>) (Some a)
        (\<lambda>n. n\<lparr>n_next := None, n_prev := last_or ys None\<rparr>) = Some (s\<lparr>nodes := ?h\<rparr>)"
      using p r(1) by (simp add: modify_some set_upd)
    show ?thesis using False list_rep_len1 [OF rep] r(1) l modify_prev [OF p(3), of None] m2 m3
      by (simp add: listRotateHeadToTail_def Let_def)
  qed
  moreover have "list_rep (s\<lparr>nodes := ?h\<rparr>) (l\<lparr>l_head := first_or ys None, l_tail := Some a\<rparr>) (ys @ [a]) (vs2 @ [v])"
    unfolding list_rep_def using c rep d False by (cases ys) (auto simp: list_rep_def)
  moreover have "frame s (s\<lparr>nodes := ?h\<rparr>) (set (a # ys))" by (auto simp: frame_def)
  ultimately show ?thesis by (auto simp: same_methods_def)
qed

lemma set_comm: "set_next (set_prev h p q) p' q' = set_prev (set_next h p' q') p q"
proof
  fix b
  show "set_next (set_prev h p q) p' q' b = set_prev (set_next h p' q') p q b"
    by (cases "p = Some b"; cases "p' = Some b") (auto simp: option.map_comp comp_def intro: map_option_cong)
qed

lemma listJoin_rep:
  assumes l: "list_rep s l xs vs1" and ot: "list_rep s ot ys vs2" and disj: "set xs \<inter> set ys = {}"
    and room: "length xs + length ys < 2 ^ 64"
  shows "\<exists>s' l' o'. listJoin s l ot = Some (s', l', o') \<and> list_rep s' l' (xs @ ys) (vs1 @ vs2) \<and> list_rep s' o' [] []
    \<and> frame s s' (set (xs @ ys)) \<and> same_methods l l' \<and> same_methods ot o'"
proof (cases "ys = []")
  case True
  then show ?thesis using l ot list_rep_len0 [OF ot] list_rep_length [OF ot]
    by (auto simp: listJoin_def frame_def same_methods_def)
next
  case False
  let ?g = "set_prev (nodes s) (first_or ys None) (last_or xs None)"
  let ?h = "set_next ?g (last_or xs None) (first_or ys None)"
  let ?l = "l\<lparr>l_head := first_or (xs @ ys) None, l_tail := last_or ys None, l_len := l_len l + l_len ot\<rparr>"
  let ?o = "ot\<lparr>l_head := None, l_tail := None, l_len := 0\<rparr>"
  have c: "chain ?h None (xs @ ys) (vs1 @ vs2) None"
    using l ot disj chain_connect [of "nodes s" None xs vs1 None None ys vs2 None]
    by (simp add: set_comm list_rep_def)
  have p: "deref s (l_head ot) \<noteq> None" using list_rep_deref(1) [OF ot False] .
  have run: "listJoin s l ot = Some (s\<lparr>nodes := ?h\<rparr>, ?l, ?o)"
  proof (cases "xs = []")
    case True
    then show ?thesis using l ot False p list_rep_len0 [OF ot] by (simp add: listJoin_def modify_prev list_rep_def)
  next
    case xs: False
    have "deref (s\<lparr>nodes := ?g\<rparr>) (l_tail l) \<noteq> None"
      using list_rep_deref(2) [OF l xs] by (cases "l_tail l") (auto simp: set_prev_def split: option.splits)
    moreover have "l_head l = first_or (xs @ ys) None" "l_tail l \<noteq> None"
      using l xs by (cases xs; auto simp: list_rep_def last_or_def)+
    moreover have "l_tail l = last_or xs None" "l_head ot = first_or ys None" "l_tail ot = last_or ys None"
      using l ot by (auto simp: list_rep_def)
    ultimately show ?thesis using p False list_rep_len0 [OF ot]
      by (simp add: listJoin_def modify_prev modify_next)
  qed
  have "list_rep (s\<lparr>nodes := ?h\<rparr>) ?l (xs @ ys) (vs1 @ vs2)"
    using l ot c disj room False by (auto simp: list_rep_def last_or_def)
  moreover have "frame s (s\<lparr>nodes := ?h\<rparr>) (set (xs @ ys))" by (auto simp: frame_def)
  ultimately show ?thesis using run by (auto simp: same_methods_def list_rep_def)
qed

lemma listIndex_forward:
  "chain (nodes s) p ns vs None \<Longrightarrow>
   listIndex_loop n_next s k (first_or ns None) = Some (if k < length ns then Some (ns ! k) else None)"
proof (induction ns arbitrary: p vs k)
  case Nil
  then show ?case by (cases k) auto
next
  case (Cons a ns)
  then show ?case by (cases vs; cases k) auto
qed

lemma listIndex_backward:
  "chain (nodes s) None ns vs q \<Longrightarrow>
   listIndex_loop n_prev s k (last_or ns None) = Some (if k < length ns then Some (rev ns ! k) else None)"
proof (induction ns arbitrary: vs k q rule: rev_induct)
  case Nil
  then show ?case by (cases k) auto
next
  case (snoc a ns)
  obtain vs1 vs2 where c: "chain (nodes s) None ns vs1 (Some a)" "chain (nodes s) (last_or ns None) [a] vs2 q"
    using chain_split [OF snoc.prems] by auto
  then have "\<exists>v. nodes s a = Some \<lparr>n_prev = last_or ns None, n_next = q, n_value = v\<rparr>" by (cases vs2) auto
  with c(1) show ?case using snoc.IH by (cases k) auto
qed

lemma listIndex_rep:
  assumes "list_rep s l ns vs"
  shows "listIndex s l i = Some (if 0 \<le> i \<and> i < int (length ns) then Some (ns ! nat i)
    else if i < 0 \<and> - i \<le> int (length ns) then Some (ns ! nat (int (length ns) + i)) else None)"
proof (cases "i < 0")
  case True
  have "nat (- i - 1) < length ns \<longleftrightarrow> - i \<le> int (length ns)" using True by linarith
  moreover have "rev ns ! nat (- i - 1) = ns ! nat (int (length ns) + i)" if "- i \<le> int (length ns)"
    using that True by (subst rev_nth) (auto intro!: arg_cong [of _ _ "(!) ns"])
  ultimately show ?thesis using True assms listIndex_backward [of s ns vs None "nat (- i - 1)"]
    by (simp add: listIndex_def list_rep_def)
next
  case False
  then show ?thesis using assms listIndex_forward [of s None ns vs "nat i"]
    by (simp add: listIndex_def list_rep_def nat_less_iff)
qed

lemma listEmpty_loop_rep:
  "chain (nodes s) p ns vs None \<Longrightarrow> distinct ns \<Longrightarrow>
   listEmpty_loop l (length ns) s (first_or ns None) =
     Some (s\<lparr>nodes := (\<lambda>b. if b \<in> set ns then None else nodes s b),
             freed := freed s @ (if l_free l then vs else [])\<rparr>)"
proof (induction ns arbitrary: s p vs)
  case (Cons a ns)
  then obtain v vs' where vs: "vs = v # vs'" by (cases vs) auto
  let ?s = "zfree_node (call_free l s v) (Some a)"
  have "chain (nodes ?s) (Some a) ns vs' None"
    using Cons.prems vs by (simp add: zfree_node_def call_free_def chain_simps)
  then have "listEmpty_loop l (length ns) ?s (first_or ns None) =
     Some (?s\<lparr>nodes := (\<lambda>b. if b \<in> set ns then None else nodes ?s b),
             freed := freed ?s @ (if l_free l then vs' else [])\<rparr>)"
    using Cons.IH [of ?s "Some a" vs'] Cons.prems(2) by simp
  moreover have "(\<lambda>b. if b \<in> set ns then None else nodes ?s b) = (\<lambda>b. if b \<in> set (a # ns) then None else nodes s b)"
    by (auto simp: zfree_node_def call_free_def)
  moreover have "freed ?s @ (if l_free l then vs' else []) = freed s @ (if l_free l then vs else [])"
    using vs by (simp add: zfree_node_def call_free_def)
  moreover have "?s\<lparr>nodes := f, freed := g\<rparr> = s\<lparr>nodes := f, freed := g\<rparr>" for f g
    by (simp add: zfree_node_def call_free_def)
  ultimately show ?case using Cons.prems vs by simp
qed simp

lemma listEmpty_rep:
  assumes "list_rep s l ns vs"
  shows "listEmpty s l = Some (s\<lparr>nodes := (\<lambda>b. if b \<in> set ns then None else nodes s b),
    freed := freed s @ (if l_free l then vs else [])\<rparr>, l\<lparr>l_head := None, l_tail := None, l_len := 0\<rparr>)"
  using assms listEmpty_loop_rep [of s None ns vs l]
  by (simp add: listEmpty_def list_rep_def unat_of_nat)

lemma listSearchKey_loop_rep:
  "chain (nodes s) p ns vs None \<Longrightarrow>
   listSearchKey_loop s l key \<lparr>it_next = first_or ns None, it_direction = AL_START_HEAD\<rparr> =
     Some (map_option fst (List.find (\<lambda>(a, v). case l_match l of Some m \<Rightarrow> m v key | None \<Rightarrow> key = v) (zip ns vs)))"
proof (induction ns arbitrary: p vs)
  case Nil
  then show ?case by (subst listSearchKey_loop.simps) (simp add: listNext_def)
next
  case (Cons a ns)
  then show ?case by (cases vs; subst listSearchKey_loop.simps) (auto simp: listNext_def split: option.splits)
qed

section \<open>Sessions\<close>

text \<open>Calls a client makes, with nodes named by their position.\<close>

datatype 'v lcall = PushHead 'v | PushTail 'v | InsertAt nat 'v bool | DelAt nat | TailToHead | HeadToTail

fun exec_lcall :: "'v mem \<Rightarrow> 'v lcall \<Rightarrow> 'v lstore \<times> 'v adlist \<Rightarrow> ('v lstore \<times> 'v adlist) option" where
  "exec_lcall mem (PushHead v) (s, l) = do { (s, l, ok) \<leftarrow> listAddNodeHead s l mem v; Some (s, l) }"
| "exec_lcall mem (PushTail v) (s, l) = do { (s, l, ok) \<leftarrow> listAddNodeTail s l mem v; Some (s, l) }"
| "exec_lcall mem (InsertAt i v after) (s, l) =
     do { p \<leftarrow> listIndex s l (int i);
          (case p of None \<Rightarrow> Some (s, l)
           | Some a \<Rightarrow> do { (s, l, ok) \<leftarrow> listInsertNode s l mem a v after; Some (s, l) }) }"
| "exec_lcall mem (DelAt i) (s, l) =
     do { p \<leftarrow> listIndex s l (int i);
          (case p of None \<Rightarrow> Some (s, l) | Some a \<Rightarrow> listDelNode s l a) }"
| "exec_lcall mem TailToHead (s, l) = listRotateTailToHead s l"
| "exec_lcall mem HeadToTail (s, l) = listRotateHeadToTail s l"

text \<open>The allocator sees the store and chooses an address, freed ones included. The state of a session also counts the calls,
  so that the allocator may answer differently at every call.\<close>

type_synonym 'v allocator = "'v lstore \<Rightarrow> nat \<times> 'v listNode"

definition lstep ::
  "(nat \<Rightarrow> 'v allocator) \<Rightarrow> 'v lcall \<Rightarrow> nat \<times> 'v lstore \<times> 'v adlist \<Rightarrow> (unit \<times> nat \<times> 'v lstore \<times> 'v adlist) option" where
  "lstep mems c = (\<lambda>(k, s, l). do { st \<leftarrow> exec_lcall (Some (mems k s)) c (s, l); Some ((), k + 1, st) })"

text \<open>What is documented of \<^verbatim>\<open>malloc\<close>: the address it returns is not in use.\<close>

definition alloc_ok :: "'v allocator \<Rightarrow> bool" where
  "alloc_ok mem \<longleftrightarrow> (\<forall>s. finite (dom (nodes s)) \<longrightarrow> nodes s (fst (mem s)) = None)"

text \<open>The same calls on a plain sequence of values.\<close>

fun spec_lcall :: "'v lcall \<Rightarrow> 'v list \<Rightarrow> 'v list" where
  "spec_lcall (PushHead v) vs = v # vs"
| "spec_lcall (PushTail v) vs = vs @ [v]"
| "spec_lcall (InsertAt i v after) vs =
     (if i < length vs then (let j = (if after then Suc i else i) in take j vs @ v # drop j vs) else vs)"
| "spec_lcall (DelAt i) vs = (if i < length vs then take i vs @ drop (Suc i) vs else vs)"
| "spec_lcall TailToHead vs = (if vs = [] then [] else last vs # butlast vs)"
| "spec_lcall HeadToTail vs = rotate1 vs"

lemma split_at:
  assumes "list_rep s l ns vs" "i < length ns"
  obtains xs a ys vs1 v vs2 where "ns = xs @ a # ys" "vs = vs1 @ v # vs2" "length xs = i" "length vs1 = i" "ns ! i = a"
proof -
  have "i < length vs" using assms list_rep_length [OF assms(1)] by simp
  then show ?thesis
    using that [of "take i ns" "ns ! i" "drop (Suc i) ns" "take i vs" "vs ! i" "drop (Suc i) vs"] assms(2)
    by (simp add: id_take_nth_drop [symmetric])
qed

lemma exec_lcall_rep:
  assumes rep: "list_rep s l ns vs" and fresh: "nodes s (fst m) = None" and room: "length ns + 1 < 2 ^ 64"
  shows "\<exists>s' l' ns'. exec_lcall (Some m) c (s, l) = Some (s', l') \<and> list_rep s' l' ns' (spec_lcall c vs)
    \<and> (\<forall>b. nodes s b = None \<longrightarrow> b \<noteq> fst m \<longrightarrow> nodes s' b = None)"
proof -
  obtain a junk where m: "m = (a, junk)" by fastforce
  have out: "b \<notin> set ns" if "nodes s b = None" for b using rep_fresh [OF rep that] .
  have len: "length vs = length ns" using list_rep_length [OF rep] .
  show ?thesis
  proof (cases c)
    case (PushHead v)
    then show ?thesis using listAddNodeHead_rep [OF rep, of a junk v] fresh room m out by (fastforce simp: frame_def)
  next
    case (PushTail v)
    then show ?thesis using listAddNodeTail_rep [OF rep, of a junk v] fresh room m out by (fastforce simp: frame_def)
  next
    case (InsertAt i v after)
    show ?thesis
    proof (cases "i < length ns")
      case True
      then obtain xs z ys vs1 w vs2 where e: "ns = xs @ z # ys" "vs = vs1 @ w # vs2" "length xs = i" "length vs1 = i"
        "ns ! i = z" using split_at [OF rep True] by metis
      have "\<exists>s' l' ns'. listInsertNode s l (Some (a, junk)) z v after = Some (s', l', True)
          \<and> list_rep s' l' ns' (spec_lcall c vs) \<and> frame s s' (insert a (set ns))"
        using listInsertNode_after_rep [of s l xs z ys vs1 w vs2 a junk v]
          listInsertNode_before_rep [of s l xs z ys vs1 w vs2 a junk v] rep fresh room m e InsertAt
        by (cases after) (auto simp: Let_def Suc_diff_le)
      then show ?thesis using InsertAt True e(5) m out listIndex_rep [OF rep, of "int i"] by (fastforce simp: frame_def)
    next
      case False
      then show ?thesis using InsertAt rep len listIndex_rep [OF rep, of "int i"] by auto
    qed
  next
    case (DelAt i)
    show ?thesis
    proof (cases "i < length ns")
      case True
      then obtain xs z ys vs1 w vs2 where e: "ns = xs @ z # ys" "vs = vs1 @ w # vs2" "length xs = i" "length vs1 = i"
        "ns ! i = z" using split_at [OF rep True] by metis
      then show ?thesis
        using listDelNode_rep [of s l xs z ys vs1 w vs2] rep DelAt True out listIndex_rep [OF rep, of "int i"]
        by (fastforce simp: Suc_diff_le)
    next
      case False
      then show ?thesis using DelAt rep len listIndex_rep [OF rep, of "int i"] by auto
    qed
  next
    case TailToHead
    show ?thesis
    proof (cases "ns = []")
      case False
      then obtain xs z vs1 w where "ns = xs @ [z]" "vs = vs1 @ [w]" using len
        by (metis length_0_conv rev_exhaust)
      then show ?thesis using listRotateTailToHead_rep [of s l xs z vs1 w] rep TailToHead out
        by (fastforce simp: frame_def)
    qed (use TailToHead rep list_rep_len1 [OF rep] len in \<open>auto simp: listRotateTailToHead_def\<close>)
  next
    case HeadToTail
    show ?thesis
    proof (cases "ns = []")
      case False
      then obtain z ys w vs2 where "ns = z # ys" "vs = w # vs2" using len by (cases ns; cases vs) auto
      then show ?thesis using listRotateHeadToTail_rep [of s l z ys w vs2] rep HeadToTail out
        by (fastforce simp: frame_def)
    qed (use HeadToTail rep list_rep_len1 [OF rep] len in \<open>auto simp: listRotateHeadToTail_def\<close>)
  qed
qed

definition session_rep :: "(nat \<Rightarrow> 'v allocator) \<Rightarrow> nat \<times> 'v lstore \<times> 'v adlist \<Rightarrow> 'v list \<Rightarrow> bool" where
  "session_rep mems st vs \<longleftrightarrow> (case st of (k, s, l) \<Rightarrow>
     (\<forall>k. alloc_ok (mems k)) \<and> (\<exists>ns. list_rep s l ns vs) \<and> finite (dom (nodes s)))"

definition lcall_ok :: "'v lcall \<Rightarrow> 'v list \<Rightarrow> bool" where
  "lcall_ok c vs \<longleftrightarrow> length vs + 1 < 2 ^ 64"

interpretation lsession: session "lstep mems" "\<lambda>c vs. ((), spec_lcall c vs)" lcall_ok "session_rep mems"
  for mems :: "nat \<Rightarrow> 'v allocator"
proof
  fix st :: "nat \<times> 'v lstore \<times> 'v adlist" and vs c
  assume a: "session_rep mems st vs" "lcall_ok c vs"
  obtain k s l where st: "st = (k, s, l)" by (cases st) auto
  then obtain ns where ns: "list_rep s l ns vs" "finite (dom (nodes s))" "\<forall>k. alloc_ok (mems k)"
    using a(1) by (auto simp: session_rep_def)
  have "nodes s (fst (mems k s)) = None" using ns(2,3) by (simp add: alloc_ok_def)
  moreover have "length ns + 1 < 2 ^ 64" using a(2) list_rep_length [OF ns(1)] by (simp add: lcall_ok_def)
  ultimately obtain s' l' ns' where r: "exec_lcall (Some (mems k s)) c (s, l) = Some (s', l')"
    "list_rep s' l' ns' (spec_lcall c vs)" "\<And>b. nodes s b = None \<Longrightarrow> b \<noteq> fst (mems k s) \<Longrightarrow> nodes s' b = None"
    using exec_lcall_rep [OF ns(1)] by blast
  have "dom (nodes s') \<subseteq> insert (fst (mems k s)) (dom (nodes s))"
  proof
    fix b assume "b \<in> dom (nodes s')"
    then show "b \<in> insert (fst (mems k s)) (dom (nodes s))" using r(3) [of b] by (cases "nodes s b") auto
  qed
  then have "finite (dom (nodes s'))" using ns(2) finite_subset by blast
  then show "\<exists>s'. lstep mems c st = Some (fst ((), spec_lcall c vs), s') \<and> session_rep mems s' (snd ((), spec_lcall c vs))"
    using r st ns(3) by (auto simp: lstep_def session_rep_def)
qed

lemma spec_lcall_length: "length (spec_lcall c vs) \<le> Suc (length vs)"
  by (cases c) (auto simp: Let_def)

lemma lcalls_ok: "length vs + length cs < 2 ^ 64 \<Longrightarrow> ok_steps lcall_ok (\<lambda>c vs. ((), spec_lcall c vs)) cs vs"
proof (induction cs arbitrary: vs)
  case (Cons c cs)
  then show ?case using spec_lcall_length [of c vs] by (simp add: lcall_ok_def)
qed simp

definition empty_store :: "'v lstore" where
  "empty_store = \<lparr>nodes = (\<lambda>_. None), freed = []\<rparr>"

text \<open>C12. Any session of fewer than \<open>2 ^ 64\<close> insertions at both ends and next to a node, deletions and rotations in both
  directions started on \<^verbatim>\<open>listCreate\<close> follows only valid pointers and ends in a well-linked list that holds exactly the
  values the same calls give on a plain sequence. The allocator may return any address that is not in use, also one
  that an earlier deletion freed.\<close>

theorem adlist_session_refines_list:
  assumes "\<forall>k. alloc_ok (mems k)" "length cs < 2 ^ 64"
  shows "\<exists>rs k s l ns. run_steps (lstep mems) cs (0, empty_store, listCreate) = Some (rs, k, s, l)
    \<and> list_rep s l ns (fold spec_lcall cs [])"
proof -
  have "session_rep mems (0, empty_store, listCreate) []"
    using assms(1) by (simp add: session_rep_def list_rep_def listCreate_def empty_store_def)
  then obtain st where st: "run_steps (lstep mems) cs (0, empty_store, listCreate)
      = Some (fst (spec_steps (\<lambda>c vs. ((), spec_lcall c vs)) cs []), st)"
    "session_rep mems st (snd (spec_steps (\<lambda>c vs. ((), spec_lcall c vs)) cs []))"
    using lsession.run_refines lcalls_ok [of "[]" cs] assms(2) by fastforce
  have "snd (spec_steps (\<lambda>c vs. ((), spec_lcall c vs)) cs vs) = fold spec_lcall cs vs" for vs
    by (induction cs arbitrary: vs) (auto simp: split_beta)
  then show ?thesis using st by (cases st) (auto simp: session_rep_def)
qed

text \<open>An allocator that takes the first free address, so that a deleted node is the next to be reused.\<close>

definition first_free :: "int allocator" where
  "first_free s = (LEAST a. nodes s a = None, \<lparr>n_prev = None, n_next = None, n_value = 0\<rparr>)"

lemma first_free_ok: "alloc_ok first_free"
  unfolding alloc_ok_def
proof (intro allI impI)
  fix s :: "int lstore"
  assume "finite (dom (nodes s))"
  then have "\<exists>a. a \<notin> dom (nodes s)" by (rule ex_new_if_finite [OF infinite_UNIV_nat])
  then have "\<exists>a. nodes s a = None" by (auto simp: domIff)
  then show "nodes s (fst (first_free s)) = None" unfolding first_free_def fst_conv by (rule LeastI_ex)
qed

theorem adlist_session_refines_list_witness:
  "\<exists>rs k s l ns.
     run_steps (lstep (\<lambda>_. first_free))
       [PushTail 1, PushHead 2, InsertAt 0 3 True, TailToHead, DelAt 1, PushTail 5] (0, empty_store, listCreate) = Some (rs, k, s, l)
     \<and> list_rep s l ns [1, 3, 5]"
  using adlist_session_refines_list [of "\<lambda>_. first_free" "[PushTail 1, PushHead 2, InsertAt 0 3 True, TailToHead, DelAt 1, PushTail 5]"]
    first_free_ok by simp

section \<open>Duplication\<close>

text \<open>What the allocator promises for the calls from number \<open>k\<close> on: unused and pairwise different addresses.\<close>

definition mems_ok :: "(nat \<Rightarrow> 'v mem) \<Rightarrow> nat \<Rightarrow> 'v lstore \<Rightarrow> bool" where
  "mems_ok mems k s \<longleftrightarrow>
     (\<forall>j a x. k \<le> j \<longrightarrow> mems j = Some (a, x) \<longrightarrow> nodes s a = None) \<and>
     (\<forall>i j a x y. mems i = Some (a, x) \<longrightarrow> mems j = Some (a, y) \<longrightarrow> i = j)"

definition dup_result ::
  "(nat \<Rightarrow> 'v mem) \<Rightarrow> nat \<Rightarrow> 'v lstore \<Rightarrow> 'v adlist \<Rightarrow> 'v list \<Rightarrow> 'v list \<Rightarrow> 'v lstore \<times> 'v adlist option \<Rightarrow> bool" where
  "dup_result mems k s0 copy ws vs res \<longleftrightarrow>
     (case res of
        (s', None) \<Rightarrow> nodes s' = nodes s0 \<and> (\<exists>i < length vs. dup_value copy (vs ! i) = None \<or> mems (k + i) = None)
      | (s', Some c) \<Rightarrow> (\<forall>i < length vs. dup_value copy (vs ! i) \<noteq> None \<and> mems (k + i) \<noteq> None) \<and> same_methods copy c \<and>
          (\<exists>cs. list_rep s' c cs (ws @ map (the \<circ> dup_value copy) vs) \<and>
                (\<forall>b \<in> set cs. nodes s0 b = None) \<and> (\<forall>b. b \<notin> set cs \<longrightarrow> nodes s' b = nodes s0 b)))"

lemma dup_release:
  assumes "list_rep s copy cs ws" "\<forall>b \<in> set cs. nodes s0 b = None" "\<forall>b. b \<notin> set cs \<longrightarrow> nodes s b = nodes s0 b"
  shows "\<exists>s'. listRelease s (Some copy) = Some s' \<and> nodes s' = nodes s0"
  using listEmpty_rep [OF assms(1)] assms(2,3) by (auto simp: listRelease_def)

lemma dup_result_Cons:
  assumes "dup_result mems (k + 1) s0 l1 (ws @ [w]) vs res" "same_methods copy l1" "dup_value copy v = Some w" "mems k \<noteq> None"
  shows "dup_result mems k s0 copy ws (v # vs) res"
proof -
  have d: "dup_value l1 = dup_value copy" using assms(2) by (auto simp: dup_value_def same_methods_def)
  have ex: "(\<exists>i < length (v # vs). dup_value copy ((v # vs) ! i) = None \<or> mems (k + i) = None) \<longleftrightarrow>
    (\<exists>i < length vs. dup_value copy (vs ! i) = None \<or> mems (k + 1 + i) = None)"
    using assms(3,4) by (auto simp: less_Suc_eq_0_disj)
  have all: "(\<forall>i < length (v # vs). dup_value copy ((v # vs) ! i) \<noteq> None \<and> mems (k + i) \<noteq> None) \<longleftrightarrow>
    (\<forall>i < length vs. dup_value copy (vs ! i) \<noteq> None \<and> mems (k + 1 + i) \<noteq> None)"
    using ex by auto
  obtain s' r where res: "res = (s', r)" by (cases res)
  show ?thesis
  proof (cases r)
    case None
    then show ?thesis using assms(1) res d unfolding dup_result_def ex by simp
  next
    case (Some c)
    then show ?thesis using assms res d unfolding dup_result_def all by (auto simp: same_methods_def)
  qed
qed

lemma listDup_loop_rep:
  "chain (nodes s) p rest vs None \<Longrightarrow> list_rep s copy cs ws \<Longrightarrow> set rest \<inter> set cs = {} \<Longrightarrow>
   \<forall>b \<in> set cs. nodes s0 b = None \<Longrightarrow> \<forall>b. b \<notin> set cs \<longrightarrow> nodes s b = nodes s0 b \<Longrightarrow>
   mems_ok mems k s \<Longrightarrow> length cs + length rest < 2 ^ 64 \<Longrightarrow>
   \<exists>res. listDup_loop mems k s copy \<lparr>it_next = first_or rest None, it_direction = AL_START_HEAD\<rparr> = Some res
     \<and> dup_result mems k s0 copy ws vs res"
proof (induction rest arbitrary: s p vs copy cs ws k)
  case Nil
  then show ?case
    by (subst listDup_loop.simps) (auto simp: listNext_def dup_result_def same_methods_def)
next
  case (Cons a rest)
  obtain v vs' where vs: "vs = v # vs'" using Cons.prems(1) by (cases vs) auto
  have node: "nodes s a = Some \<lparr>n_prev = p, n_next = first_or rest None, n_value = v\<rparr>"
    using Cons.prems(1) vs by simp
  let ?it = "\<lparr>it_next = first_or rest None, it_direction = AL_START_HEAD\<rparr>"
  have nx: "listNext s \<lparr>it_next = first_or (a # rest) None, it_direction = AL_START_HEAD\<rparr> = Some (Some a, ?it)"
    using node by (simp add: listNext_def)
  show ?case
  proof (cases "dup_value copy v")
    case None
    obtain s' where "listRelease s (Some copy) = Some s'" "nodes s' = nodes s0"
      using dup_release [OF Cons.prems(2,4,5)] by blast
    then show ?thesis using None vs node nx
      by (subst listDup_loop.simps) (auto simp: dup_result_def)
  next
    case (Some w)
    show ?thesis
    proof (cases "mems k")
      case None
      have "list_rep (call_free copy s w) copy cs ws" "\<forall>b. b \<notin> set cs \<longrightarrow> nodes (call_free copy s w) b = nodes s0 b"
        using Cons.prems(2,5) by (auto simp: call_free_def list_rep_def)
      then obtain s' where "listRelease (call_free copy s w) (Some copy) = Some s'" "nodes s' = nodes s0"
        using dup_release Cons.prems(4) by blast
      then show ?thesis using Some None vs node nx
        by (subst listDup_loop.simps) (auto simp: dup_result_def listAddNodeTail_def)
    next
      case (Some m)
      then obtain c junk where m: "mems k = Some (c, junk)" by (cases m) auto
      have fresh: "nodes s c = None" using Cons.prems(6) m by (auto simp: mems_ok_def)
      have "length cs + 1 < 2 ^ 64" using Cons.prems(7) by simp
      then obtain s1 l1 where r: "listAddNodeTail s copy (Some (c, junk)) w = Some (s1, l1, True)"
        "list_rep s1 l1 (cs @ [c]) (ws @ [w])" "frame s s1 (set (c # cs))" "same_methods copy l1"
        using listAddNodeTail_rep [OF Cons.prems(2) fresh, of junk w] by blast
      have crest: "c \<notin> set (a # rest)" using chain_present [OF Cons.prems(1)] fresh by fastforce
      have n0: "nodes s0 c = None" using fresh Cons.prems(5) rep_fresh [OF Cons.prems(2) fresh] by simp
      have step: "listDup_loop mems k s copy \<lparr>it_next = first_or (a # rest) None, it_direction = AL_START_HEAD\<rparr>
          = listDup_loop mems (k + 1) s1 l1 ?it"
        using nx node \<open>dup_value copy v = Some w\<close> r(1) m by (subst listDup_loop.simps) simp
      have s1: "nodes s1 b = nodes s b" if "b \<noteq> c" "b \<notin> set cs" for b using r(3) that by (simp add: frame_def)
      have "chain (nodes s1) (Some a) rest vs' None \<longleftrightarrow> chain (nodes s) (Some a) rest vs' None"
        using Cons.prems(3) crest s1 by (intro chain_cong) (metis IntI empty_iff list.set_intros(2))
      then have "chain (nodes s1) (Some a) rest vs' None" using Cons.prems(1) vs by simp
      moreover have "mems_ok mems (k + 1) s1"
      proof -
        have "nodes s1 b = None" if "k + 1 \<le> j" "mems j = Some (b, x)" for j b x
        proof -
          have "j \<noteq> k" using that(1) by simp
          then have "b \<noteq> c" using Cons.prems(6) m that(2) unfolding mems_ok_def by blast
          moreover have "k \<le> j" using that(1) by simp
          then have "nodes s b = None" using Cons.prems(6) that(2) unfolding mems_ok_def by blast
          then have "b \<notin> set cs" "nodes s b = None" using rep_fresh [OF Cons.prems(2)] by auto
          ultimately show ?thesis using s1 by simp
        qed
        then show ?thesis using Cons.prems(6) by (auto simp: mems_ok_def)
      qed
      ultimately have "\<exists>res. listDup_loop mems (k + 1) s1 l1 ?it = Some res
          \<and> dup_result mems (k + 1) s0 l1 (ws @ [w]) vs' res"
        using r(2) Cons.prems(3,4,5,7) crest n0 s1
        by (intro Cons.IH [of s1 "Some a" vs' l1 "cs @ [c]" "ws @ [w]" "k + 1"]) auto
      then show ?thesis using step dup_result_Cons [of mems k s0 l1 ws w vs' _ copy v] r(4) m
          \<open>dup_value copy v = Some w\<close> vs by fastforce
    qed
  qed
qed

text \<open>C32. \<^verbatim>\<open>listDup\<close> on a well-linked list returns a separate well-linked list of the duplicated values, or \<^verbatim>\<open>NULL\<close>
  with every node of the partial copy released, which happens exactly when the \<^verbatim>\<open>dup\<close> method or an allocation fails
  on the way. In both cases the original is as before.\<close>

theorem listDup_copies:
  assumes rep: "list_rep s orig ns vs" and mems: "mems_ok mems 0 s"
  shows "\<exists>s' r. listDup True mems s orig = Some (s', r) \<and> list_rep s' orig ns vs \<and>
    (case r of
       None \<Rightarrow> nodes s' = nodes s \<and> (\<exists>i < length vs. dup_value orig (vs ! i) = None \<or> mems i = None)
     | Some c \<Rightarrow> (\<forall>i < length vs. dup_value orig (vs ! i) \<noteq> None \<and> mems i \<noteq> None) \<and>
         (\<exists>cs. list_rep s' c cs (map (the \<circ> dup_value orig) vs) \<and> set cs \<inter> set ns = {}))"
proof -
  let ?c = "listCreate\<lparr>l_dup := l_dup orig, l_free := l_free orig, l_match := l_match orig\<rparr>"
  have "list_rep s ?c [] []" by (simp add: list_rep_def listCreate_def)
  then obtain s' r where r: "listDup True mems s orig = Some (s', r)" "dup_result mems 0 s ?c [] vs (s', r)"
    using listDup_loop_rep [of s None ns vs ?c "[]" "[]" s mems 0] rep mems
    by (auto simp: listDup_def listRewind_def list_rep_def)
  have d: "dup_value ?c = dup_value orig" by (auto simp: dup_value_def)
  have in_ns: "b \<in> set ns \<Longrightarrow> nodes s b \<noteq> None" for b
    using rep chain_present [of "nodes s" None ns vs None b] by (auto simp: list_rep_def)
  have keep: "list_rep s' orig ns vs" if "\<forall>b \<in> set ns. nodes s' b = nodes s b"
    using rep that chain_cong [of ns "nodes s'" "nodes s"] by (simp add: list_rep_def)
  show ?thesis
  proof (cases r)
    case None
    then show ?thesis using r d keep by (auto simp: dup_result_def)
  next
    case (Some c)
    then obtain cs where cs: "list_rep s' c cs (map (the \<circ> dup_value orig) vs)" "\<forall>b \<in> set cs. nodes s b = None"
      "\<forall>b. b \<notin> set cs \<longrightarrow> nodes s' b = nodes s b"
      using r(2) d by (auto simp: dup_result_def)
    have "set cs \<inter> set ns = {}" using cs(2) in_ns by fastforce
    moreover from this have "list_rep s' orig ns vs" using cs(3) by (intro keep) auto
    ultimately show ?thesis using Some r d cs(1) by (auto simp: dup_result_def)
  qed
qed

theorem listDup_copies_witness:
  "\<exists>s' c cs.
     listDup True (\<lambda>k. Some (k + 5, \<lparr>n_prev = None, n_next = None, n_value = 0 :: int\<rparr>))
       \<lparr>nodes = [3 \<mapsto> \<lparr>n_prev = None, n_next = None, n_value = 7\<rparr>], freed = []\<rparr>
       (listCreate\<lparr>l_head := Some 3, l_tail := Some 3, l_len := 1\<rparr>) = Some (s', Some c)
     \<and> list_rep s' c cs [7] \<and> 3 \<notin> set cs"
proof -
  let ?s = "\<lparr>nodes = [3 \<mapsto> \<lparr>n_prev = None, n_next = None, n_value = 7 :: int\<rparr>], freed = []\<rparr>"
  let ?l = "(listCreate :: int adlist)\<lparr>l_head := Some 3, l_tail := Some 3, l_len := 1\<rparr>"
  let ?m = "\<lambda>k. Some (k + 5, \<lparr>n_prev = None, n_next = None, n_value = 0 :: int\<rparr>) :: int mem"
  have "list_rep ?s ?l [3] [7]" by (simp add: list_rep_def)
  moreover have "mems_ok ?m 0 ?s" by (auto simp: mems_ok_def)
  ultimately show ?thesis using listDup_copies [of ?s ?l "[3]" "[7]" ?m]
    by (auto simp: dup_value_def listCreate_def split: option.splits)
qed

section \<open>Iteration with deletion\<close>

text \<open>The documented usage pattern: every node the iterator returns is examined and, if wanted, deleted.\<close>

partial_function (option) delete_matching ::
  "('v \<Rightarrow> bool) \<Rightarrow> 'v lstore \<Rightarrow> 'v adlist \<Rightarrow> listIter \<Rightarrow> ('v lstore \<times> 'v adlist) option" where
  "delete_matching P s l iter =
     do { (node, iter) \<leftarrow> listNext s iter;
          (case node of None \<Rightarrow> Some (s, l)
           | Some a \<Rightarrow>
               do { nd \<leftarrow> deref s node;
                    (if P (n_value nd)
                     then do { (s, l) \<leftarrow> listDelNode s l a; delete_matching P s l iter }
                     else delete_matching P s l iter) }) }"

lemma delete_matching_rep:
  "list_rep s l (xs @ ys) (vs1 @ vs2) \<Longrightarrow> length vs1 = length xs \<Longrightarrow>
   \<exists>s' l' zs. delete_matching P s l \<lparr>it_next = first_or ys None, it_direction = AL_START_HEAD\<rparr> = Some (s', l')
     \<and> list_rep s' l' (xs @ zs) (vs1 @ filter (\<lambda>v. \<not> P v) vs2) \<and> set zs \<subseteq> set ys
     \<and> freed s' = freed s @ (if l_free l then filter P vs2 else [])
     \<and> (\<forall>b. b \<notin> set ys \<longrightarrow> (nodes s' b = None) = (nodes s b = None))
     \<and> (\<forall>b \<in> set ys - set zs. nodes s' b = None)"
proof (induction ys arbitrary: s l xs vs1 vs2)
  case Nil
  then have "vs2 = []" using list_rep_length by fastforce
  with Nil show ?case by (subst delete_matching.simps) (auto simp: listNext_def)
next
  case (Cons a ys)
  obtain v vs2' where vs2: "vs2 = v # vs2'" "nodes s a = Some \<lparr>n_prev = last_or xs None, n_next = first_or ys None, n_value = v\<rparr>"
    using rep_at [OF Cons.prems(1)] Cons.prems(2) by (metis append_eq_append_conv)
  have a: "a \<notin> set ys" using Cons.prems(1) by (auto simp: list_rep_def)
  let ?it = "\<lparr>it_next = first_or ys None, it_direction = AL_START_HEAD\<rparr>"
  have nx: "listNext s \<lparr>it_next = first_or (a # ys) None, it_direction = AL_START_HEAD\<rparr> = Some (Some a, ?it)"
    using vs2(2) by (simp add: listNext_def)
  show ?case
  proof (cases "P v")
    case True
    obtain s1 l1 where d: "listDelNode s l a = Some (s1, l1)" "list_rep s1 l1 (xs @ ys) (vs1 @ vs2')" "nodes s1 a = None"
      "freed s1 = freed s @ (if l_free l then [v] else [])" "same_methods l l1"
      "\<forall>b. b \<notin> set (xs @ a # ys) \<longrightarrow> nodes s1 b = nodes s b"
      using listDelNode_rep [of s l xs a ys vs1 v vs2'] Cons.prems vs2(1) by blast
    have xs: "nodes s b \<noteq> None \<and> nodes s1 b \<noteq> None" if "b \<in> set xs" for b
      using that Cons.prems(1) d(2) rep_fresh [OF Cons.prems(1), of b] rep_fresh [OF d(2), of b] by auto
    obtain s' l' zs where r: "delete_matching P s1 l1 ?it = Some (s', l')"
      "list_rep s' l' (xs @ zs) (vs1 @ filter (\<lambda>v. \<not> P v) vs2')" "set zs \<subseteq> set ys"
      "freed s' = freed s1 @ (if l_free l1 then filter P vs2' else [])"
      "\<forall>b. b \<notin> set ys \<longrightarrow> (nodes s' b = None) = (nodes s1 b = None)" "\<forall>b \<in> set ys - set zs. nodes s' b = None"
      using Cons.IH [OF d(2) Cons.prems(2)] by blast
    have "delete_matching P s l \<lparr>it_next = first_or (a # ys) None, it_direction = AL_START_HEAD\<rparr> = Some (s', l')"
      using nx vs2(2) True d(1) r(1) by (subst delete_matching.simps) simp
    moreover have "(nodes s' b = None) = (nodes s b = None)" if "b \<notin> set (a # ys)" for b
      using that r(5) d(6) xs [of b] by (cases "b \<in> set xs") auto
    moreover have "l_free l1 = l_free l" using d(5) by (simp add: same_methods_def)
    ultimately show ?thesis using r(2-6) d(3,4) a vs2(1) True by (intro exI [of _ s'] exI [of _ l'] exI [of _ zs]) auto
  next
    case False
    obtain s' l' zs where r: "delete_matching P s l ?it = Some (s', l')"
      "list_rep s' l' ((xs @ [a]) @ zs) ((vs1 @ [v]) @ filter (\<lambda>v. \<not> P v) vs2')" "set zs \<subseteq> set ys"
      "freed s' = freed s @ (if l_free l then filter P vs2' else [])"
      "\<forall>b. b \<notin> set ys \<longrightarrow> (nodes s' b = None) = (nodes s b = None)" "\<forall>b \<in> set ys - set zs. nodes s' b = None"
      using Cons.IH [of s l "xs @ [a]" "vs1 @ [v]" vs2'] Cons.prems vs2(1) by auto
    have "delete_matching P s l \<lparr>it_next = first_or (a # ys) None, it_direction = AL_START_HEAD\<rparr> = Some (s', l')"
      using nx vs2(2) False r(1) by (subst delete_matching.simps) simp
    then show ?thesis using r(2-6) vs2(1) False by (intro exI [of _ s'] exI [of _ l'] exI [of _ "a # zs"]) auto
  qed
qed

text \<open>C31. Removing the node \<^verbatim>\<open>listNext\<close> has just returned does not disturb the iteration: the loop over a well-linked
  list that deletes the nodes whose value satisfies a condition visits every node, never follows a freed one,
  ends, and leaves the other values in order; the deleted values are passed to the \<^verbatim>\<open>free\<close> method in order and
  their nodes are released.\<close>

theorem delete_while_iterating:
  assumes "list_rep s l ns vs"
  shows "\<exists>s' l' zs. delete_matching P s l (listRewind l) = Some (s', l')
    \<and> list_rep s' l' zs (filter (\<lambda>v. \<not> P v) vs) \<and> set zs \<subseteq> set ns
    \<and> freed s' = freed s @ (if l_free l then filter P vs else [])
    \<and> (\<forall>b \<in> set ns - set zs. nodes s' b = None)"
proof -
  have "listRewind l = \<lparr>it_next = first_or ns None, it_direction = AL_START_HEAD\<rparr>"
    using assms by (simp add: listRewind_def list_rep_def)
  then show ?thesis using delete_matching_rep [of s l "[]" ns "[]" vs P] assms by auto
qed

theorem delete_while_iterating_witness:
  "\<exists>s' l' zs. delete_matching even
       \<lparr>nodes = [3 \<mapsto> \<lparr>n_prev = None, n_next = Some 4, n_value = 6 :: nat\<rparr>, 4 \<mapsto> \<lparr>n_prev = Some 3, n_next = None, n_value = 7\<rparr>],
        freed = []\<rparr>
       (listCreate\<lparr>l_head := Some 3, l_tail := Some 4, l_len := 2\<rparr>)
       (listRewind (listCreate\<lparr>l_head := Some 3, l_tail := Some 4, l_len := 2\<rparr> :: nat adlist)) = Some (s', l')
     \<and> list_rep s' l' zs [7]"
proof -
  let ?s = "\<lparr>nodes = [3 \<mapsto> \<lparr>n_prev = None, n_next = Some 4, n_value = 6 :: nat\<rparr>, 4 \<mapsto> \<lparr>n_prev = Some 3, n_next = None, n_value = 7\<rparr>],
        freed = []\<rparr>"
  let ?l = "(listCreate :: nat adlist)\<lparr>l_head := Some 3, l_tail := Some 4, l_len := 2\<rparr>"
  have "list_rep ?s ?l [3, 4] [6, 7]" by (simp add: list_rep_def)
  from delete_while_iterating [OF this, of even] show ?thesis by auto
qed

end
