(* ===== verification/Dict.thy ===== *)
theory Dict
  imports Prelude "HOL-Library.Multiset"
begin

unbundle bit_operations_syntax

text \<open>
  The hash table of \<^verbatim>\<open>src/dict.c\<close> with incremental rehashing. A bucket's chain of entries is the list of its
  (stored key, value) pairs, head first; a table is the list of its buckets, empty for \<^verbatim>\<open>NULL\<close>; an access outside
  a table or a failed \<^verbatim>\<open>assert\<close> is \<open>None\<close>. A \<^verbatim>\<open>dictEntryLink\<close> is the triple of table, bucket index and position in
  the chain. The tagged pointers that let a key stand for a one-element chain are below this level. The
  callbacks of \<^verbatim>\<open>dictType\<close> that observe the dictionary, and the destructors, are logged in the order of the calls.
  The global \<^verbatim>\<open>dict_can_resize\<close> is an argument. Counters that cannot reach the width of their type before
  memory is exhausted are natural numbers; the overflow test of a new table's size is written out.
\<close>

section \<open>Types\<close>

datatype dictResizeEnable = DICT_RESIZE_ENABLE | DICT_RESIZE_AVOID | DICT_RESIZE_FORBID

text \<open>The callbacks of a rehashing read the old and the new size with \<^verbatim>\<open>dictRehashingInfo\<close>; the event keeps what they read.\<close>

datatype ('s, 'v) dictEvent =
  RehashingStarted nat nat | RehashingCompleted nat nat | BucketChanged int | OnDictRelease | ClearCallback
  | FreeKey 's | FreeVal 'v

text \<open>\<open>resizeAllowed\<close> gets the bytes of the new table and the ratio of used entries to buckets as two numbers.\<close>

record ('s, 'k, 'v) dictType =
  hashFunction :: "'k \<Rightarrow> u64"
  keyFromStoredKey :: "'s \<Rightarrow> 'k"
  keyDup :: "'s \<Rightarrow> 's"
  valDup :: "'v \<Rightarrow> 'v"
  keyCompare :: "'k \<Rightarrow> 'k \<Rightarrow> bool"
  resizeAllowed :: "nat \<Rightarrow> nat \<Rightarrow> nat \<Rightarrow> bool"
  no_value :: bool
  force_full_rehash :: bool

record ('s, 'v) dict =
  ht_table :: "nat \<Rightarrow> ('s \<times> 'v) list list"
  ht_used :: "nat \<Rightarrow> nat"
  rehashidx :: int
  pauserehash :: nat
  ht_size_exp :: "nat \<Rightarrow> int"
  pauseAutoResize :: int
  d_log :: "('s, 'v) dictEvent list"

type_synonym link = "nat \<times> nat \<times> nat"

definition dict_force_resize_ratio :: nat where "dict_force_resize_ratio = 4"
definition HASHTABLE_MIN_FILL :: nat where "HASHTABLE_MIN_FILL = 8"
definition DICT_HT_INITIAL_EXP :: int where "DICT_HT_INITIAL_EXP = 2"
definition DICT_HT_INITIAL_SIZE :: nat where "DICT_HT_INITIAL_SIZE = 4"

definition DICTHT_SIZE :: "int \<Rightarrow> nat" where
  "DICTHT_SIZE e = (if e = -1 then 0 else 2 ^ nat e)"

definition DICTHT_SIZE_MASK :: "int \<Rightarrow> nat" where
  "DICTHT_SIZE_MASK e = (if e = -1 then 0 else DICTHT_SIZE e - 1)"

definition dictSize :: "('s, 'v) dict \<Rightarrow> nat" where
  "dictSize d = ht_used d 0 + ht_used d 1"

definition dictBuckets :: "('s, 'v) dict \<Rightarrow> nat" where
  "dictBuckets d = DICTHT_SIZE (ht_size_exp d 0) + DICTHT_SIZE (ht_size_exp d 1)"

definition dictIsRehashing :: "('s, 'v) dict \<Rightarrow> bool" where
  "dictIsRehashing d \<longleftrightarrow> rehashidx d \<noteq> -1"

text \<open>The depth of the pauses is an \<^verbatim>\<open>unsigned\<close>, which wraps.\<close>

definition dictPauseRehashing :: "('s, 'v) dict \<Rightarrow> ('s, 'v) dict" where
  "dictPauseRehashing d = d\<lparr>pauserehash := (pauserehash d + 1) mod 2 ^ 32\<rparr>"

definition dictResumeRehashing :: "('s, 'v) dict \<Rightarrow> ('s, 'v) dict" where
  "dictResumeRehashing d = d\<lparr>pauserehash := (if pauserehash d = 0 then 2 ^ 32 - 1 else pauserehash d - 1)\<rparr>"

definition emit :: "('s, 'v) dictEvent \<Rightarrow> ('s, 'v) dict \<Rightarrow> ('s, 'v) dict" where
  "emit e d = d\<lparr>d_log := d_log d @ [e]\<rparr>"

abbreviation rehashing_started :: "('s, 'v) dict \<Rightarrow> ('s, 'v) dict" where
  "rehashing_started d \<equiv> emit (RehashingStarted (DICTHT_SIZE (ht_size_exp d 0)) (DICTHT_SIZE (ht_size_exp d 1))) d"

abbreviation rehashing_completed :: "('s, 'v) dict \<Rightarrow> ('s, 'v) dict" where
  "rehashing_completed d \<equiv> emit (RehashingCompleted (DICTHT_SIZE (ht_size_exp d 0)) (DICTHT_SIZE (ht_size_exp d 1))) d"

definition dictGetHash :: "('s, 'k, 'v) dictType \<Rightarrow> 'k \<Rightarrow> nat" where
  "dictGetHash t key = unat (hashFunction t key)"

definition bucket_at :: "('s, 'v) dict \<Rightarrow> nat \<Rightarrow> nat \<Rightarrow> ('s \<times> 'v) list option" where
  "bucket_at d i idx = (if idx < length (ht_table d i) then Some (ht_table d i ! idx) else None)"

definition set_bucket :: "('s, 'v) dict \<Rightarrow> nat \<Rightarrow> nat \<Rightarrow> ('s \<times> 'v) list \<Rightarrow> ('s, 'v) dict option" where
  "set_bucket d i idx b =
     (if idx < length (ht_table d i)
      then Some (d\<lparr>ht_table := (ht_table d)(i := (ht_table d i)[idx := b])\<rparr>) else None)"

text \<open>The number of significant bits: 64 minus the count of leading zeros of a 64-bit number.\<close>

fun bitlen :: "nat \<Rightarrow> nat" where
  "bitlen n = (if n = 0 then 0 else Suc (bitlen (n div 2)))"

declare bitlen.simps [simp del]

definition dictNextExpForSize :: "nat \<Rightarrow> int" where
  "dictNextExpForSize sz =
     (if sz \<le> DICT_HT_INITIAL_SIZE then DICT_HT_INITIAL_EXP
      else if sz \<ge> 2 ^ 63 - 1 then 63
      else int (bitlen (sz - 1)))"

section \<open>Creation and resizing\<close>

definition u_dictReset :: "('s, 'v) dict \<Rightarrow> nat \<Rightarrow> ('s, 'v) dict" where
  "u_dictReset d i = d\<lparr>ht_table := (ht_table d)(i := []), ht_size_exp := (ht_size_exp d)(i := -1),
     ht_used := (ht_used d)(i := 0)\<rparr>"

definition u_dictInit :: "('s, 'v) dict \<Rightarrow> ('s, 'v) dict" where
  "u_dictInit d = (u_dictReset (u_dictReset d 0) 1)\<lparr>rehashidx := -1, pauserehash := 0, pauseAutoResize := 0\<rparr>"

text \<open>The allocated structure is indeterminate before \<^verbatim>\<open>_dictInit\<close>; nothing has been called back.\<close>

definition dictCreate :: "('s, 'v) dict \<Rightarrow> ('s, 'v) dict" where
  "dictCreate junk = (u_dictInit junk)\<lparr>d_log := []\<rparr>"

text \<open>The loop over the chain of one bucket: each entry goes to the head of its new bucket.\<close>

fun rehash_chain :: "('s, 'k, 'v) dictType \<Rightarrow> nat \<Rightarrow> ('s \<times> 'v) list \<Rightarrow> ('s, 'v) dict \<Rightarrow> ('s, 'v) dict option" where
  "rehash_chain t idx [] d = Some d"
| "rehash_chain t idx (de # rest) d =
     (let h = (if ht_size_exp d 1 > ht_size_exp d 0
               then dictGetHash t (keyFromStoredKey t (fst de)) AND DICTHT_SIZE_MASK (ht_size_exp d 1)
               else idx AND DICTHT_SIZE_MASK (ht_size_exp d 1))
      in do { b \<leftarrow> bucket_at d 1 h;
              d \<leftarrow> set_bucket d 1 h (de # b);
              rehash_chain t idx rest
                (d\<lparr>ht_used := (ht_used d)(0 := ht_used d 0 - 1, 1 := ht_used d 1 + 1)\<rparr>) })"

definition rehashEntriesInBucketAtIndex :: "('s, 'k, 'v) dictType \<Rightarrow> ('s, 'v) dict \<Rightarrow> nat \<Rightarrow> ('s, 'v) dict option" where
  "rehashEntriesInBucketAtIndex t d idx =
     do { b \<leftarrow> bucket_at d 0 idx;
          d \<leftarrow> rehash_chain t idx b d;
          set_bucket d 0 idx [] }"

definition dictCheckRehashingCompleted :: "('s, 'v) dict \<Rightarrow> ('s, 'v) dict \<times> bool" where
  "dictCheckRehashingCompleted d =
     (if ht_used d 0 \<noteq> 0 then (d, False)
      else (let d = emit (BucketChanged (- int (DICTHT_SIZE (ht_size_exp d 0)))) (rehashing_completed d);
                d = d\<lparr>ht_table := (ht_table d)(0 := ht_table d 1), ht_used := (ht_used d)(0 := ht_used d 1),
                      ht_size_exp := (ht_size_exp d)(0 := ht_size_exp d 1)\<rparr>
            in ((u_dictReset d 1)\<lparr>rehashidx := -1\<rparr>, True)))"

text \<open>The rule that keeps a table from being rehashed: the setting forbids it, or avoids it and the two sizes are
  too close.\<close>

definition rehash_blocked :: "dictResizeEnable \<Rightarrow> ('s, 'v) dict \<Rightarrow> bool" where
  "rehash_blocked can_resize d \<longleftrightarrow>
     (let s0 = DICTHT_SIZE (ht_size_exp d 0); s1 = DICTHT_SIZE (ht_size_exp d 1)
      in can_resize = DICT_RESIZE_FORBID \<or> \<not> dictIsRehashing d \<or>
         (can_resize = DICT_RESIZE_AVOID \<and>
          ((s1 > s0 \<and> s1 < dict_force_resize_ratio * s0) \<or>
           (s1 < s0 \<and> s0 < HASHTABLE_MIN_FILL * dict_force_resize_ratio * s1))))"

text \<open>The inner loop over empty buckets: the index reached, the visits left, and whether the budget ran out.\<close>

function skip_empty :: "('s \<times> 'v) list list \<Rightarrow> nat \<Rightarrow> nat \<Rightarrow> (nat \<times> nat \<times> bool) option" where
  "skip_empty tbl i empty_visits =
     (if i \<ge> length tbl then None
      else if tbl ! i \<noteq> [] then Some (i, empty_visits, False)
      else if empty_visits = 1 then Some (i + 1, empty_visits - 1, True)
      else skip_empty tbl (i + 1) (empty_visits - 1))"
  by pat_completeness auto
termination by (relation "measure (\<lambda>(tbl, i, _). length tbl - i)") auto

declare skip_empty.simps [simp del]

text \<open>The outer loop; the flag is set when the function returns 1 from inside it.\<close>

fun dictRehash_loop :: "('s, 'k, 'v) dictType \<Rightarrow> nat \<Rightarrow> nat \<Rightarrow> ('s, 'v) dict \<Rightarrow> (('s, 'v) dict \<times> bool) option" where
  "dictRehash_loop t 0 empty_visits d = Some (d, False)"
| "dictRehash_loop t (Suc n) empty_visits d =
     (if ht_used d 0 = 0 then Some (d, False)
      else do {
        guard (int (DICTHT_SIZE (ht_size_exp d 0)) > rehashidx d \<and> rehashidx d \<ge> 0);
        (i, empty_visits, stop) \<leftarrow> skip_empty (ht_table d 0) (nat (rehashidx d)) empty_visits;
        let d = d\<lparr>rehashidx := int i\<rparr>;
        (if stop then Some (d, True)
         else do { d \<leftarrow> rehashEntriesInBucketAtIndex t d i;
                   dictRehash_loop t n empty_visits (d\<lparr>rehashidx := rehashidx d + 1\<rparr>) }) })"

text \<open>The budget of empty buckets is computed in \<^verbatim>\<open>int\<close>, which must not overflow.\<close>

definition dictRehash ::
  "('s, 'k, 'v) dictType \<Rightarrow> dictResizeEnable \<Rightarrow> ('s, 'v) dict \<Rightarrow> nat \<Rightarrow> (('s, 'v) dict \<times> bool) option" where
  "dictRehash t can_resize d n =
     do { guard (n * 10 < 2 ^ 31);
          (if rehash_blocked can_resize d then Some (d, False)
           else do { (d, stop) \<leftarrow> dictRehash_loop t n (n * 10) d;
                     (if stop then Some (d, True)
                      else (let (d, fin) = dictCheckRehashingCompleted d in Some (d, \<not> fin))) }) }"

text \<open>\<^verbatim>\<open>while (dictRehash(d, 1000))\<close>.\<close>

partial_function (option) full_rehash ::
  "('s, 'k, 'v) dictType \<Rightarrow> dictResizeEnable \<Rightarrow> ('s, 'v) dict \<Rightarrow> ('s, 'v) dict option" where
  "full_rehash t can_resize d =
     do { (d, more) \<leftarrow> dictRehash t can_resize d 1000;
          (if more then full_rehash t can_resize d else Some d) }"

text \<open>\<open>calloc_ok\<close> is the outcome of the allocation when \<^verbatim>\<open>malloc_failed\<close> is not null; \<^verbatim>\<open>zcalloc\<close> does not return on
  failure. The result has the return value (\<open>True\<close> for \<^verbatim>\<open>DICT_OK\<close>) and \<^verbatim>\<open>*malloc_failed\<close>.\<close>

definition u_dictResize ::
  "('s, 'k, 'v) dictType \<Rightarrow> dictResizeEnable \<Rightarrow> bool \<Rightarrow> ('s, 'v) dict \<Rightarrow> nat \<Rightarrow> (('s, 'v) dict \<times> bool \<times> bool) option" where
  "u_dictResize t can_resize calloc_ok d sz =
     do { guard (\<not> dictIsRehashing d);
          let new_exp = dictNextExpForSize sz;
          let newsize = DICTHT_SIZE new_exp;
          (if newsize < sz \<or> newsize * 8 mod 2 ^ 64 < newsize then Some (d, False, False)
           else if new_exp = ht_size_exp d 0 then Some (d, False, False)
           else if \<not> calloc_ok then Some (d, False, True)
           else do {
             let d = d\<lparr>ht_size_exp := (ht_size_exp d)(1 := new_exp), ht_used := (ht_used d)(1 := 0),
                       ht_table := (ht_table d)(1 := replicate newsize []), rehashidx := 0\<rparr>;
             let d = emit (BucketChanged (int (DICTHT_SIZE (ht_size_exp d 1)))) (rehashing_started d);
             (if ht_table d 0 = [] \<or> ht_used d 0 = 0 then
                (let d = emit (BucketChanged (- int (DICTHT_SIZE (ht_size_exp d 0)))) (rehashing_completed d);
                     d = d\<lparr>ht_size_exp := (ht_size_exp d)(0 := new_exp), ht_used := (ht_used d)(0 := 0),
                           ht_table := (ht_table d)(0 := replicate newsize [])\<rparr>
                 in Some ((u_dictReset d 1)\<lparr>rehashidx := -1\<rparr>, True, False))
              else if force_full_rehash t then
                do { d \<leftarrow> full_rehash t can_resize d; Some (d, True, False) }
              else Some (d, True, False)) }) }"

definition u_dictExpand ::
  "('s, 'k, 'v) dictType \<Rightarrow> dictResizeEnable \<Rightarrow> bool \<Rightarrow> ('s, 'v) dict \<Rightarrow> nat \<Rightarrow> (('s, 'v) dict \<times> bool \<times> bool) option" where
  "u_dictExpand t can_resize calloc_ok d sz =
     (if dictIsRehashing d \<or> ht_used d 0 > sz \<or> DICTHT_SIZE (ht_size_exp d 0) \<ge> sz then Some (d, False, False)
      else u_dictResize t can_resize calloc_ok d sz)"

definition dictExpand ::
  "('s, 'k, 'v) dictType \<Rightarrow> dictResizeEnable \<Rightarrow> ('s, 'v) dict \<Rightarrow> nat \<Rightarrow> (('s, 'v) dict \<times> bool) option" where
  "dictExpand t can_resize d sz = do { (d, ok, _) \<leftarrow> u_dictExpand t can_resize True d sz; Some (d, ok) }"

definition dictTryExpand ::
  "('s, 'k, 'v) dictType \<Rightarrow> dictResizeEnable \<Rightarrow> bool \<Rightarrow> ('s, 'v) dict \<Rightarrow> nat \<Rightarrow> (('s, 'v) dict \<times> bool) option" where
  "dictTryExpand t can_resize calloc_ok d sz =
     do { (d, _, malloc_failed) \<leftarrow> u_dictExpand t can_resize calloc_ok d sz; Some (d, \<not> malloc_failed) }"

definition dictShrink ::
  "('s, 'k, 'v) dictType \<Rightarrow> dictResizeEnable \<Rightarrow> ('s, 'v) dict \<Rightarrow> nat \<Rightarrow> (('s, 'v) dict \<times> bool) option" where
  "dictShrink t can_resize d sz =
     (if dictIsRehashing d \<or> ht_used d 0 > sz \<or> DICTHT_SIZE (ht_size_exp d 0) \<le> sz then Some (d, False)
      else do { (d, ok, _) \<leftarrow> u_dictResize t can_resize True d sz; Some (d, ok) })"

definition u_dictRehashStep ::
  "('s, 'k, 'v) dictType \<Rightarrow> dictResizeEnable \<Rightarrow> ('s, 'v) dict \<Rightarrow> ('s, 'v) dict option" where
  "u_dictRehashStep t can_resize d =
     (if pauserehash d = 0 then do { (d, _) \<leftarrow> dictRehash t can_resize d 1; Some d } else Some d)"

definition u_dictBucketRehash ::
  "('s, 'k, 'v) dictType \<Rightarrow> dictResizeEnable \<Rightarrow> ('s, 'v) dict \<Rightarrow> nat \<Rightarrow> ('s, 'v) dict option" where
  "u_dictBucketRehash t can_resize d idx =
     (if pauserehash d \<noteq> 0 \<or> rehash_blocked can_resize d then Some d
      else do { d \<leftarrow> rehashEntriesInBucketAtIndex t d idx;
                Some (fst (dictCheckRehashingCompleted d)) })"

definition u_dictRehashStepIfNeeded ::
  "('s, 'k, 'v) dictType \<Rightarrow> dictResizeEnable \<Rightarrow> ('s, 'v) dict \<Rightarrow> nat \<Rightarrow> ('s, 'v) dict option" where
  "u_dictRehashStepIfNeeded t can_resize d visitedIdx =
     (if \<not> dictIsRehashing d \<or> pauserehash d \<noteq> 0 then Some d
      else if int visitedIdx \<ge> rehashidx d then
        do { b \<leftarrow> bucket_at d 0 visitedIdx;
             (if b \<noteq> [] then u_dictBucketRehash t can_resize d visitedIdx
              else do { (d, _) \<leftarrow> dictRehash t can_resize d 1; Some d }) }
      else do { (d, _) \<leftarrow> dictRehash t can_resize d 1; Some d })"

definition dictTypeResizeAllowed :: "('s, 'k, 'v) dictType \<Rightarrow> ('s, 'v) dict \<Rightarrow> nat \<Rightarrow> bool" where
  "dictTypeResizeAllowed t d sz =
     resizeAllowed t (DICTHT_SIZE (dictNextExpForSize sz) * 8) (ht_used d 0) (DICTHT_SIZE (ht_size_exp d 0))"

definition dictExpandIfNeeded ::
  "('s, 'k, 'v) dictType \<Rightarrow> dictResizeEnable \<Rightarrow> ('s, 'v) dict \<Rightarrow> (('s, 'v) dict \<times> bool) option" where
  "dictExpandIfNeeded t can_resize d =
     (if dictIsRehashing d then Some (d, True)
      else if DICTHT_SIZE (ht_size_exp d 0) = 0 then
        do { (d, _) \<leftarrow> dictExpand t can_resize d DICT_HT_INITIAL_SIZE; Some (d, True) }
      else if (can_resize = DICT_RESIZE_ENABLE \<and> ht_used d 0 \<ge> DICTHT_SIZE (ht_size_exp d 0)) \<or>
              (can_resize \<noteq> DICT_RESIZE_FORBID \<and>
               ht_used d 0 \<ge> dict_force_resize_ratio * DICTHT_SIZE (ht_size_exp d 0)) then
        do { (d, _) \<leftarrow> (if dictTypeResizeAllowed t d (ht_used d 0 + 1)
                         then dictExpand t can_resize d (ht_used d 0 + 1) else Some (d, True));
             Some (d, True) }
      else Some (d, False))"

definition u_dictExpandIfNeeded ::
  "('s, 'k, 'v) dictType \<Rightarrow> dictResizeEnable \<Rightarrow> ('s, 'v) dict \<Rightarrow> (('s, 'v) dict \<times> bool) option" where
  "u_dictExpandIfNeeded t can_resize d =
     (if pauseAutoResize d > 0 then Some (d, False) else dictExpandIfNeeded t can_resize d)"

definition dictShrinkIfNeeded ::
  "('s, 'k, 'v) dictType \<Rightarrow> dictResizeEnable \<Rightarrow> ('s, 'v) dict \<Rightarrow> (('s, 'v) dict \<times> bool) option" where
  "dictShrinkIfNeeded t can_resize d =
     (if dictIsRehashing d then Some (d, True)
      else if DICTHT_SIZE (ht_size_exp d 0) \<le> DICT_HT_INITIAL_SIZE then Some (d, True)
      else if (can_resize = DICT_RESIZE_ENABLE \<and>
               ht_used d 0 * HASHTABLE_MIN_FILL \<le> DICTHT_SIZE (ht_size_exp d 0)) \<or>
              (can_resize \<noteq> DICT_RESIZE_FORBID \<and>
               ht_used d 0 * HASHTABLE_MIN_FILL * dict_force_resize_ratio \<le> DICTHT_SIZE (ht_size_exp d 0)) then
        do { (d, _) \<leftarrow> (if dictTypeResizeAllowed t d (ht_used d 0)
                         then dictShrink t can_resize d (ht_used d 0) else Some (d, True));
             Some (d, True) }
      else Some (d, False))"

definition u_dictShrinkIfNeeded ::
  "('s, 'k, 'v) dictType \<Rightarrow> dictResizeEnable \<Rightarrow> ('s, 'v) dict \<Rightarrow> ('s, 'v) dict option" where
  "u_dictShrinkIfNeeded t can_resize d =
     (if pauseAutoResize d > 0 then Some d
      else do { (d, _) \<leftarrow> dictShrinkIfNeeded t can_resize d; Some d })"

section \<open>Lookup and update\<close>

definition key_matches :: "('s, 'k, 'v) dictType \<Rightarrow> 'k \<Rightarrow> 's \<Rightarrow> bool" where
  "key_matches t key s \<longleftrightarrow> key = keyFromStoredKey t s \<or> keyCompare t key (keyFromStoredKey t s)"

text \<open>The loop along one chain: the position of the first entry with the key.\<close>

fun find_pos :: "('s, 'k, 'v) dictType \<Rightarrow> 'k \<Rightarrow> ('s \<times> 'v) list \<Rightarrow> nat option" where
  "find_pos t key [] = None"
| "find_pos t key (de # b) = (if key_matches t key (fst de) then Some 0 else map_option Suc (find_pos t key b))"

text \<open>The loop over the tables: table 0 is skipped when the bucket \<open>idx\<close> has been rehashed, table 1 is searched
  while rehashing. The result is the link of the key and the last bucket index.\<close>

definition search_tables ::
  "('s, 'k, 'v) dictType \<Rightarrow> ('s, 'v) dict \<Rightarrow> nat \<Rightarrow> nat \<Rightarrow> 'k \<Rightarrow> (link option \<times> nat) option" where
  "search_tables t d hash idx key =
     (let look = (\<lambda>i. let j = hash AND DICTHT_SIZE_MASK (ht_size_exp d i)
                       in do { b \<leftarrow> bucket_at d i j; Some (map_option (\<lambda>p. (i, j, p)) (find_pos t key b), j) })
      in do { (r, idx) \<leftarrow> (if int idx < rehashidx d then Some (None, idx) else look 0);
              (if r \<noteq> None \<or> \<not> dictIsRehashing d then Some (r, idx) else look 1) })"

definition entry_at :: "('s, 'v) dict \<Rightarrow> link \<Rightarrow> ('s \<times> 'v) option" where
  "entry_at d l = (case l of (i, j, p) \<Rightarrow>
     do { b \<leftarrow> bucket_at d i j; (if p < length b then Some (b ! p) else None) })"

definition set_entry :: "('s, 'v) dict \<Rightarrow> link \<Rightarrow> 's \<times> 'v \<Rightarrow> ('s, 'v) dict option" where
  "set_entry d l e = (case l of (i, j, p) \<Rightarrow>
     do { b \<leftarrow> bucket_at d i j; (if p < length b then set_bucket d i j (b[p := e]) else None) })"

definition dictSetVal :: "('s, 'k, 'v) dictType \<Rightarrow> ('s, 'v) dict \<Rightarrow> link \<Rightarrow> 'v \<Rightarrow> ('s, 'v) dict option" where
  "dictSetVal t d l val =
     do { guard (\<not> no_value t); (k, _) \<leftarrow> entry_at d l; set_entry d l (k, valDup t val) }"

text \<open>The result is the link of the existing entry, or the bucket for the new one.\<close>

definition dictFindLinkForInsert ::
  "('s, 'k, 'v) dictType \<Rightarrow> dictResizeEnable \<Rightarrow> ('s, 'v) dict \<Rightarrow> 'k \<Rightarrow> (('s, 'v) dict \<times> (link + nat \<times> nat)) option" where
  "dictFindLinkForInsert t can_resize d key =
     (let hash = dictGetHash t key; idx = hash AND DICTHT_SIZE_MASK (ht_size_exp d 0)
      in do { d \<leftarrow> u_dictRehashStepIfNeeded t can_resize d idx;
              (d, _) \<leftarrow> u_dictExpandIfNeeded t can_resize d;
              (r, idx) \<leftarrow> search_tables t d hash idx key;
              Some (d, case r of Some l \<Rightarrow> Inl l
                       | None \<Rightarrow> Inr (if dictIsRehashing d then 1 else 0, idx)) })"

text \<open>The value of a new entry is indeterminate (\<open>junk\<close>) until it is set.\<close>

definition dictInsertKeyAtLink ::
  "'v \<Rightarrow> ('s, 'v) dict \<Rightarrow> 's \<Rightarrow> nat \<times> nat \<Rightarrow> (('s, 'v) dict \<times> link) option" where
  "dictInsertKeyAtLink junk d key bucket = (case bucket of (i, j) \<Rightarrow>
     (let htidx = (if dictIsRehashing d then 1 else 0)
      in do { guard (i = htidx \<and> j \<le> DICTHT_SIZE_MASK (ht_size_exp d htidx));
              b \<leftarrow> bucket_at d htidx j;
              d \<leftarrow> set_bucket d htidx j ((key, junk) # b);
              Some (d\<lparr>ht_used := (ht_used d)(htidx := ht_used d htidx + 1)\<rparr>, (htidx, j, 0)) }))"

text \<open>The result is \<open>Inl\<close> the existing entry (\<^verbatim>\<open>NULL\<close> is returned) or \<open>Inr\<close> the new one.\<close>

definition dictAddRaw ::
  "('s, 'k, 'v) dictType \<Rightarrow> dictResizeEnable \<Rightarrow> 'v \<Rightarrow> ('s, 'v) dict \<Rightarrow> 's \<Rightarrow> (('s, 'v) dict \<times> (link + link)) option" where
  "dictAddRaw t can_resize junk d key =
     do { (d, position) \<leftarrow> dictFindLinkForInsert t can_resize d (keyFromStoredKey t key);
          (case position of Inl existing \<Rightarrow> Some (d, Inl existing)
           | Inr bucket \<Rightarrow> do { (d, l) \<leftarrow> dictInsertKeyAtLink junk d (keyDup t key) bucket; Some (d, Inr l) }) }"

definition dictAdd ::
  "('s, 'k, 'v) dictType \<Rightarrow> dictResizeEnable \<Rightarrow> 'v \<Rightarrow> ('s, 'v) dict \<Rightarrow> 's \<Rightarrow> 'v \<Rightarrow> (('s, 'v) dict \<times> bool) option" where
  "dictAdd t can_resize junk d key val =
     do { (d, r) \<leftarrow> dictAddRaw t can_resize junk d key;
          (case r of Inl _ \<Rightarrow> Some (d, False)
           | Inr l \<Rightarrow> (if \<not> no_value t then do { d \<leftarrow> dictSetVal t d l val; Some (d, True) }
                        else Some (d, True))) }"

definition dictReplace ::
  "('s, 'k, 'v) dictType \<Rightarrow> dictResizeEnable \<Rightarrow> 'v \<Rightarrow> ('s, 'v) dict \<Rightarrow> 's \<Rightarrow> 'v \<Rightarrow> (('s, 'v) dict \<times> bool) option" where
  "dictReplace t can_resize junk d key val =
     do { (d, r) \<leftarrow> dictAddRaw t can_resize junk d key;
          (case r of
             Inr l \<Rightarrow> do { d \<leftarrow> dictSetVal t d l val; Some (d, True) }
           | Inl existing \<Rightarrow>
               do { (_, oldval) \<leftarrow> entry_at d existing;
                    d \<leftarrow> dictSetVal t d existing val;
                    Some (emit (FreeVal oldval) d, False) }) }"

definition dictAddOrFind ::
  "('s, 'k, 'v) dictType \<Rightarrow> dictResizeEnable \<Rightarrow> 'v \<Rightarrow> ('s, 'v) dict \<Rightarrow> 's \<Rightarrow> (('s, 'v) dict \<times> link) option" where
  "dictAddOrFind t can_resize junk d key =
     do { (d, r) \<leftarrow> dictAddRaw t can_resize junk d key; Some (d, case r of Inl l \<Rightarrow> l | Inr l \<Rightarrow> l) }"

definition dictFreeUnlinkedEntry :: "('s, 'v) dict \<Rightarrow> ('s \<times> 'v) option \<Rightarrow> ('s, 'v) dict" where
  "dictFreeUnlinkedEntry d he = (case he of None \<Rightarrow> d | Some (k, v) \<Rightarrow> emit (FreeVal v) (emit (FreeKey k) d))"

definition unlink_at :: "('s, 'v) dict \<Rightarrow> link \<Rightarrow> ('s, 'v) dict option" where
  "unlink_at d l = (case l of (i, j, p) \<Rightarrow>
     do { b \<leftarrow> bucket_at d i j; set_bucket d i j (take p b @ drop (Suc p) b) })"

definition dictGenericDelete ::
  "('s, 'k, 'v) dictType \<Rightarrow> dictResizeEnable \<Rightarrow> ('s, 'v) dict \<Rightarrow> 'k \<Rightarrow> bool \<Rightarrow> (('s, 'v) dict \<times> ('s \<times> 'v) option) option" where
  "dictGenericDelete t can_resize d key nofree =
     (if dictSize d = 0 then Some (d, None)
      else (let h = dictGetHash t key; idx = h AND DICTHT_SIZE_MASK (ht_size_exp d 0)
            in do { d \<leftarrow> u_dictRehashStepIfNeeded t can_resize d idx;
                    (r, _) \<leftarrow> search_tables t d h idx key;
                    (case r of None \<Rightarrow> Some (d, None)
                     | Some l \<Rightarrow>
                         do { he \<leftarrow> entry_at d l;
                              d \<leftarrow> unlink_at d l;
                              let d = (if \<not> nofree then dictFreeUnlinkedEntry d (Some he) else d);
                              let d = d\<lparr>ht_used := (ht_used d)(fst l := ht_used d (fst l) - 1)\<rparr>;
                              d \<leftarrow> u_dictShrinkIfNeeded t can_resize d;
                              Some (d, Some he) }) }))"

definition dictDelete ::
  "('s, 'k, 'v) dictType \<Rightarrow> dictResizeEnable \<Rightarrow> ('s, 'v) dict \<Rightarrow> 'k \<Rightarrow> (('s, 'v) dict \<times> bool) option" where
  "dictDelete t can_resize d key = do { (d, he) \<leftarrow> dictGenericDelete t can_resize d key False; Some (d, he \<noteq> None) }"

definition dictUnlink ::
  "('s, 'k, 'v) dictType \<Rightarrow> dictResizeEnable \<Rightarrow> ('s, 'v) dict \<Rightarrow> 'k \<Rightarrow> (('s, 'v) dict \<times> ('s \<times> 'v) option) option" where
  "dictUnlink t can_resize d key = dictGenericDelete t can_resize d key True"

text \<open>With \<open>want_bucket\<close> the bucket is reported too, and the search is made even when the dictionary is empty.\<close>

definition dictFindLinkInternal ::
  "('s, 'k, 'v) dictType \<Rightarrow> dictResizeEnable \<Rightarrow> ('s, 'v) dict \<Rightarrow> 'k \<Rightarrow> bool
     \<Rightarrow> (('s, 'v) dict \<times> link option \<times> (nat \<times> nat) option) option" where
  "dictFindLinkInternal t can_resize d key want_bucket =
     (if \<not> want_bucket \<and> dictSize d = 0 then Some (d, None, None)
      else (let hash = dictGetHash t key; idx = hash AND DICTHT_SIZE_MASK (ht_size_exp d 0)
            in do { d \<leftarrow> u_dictRehashStepIfNeeded t can_resize d idx;
                    (r, idx) \<leftarrow> search_tables t d hash idx key;
                    let bucket = (case r of Some (i, j, _) \<Rightarrow> (i, j)
                                  | None \<Rightarrow> (if dictIsRehashing d then 1 else 0, idx));
                    Some (d, r, if want_bucket then Some bucket else None) }))"

definition dictFindLink ::
  "('s, 'k, 'v) dictType \<Rightarrow> dictResizeEnable \<Rightarrow> ('s, 'v) dict \<Rightarrow> 'k \<Rightarrow> bool
     \<Rightarrow> (('s, 'v) dict \<times> link option \<times> (nat \<times> nat) option) option" where
  "dictFindLink t can_resize d key want_bucket =
     (if dictSize d = 0 then Some (d, None, None) else dictFindLinkInternal t can_resize d key want_bucket)"

text \<open>The found entry itself.\<close>

definition dictFind ::
  "('s, 'k, 'v) dictType \<Rightarrow> dictResizeEnable \<Rightarrow> ('s, 'v) dict \<Rightarrow> 'k \<Rightarrow> (('s, 'v) dict \<times> ('s \<times> 'v) option) option" where
  "dictFind t can_resize d key =
     do { (d, link, _) \<leftarrow> dictFindLink t can_resize d key False;
          (case link of None \<Rightarrow> Some (d, None) | Some l \<Rightarrow> do { e \<leftarrow> entry_at d l; Some (d, Some e) }) }"

definition dictFetchValue ::
  "('s, 'k, 'v) dictType \<Rightarrow> dictResizeEnable \<Rightarrow> ('s, 'v) dict \<Rightarrow> 'k \<Rightarrow> (('s, 'v) dict \<times> 'v option) option" where
  "dictFetchValue t can_resize d key =
     do { (d, he) \<leftarrow> dictFind t can_resize d key; Some (d, map_option snd he) }"

text \<open>\<open>link\<close> is the argument \<^verbatim>\<open>*link\<close>: for a new item the bucket, otherwise the entry's link, \<open>None\<close> for \<^verbatim>\<open>NULL\<close>.\<close>

definition dictSetKeyAtLink_new ::
  "('s, 'k, 'v) dictType \<Rightarrow> dictResizeEnable \<Rightarrow> 'v \<Rightarrow> ('s, 'v) dict \<Rightarrow> 's \<Rightarrow> (nat \<times> nat) option \<Rightarrow> ('s, 'v) dict option" where
  "dictSetKeyAtLink_new t can_resize junk d key link =
     (let snap0 = ht_size_exp d 0; snap1 = ht_size_exp d 1
      in do { (d, _) \<leftarrow> dictExpandIfNeeded t can_resize d;
              (d, link) \<leftarrow> (if snap0 \<noteq> ht_size_exp d 0 \<or> snap1 \<noteq> ht_size_exp d 1 \<or> link = None
                 then do { (d, found, bucket) \<leftarrow> dictFindLinkInternal t can_resize d (keyFromStoredKey t key) True;
                           guard (bucket \<noteq> None);
                           guard (found = None);
                           Some (d, bucket) }
                 else Some (d, link));
              b \<leftarrow> link;
              (d, _) \<leftarrow> dictInsertKeyAtLink junk d (keyDup t key) b;
              Some d })"

text \<open>Here a null link makes the code look up the stored key itself, not the key extracted from it; \<open>as_key\<close> is what
  a stored key's pointer reads as when it is taken for a lookup key.\<close>

definition dictSetKeyAtLink_existing ::
  "('s, 'k, 'v) dictType \<Rightarrow> ('s \<Rightarrow> 'k) \<Rightarrow> dictResizeEnable \<Rightarrow> ('s, 'v) dict \<Rightarrow> 's \<Rightarrow> link option \<Rightarrow> ('s, 'v) dict option" where
  "dictSetKeyAtLink_existing t as_key can_resize d key link =
     do { (d, link) \<leftarrow> (if link = None
             then do { (d, found, _) \<leftarrow> dictFindLink t can_resize d (as_key key) False;
                       guard (found \<noteq> None); Some (d, found) }
             else Some (d, link));
          l \<leftarrow> link;
          (_, v) \<leftarrow> entry_at d l;
          set_entry d l (keyDup t key, v) }"

definition dictTwoPhaseUnlinkFind ::
  "('s, 'k, 'v) dictType \<Rightarrow> dictResizeEnable \<Rightarrow> ('s, 'v) dict \<Rightarrow> 'k \<Rightarrow> (('s, 'v) dict \<times> link option) option" where
  "dictTwoPhaseUnlinkFind t can_resize d key =
     (if dictSize d = 0 then Some (d, None)
      else do {
        d \<leftarrow> (if dictIsRehashing d then u_dictRehashStep t can_resize d else Some d);
        let h = dictGetHash t key;
        (r, _) \<leftarrow> search_tables t d h (h AND DICTHT_SIZE_MASK (ht_size_exp d 0)) key;
        Some (if r \<noteq> None then dictPauseRehashing d else d, r) })"

definition dictTwoPhaseUnlinkFree ::
  "('s, 'k, 'v) dictType \<Rightarrow> dictResizeEnable \<Rightarrow> ('s, 'v) dict \<Rightarrow> link option \<Rightarrow> ('s, 'v) dict option" where
  "dictTwoPhaseUnlinkFree t can_resize d plink = (case plink of None \<Rightarrow> Some d
     | Some l \<Rightarrow>
         do { de \<leftarrow> entry_at d l;
              let d = d\<lparr>ht_used := (ht_used d)(fst l := ht_used d (fst l) - 1)\<rparr>;
              d \<leftarrow> unlink_at d l;
              let d = dictFreeUnlinkedEntry d (Some de);
              d \<leftarrow> u_dictShrinkIfNeeded t can_resize d;
              Some (dictResumeRehashing d) })"

section \<open>Clearing\<close>

fun clear_chain :: "nat \<Rightarrow> ('s \<times> 'v) list \<Rightarrow> ('s, 'v) dict \<Rightarrow> ('s, 'v) dict" where
  "clear_chain htidx [] d = d"
| "clear_chain htidx ((k, v) # rest) d =
     clear_chain htidx rest
       ((emit (FreeVal v) (emit (FreeKey k) d))\<lparr>ht_used := (ht_used d)(htidx := ht_used d htidx - 1)\<rparr>)"

function clear_loop :: "nat \<Rightarrow> bool \<Rightarrow> nat \<Rightarrow> ('s, 'v) dict \<Rightarrow> nat \<Rightarrow> ('s, 'v) dict option" where
  "clear_loop htidx callback n d i =
     (if i < n \<and> ht_used d htidx > 0 then
        (let d = (if callback \<and> i \<noteq> 0 \<and> i AND 65535 = 0 then emit ClearCallback d else d)
         in do { b \<leftarrow> bucket_at d htidx i;
                 clear_loop htidx callback n (clear_chain htidx b d) (i + 1) })
      else Some d)"
  by pat_completeness auto
termination by (relation "measure (\<lambda>(_, _, n, _, i). n - i)") auto

declare clear_loop.simps [simp del]

definition u_dictClear :: "('s, 'v) dict \<Rightarrow> nat \<Rightarrow> bool \<Rightarrow> ('s, 'v) dict option" where
  "u_dictClear d htidx callback =
     do { d \<leftarrow> clear_loop htidx callback (DICTHT_SIZE (ht_size_exp d htidx)) d 0;
          Some (u_dictReset d htidx) }"

definition dictEmpty :: "('s, 'v) dict \<Rightarrow> bool \<Rightarrow> ('s, 'v) dict option" where
  "dictEmpty d callback =
     (let d = (if dictIsRehashing d then rehashing_completed d else d);
          d = emit (BucketChanged (- int (dictBuckets d))) d
      in do { d \<leftarrow> u_dictClear d 0 callback;
              d \<leftarrow> u_dictClear d 1 callback;
              Some (d\<lparr>rehashidx := -1, pauserehash := 0, pauseAutoResize := 0\<rparr>) })"

text \<open>What is left is the log; the structure itself is freed.\<close>

definition dictRelease :: "('s, 'v) dict \<Rightarrow> ('s, 'v) dictEvent list option" where
  "dictRelease d =
     (let d = (if dictIsRehashing d then rehashing_completed d else d);
          d = emit OnDictRelease (emit (BucketChanged (- int (dictBuckets d))) d)
      in do { d \<leftarrow> u_dictClear d 0 False; d \<leftarrow> u_dictClear d 1 False; Some (d_log d) })"

definition dictRehashingInfo :: "('s, 'v) dict \<Rightarrow> (nat \<times> nat) option" where
  "dictRehashingInfo d =
     do { guard (dictIsRehashing d); Some (DICTHT_SIZE (ht_size_exp d 0), DICTHT_SIZE (ht_size_exp d 1)) }"

section \<open>Scanning\<close>

text \<open>Bit reversal with a shrinking shift \<open>s\<close>; the loop halves \<open>s\<close> from 64 down to 1.\<close>

function rev_loop :: "nat \<Rightarrow> u64 \<Rightarrow> u64 \<Rightarrow> u64" where
  "rev_loop s msk v =
     (if s div 2 > 0 then
        (let s = s div 2;
             msk = msk XOR push_bit s msk;
             v = (drop_bit s v AND msk) OR (push_bit s v AND NOT msk)
         in rev_loop s msk v)
      else v)"
  by pat_completeness auto
termination by (relation "measure (\<lambda>(s, _, _). s)") auto

declare rev_loop.simps [simp del]

definition dict_rev :: "u64 \<Rightarrow> u64" where
  "dict_rev v = rev_loop 64 (NOT 0) v"

text \<open>The cursor increment \<^verbatim>\<open>v |= ~m; v = rev(v); v++; v = rev(v)\<close>.\<close>

definition next_cursor :: "u64 \<Rightarrow> u64 \<Rightarrow> u64" where
  "next_cursor m v = dict_rev (dict_rev (v OR NOT m) + 1)"

text \<open>The entries passed to the scan function, which is taken to leave the dictionary alone.\<close>

partial_function (option) scan_expansions ::
  "('s, 'v) dict \<Rightarrow> nat \<Rightarrow> u64 \<Rightarrow> u64 \<Rightarrow> u64 \<Rightarrow> (u64 \<times> ('s \<times> 'v) list) option" where
  "scan_expansions d htidx m0 m1 v =
     do { b \<leftarrow> bucket_at d htidx (unat (v AND m1));
          let v = next_cursor m1 v;
          (if v AND (m0 XOR m1) \<noteq> 0
           then do { (v, es) \<leftarrow> scan_expansions d htidx m0 m1 v; Some (v, b @ es) }
           else Some (v, b)) }"

definition dictScan :: "('s, 'v) dict \<Rightarrow> u64 \<Rightarrow> (u64 \<times> ('s \<times> 'v) list) option" where
  "dictScan d v =
     (if dictSize d = 0 then Some (0, [])
      else if \<not> dictIsRehashing d then
        (let m0 = of_nat (DICTHT_SIZE_MASK (ht_size_exp d 0))
         in do { b \<leftarrow> bucket_at d 0 (unat (v AND m0)); Some (next_cursor m0 v, b) })
      else
        (let swap = (DICTHT_SIZE (ht_size_exp d 0) > DICTHT_SIZE (ht_size_exp d 1));
             htidx0 = (if swap then 1 else 0); htidx1 = (if swap then 0 else 1);
             m0 = of_nat (DICTHT_SIZE_MASK (ht_size_exp d htidx0));
             m1 = of_nat (DICTHT_SIZE_MASK (ht_size_exp d htidx1))
         in do { b \<leftarrow> bucket_at d htidx0 (unat (v AND m0));
                 (v, es) \<leftarrow> scan_expansions d htidx1 m0 m1 v;
                 Some (v, b @ es) }))"

section \<open>Invariant and abstraction\<close>

text \<open>What the code relies on of the type's functions: comparison decides equality of keys, and duplicating a
  stored key keeps its key.\<close>

definition type_ok :: "('s, 'k, 'v) dictType \<Rightarrow> bool" where
  "type_ok t \<longleftrightarrow> (\<forall>a b. keyCompare t a b \<longleftrightarrow> a = b) \<and> (\<forall>s. keyFromStoredKey t (keyDup t s) = keyFromStoredKey t s)"

definition ekey :: "('s, 'k, 'v) dictType \<Rightarrow> 's \<times> 'v \<Rightarrow> 'k" where
  "ekey t e = keyFromStoredKey t (fst e)"

definition all_entries :: "('s, 'v) dict \<Rightarrow> ('s \<times> 'v) list" where
  "all_entries d = concat (ht_table d 0) @ concat (ht_table d 1)"

text \<open>Entry \<open>e\<close> is in the bucket its hash selects.\<close>

definition placed :: "('s, 'k, 'v) dictType \<Rightarrow> int \<Rightarrow> ('s \<times> 'v) list list \<Rightarrow> bool" where
  "placed t e tbl \<longleftrightarrow>
     (\<forall>j < length tbl. \<forall>x \<in> set (tbl ! j). dictGetHash t (ekey t x) AND DICTHT_SIZE_MASK e = j)"

definition table_ok :: "('s, 'k, 'v) dictType \<Rightarrow> ('s, 'v) dict \<Rightarrow> nat \<Rightarrow> bool" where
  "table_ok t d i \<longleftrightarrow>
     length (ht_table d i) = DICTHT_SIZE (ht_size_exp d i) \<and>
     (ht_size_exp d i = -1 \<or> 2 \<le> ht_size_exp d i \<and> ht_size_exp d i \<le> 60) \<and>
     placed t (ht_size_exp d i) (ht_table d i) \<and>
     ht_used d i = length (concat (ht_table d i))"

definition dict_inv :: "('s, 'k, 'v) dictType \<Rightarrow> ('s, 'v) dict \<Rightarrow> bool" where
  "dict_inv t d \<longleftrightarrow>
     table_ok t d 0 \<and> table_ok t d 1 \<and> distinct (map (ekey t) (all_entries d)) \<and>
     (if rehashidx d = -1 then ht_size_exp d 1 = -1
      else 0 \<le> rehashidx d \<and> rehashidx d \<le> int (length (ht_table d 0)) \<and>
           ht_size_exp d 0 \<noteq> -1 \<and> ht_size_exp d 1 \<noteq> -1 \<and>
           (\<forall>j < nat (rehashidx d). ht_table d 0 ! j = []))"

definition dict_map :: "('s, 'k, 'v) dictType \<Rightarrow> ('s, 'v) dict \<Rightarrow> 'k \<Rightarrow> ('s \<times> 'v) option" where
  "dict_map t d = map_of (map (\<lambda>e. (ekey t e, e)) (all_entries d))"

text \<open>A step that only moves entries around.\<close>

definition moves :: "('s, 'k, 'v) dictType \<Rightarrow> ('s, 'v) dict \<Rightarrow> ('s, 'v) dict \<Rightarrow> bool" where
  "moves t d d' \<longleftrightarrow> dict_inv t d' \<and> mset (all_entries d') = mset (all_entries d) \<and>
     pauserehash d' = pauserehash d \<and> pauseAutoResize d' = pauseAutoResize d \<and>
     (ht_size_exp d 0 \<noteq> -1 \<longrightarrow> ht_size_exp d' 0 \<noteq> -1)"

lemma moves_refl: "dict_inv t d \<Longrightarrow> moves t d d"
  by (simp add: moves_def)

lemma moves_trans: "moves t d d' \<Longrightarrow> moves t d' d'' \<Longrightarrow> moves t d d''"
  by (simp add: moves_def)

lemma moves_inv: "moves t d d' \<Longrightarrow> dict_inv t d'"
  by (simp add: moves_def)

section \<open>Tables\<close>

declare One_nat_def [simp del]

lemma empty_bucket_update [simp]: "tbl ! j = [] \<Longrightarrow> tbl[i := []] ! j = []"
  by (cases "j = i"; cases "i < length tbl") (auto simp: list_update_beyond)

lemma and_mask: "(n :: nat) AND DICTHT_SIZE_MASK e = n mod DICTHT_SIZE e" if "e \<noteq> -1"
  using that take_bit_eq_mask [of "nat e" n] by (simp add: DICTHT_SIZE_MASK_def DICTHT_SIZE_def take_bit_eq_mod mask_eq_exp_minus_1)

lemma DICTHT_SIZE_pos: "0 < DICTHT_SIZE e \<longleftrightarrow> e \<noteq> -1"
  by (simp add: DICTHT_SIZE_def)

lemma and_mask_less: "e \<noteq> -1 \<Longrightarrow> n AND DICTHT_SIZE_MASK e < DICTHT_SIZE e"
  by (simp add: and_mask DICTHT_SIZE_pos)

lemma shrink_index:
  assumes "e1 \<le> e0" "0 \<le> e1" "h AND DICTHT_SIZE_MASK e0 = j"
  shows "j AND DICTHT_SIZE_MASK e1 = h AND DICTHT_SIZE_MASK e1"
proof -
  have "(2 :: nat) ^ nat e1 dvd 2 ^ nat e0" using assms(1,2) by (intro le_imp_power_dvd) simp
  then have "h mod 2 ^ nat e0 mod 2 ^ nat e1 = h mod 2 ^ nat e1" by (rule mod_mod_cancel)
  moreover have "e1 \<noteq> -1" "e0 \<noteq> -1" using assms by auto
  ultimately show ?thesis using assms(3) by (auto simp: and_mask DICTHT_SIZE_def)
qed

lemma mset_concat_update:
  "i < length xs \<Longrightarrow> mset (concat (xs[i := b])) + mset (xs ! i) = mset (concat xs) + mset b"
proof (induction xs arbitrary: i)
  case (Cons x xs)
  then show ?case by (cases i) (auto simp: ac_simps)
qed simp

lemma placed_update:
  "placed t e tbl \<Longrightarrow> \<forall>x \<in> set b. dictGetHash t (ekey t x) AND DICTHT_SIZE_MASK e = j \<Longrightarrow> placed t e (tbl[j := b])"
  by (simp add: placed_def) (metis nth_list_update_eq nth_list_update_neq)

lemma length_concat_update:
  "i < length xs \<Longrightarrow> length (concat (xs[i := b])) + length (xs ! i) = length (concat xs) + length b"
  using mset_concat_update [of i xs b] by (metis size_mset size_union)

text \<open>The parts of the state that moving entries leaves alone.\<close>

definition same_frame :: "('s, 'v) dict \<Rightarrow> ('s, 'v) dict \<Rightarrow> bool" where
  "same_frame d d' \<longleftrightarrow> ht_size_exp d' = ht_size_exp d \<and> rehashidx d' = rehashidx d \<and>
     pauserehash d' = pauserehash d \<and> pauseAutoResize d' = pauseAutoResize d"

lemma rehash_chain_ok:
  "0 \<le> ht_size_exp d 0 \<Longrightarrow> 0 \<le> ht_size_exp d 1 \<Longrightarrow> length (ht_table d 1) = DICTHT_SIZE (ht_size_exp d 1) \<Longrightarrow>
   placed t (ht_size_exp d 1) (ht_table d 1) \<Longrightarrow>
   \<forall>x \<in> set b. dictGetHash t (ekey t x) AND DICTHT_SIZE_MASK (ht_size_exp d 0) = idx \<Longrightarrow>
   \<exists>d'. rehash_chain t idx b d = Some d' \<and> same_frame d d' \<and> ht_table d' 0 = ht_table d 0 \<and>
     length (ht_table d' 1) = length (ht_table d 1) \<and> placed t (ht_size_exp d 1) (ht_table d' 1) \<and>
     mset (concat (ht_table d' 1)) = mset (concat (ht_table d 1)) + mset b \<and>
     ht_used d' 0 = ht_used d 0 - length b \<and> ht_used d' 1 = ht_used d 1 + length b"
proof (induction b arbitrary: d)
  case Nil
  then show ?case by (simp add: same_frame_def)
next
  case (Cons x b)
  let ?e0 = "ht_size_exp d 0" and ?e1 = "ht_size_exp d 1"
  define h where "h = (if ?e1 > ?e0 then dictGetHash t (keyFromStoredKey t (fst x)) AND DICTHT_SIZE_MASK ?e1
    else idx AND DICTHT_SIZE_MASK ?e1)"
  have h: "dictGetHash t (ekey t x) AND DICTHT_SIZE_MASK ?e1 = h"
    using shrink_index [of ?e1 ?e0 "dictGetHash t (ekey t x)" idx] Cons.prems by (auto simp: h_def ekey_def)
  have lt: "h < length (ht_table d 1)" using and_mask_less [of ?e1] h Cons.prems by (metis (no_types, lifting) not_one_le_zero add.inverse_neutral less_le_not_le neg_0_le_iff_le)
  let ?tbl = "(ht_table d 1)[h := x # ht_table d 1 ! h]"
  let ?d = "d\<lparr>ht_table := (ht_table d)(1 := ?tbl), ht_used := (ht_used d)(0 := ht_used d 0 - 1, 1 := ht_used d 1 + 1)\<rparr>"
  have step: "rehash_chain t idx (x # b) d = rehash_chain t idx b ?d"
    by (simp only: rehash_chain.simps Let_def h_def [symmetric]) (simp add: bucket_at_def set_bucket_def lt)
  have "placed t ?e1 ?tbl" using Cons.prems(4) h lt by (intro placed_update) (auto simp: placed_def)
  then obtain d' where d': "rehash_chain t idx b ?d = Some d'" "same_frame ?d d'" "ht_table d' 0 = ht_table ?d 0"
    "length (ht_table d' 1) = length (ht_table ?d 1)" "placed t (ht_size_exp ?d 1) (ht_table d' 1)"
    "mset (concat (ht_table d' 1)) = mset (concat (ht_table ?d 1)) + mset b"
    "ht_used d' 0 = ht_used ?d 0 - length b" "ht_used d' 1 = ht_used ?d 1 + length b"
    using Cons.IH [of ?d] Cons.prems by auto
  moreover have "mset (concat ?tbl) = mset (concat (ht_table d 1)) + {#x#}"
    using mset_concat_update [OF lt, of "x # ht_table d 1 ! h"] by simp
  ultimately show ?case unfolding step by (intro exI [of _ d']) (auto simp: same_frame_def)
qed

lemma inv_exps: "dict_inv t d \<Longrightarrow> dictIsRehashing d \<Longrightarrow> 0 \<le> ht_size_exp d 0 \<and> 0 \<le> ht_size_exp d 1"
  by (auto simp: dict_inv_def dictIsRehashing_def table_ok_def)

lemma distinct_mset_map: "mset xs = mset ys \<Longrightarrow> distinct (map f xs) \<longleftrightarrow> distinct (map f ys)"
  by (metis mset_eq_imp_distinct_iff mset_map)

lemma rehashEntries_ok:
  assumes inv: "dict_inv t d" and r: "dictIsRehashing d" and idx: "idx < length (ht_table d 0)"
  shows "\<exists>d'. rehashEntriesInBucketAtIndex t d idx = Some d' \<and> moves t d d' \<and> same_frame d d' \<and>
    ht_table d' 0 = (ht_table d 0)[idx := []]"
proof -
  let ?b = "ht_table d 0 ! idx"
  have ok: "table_ok t d 0" "table_ok t d 1" using inv by (auto simp: dict_inv_def)
  obtain d1 where d1: "rehash_chain t idx ?b d = Some d1" "same_frame d d1" "ht_table d1 0 = ht_table d 0"
    "length (ht_table d1 1) = length (ht_table d 1)" "placed t (ht_size_exp d 1) (ht_table d1 1)"
    "mset (concat (ht_table d1 1)) = mset (concat (ht_table d 1)) + mset ?b"
    "ht_used d1 0 = ht_used d 0 - length ?b" "ht_used d1 1 = ht_used d 1 + length ?b"
    using rehash_chain_ok [of d t ?b idx] ok inv_exps [OF inv r] idx by (auto simp: table_ok_def placed_def)
  let ?d = "d1\<lparr>ht_table := (ht_table d1)(0 := (ht_table d 0)[idx := []])\<rparr>"
  have run: "rehashEntriesInBucketAtIndex t d idx = Some ?d"
    using idx d1 by (simp add: rehashEntriesInBucketAtIndex_def bucket_at_def set_bucket_def)
  have m0: "mset (concat ((ht_table d 0)[idx := []])) + mset ?b = mset (concat (ht_table d 0))"
    using mset_concat_update [OF idx, of "[]"] by simp
  then have l0: "length (concat ((ht_table d 0)[idx := []])) = length (concat (ht_table d 0)) - length ?b"
    by (metis add_diff_cancel_right' size_mset size_union)
  have l1: "length (concat (ht_table d1 1)) = length (concat (ht_table d 1)) + length ?b"
    using d1(6) by (metis size_mset size_union)
  have "table_ok t ?d 0" using ok(1) d1 l0 by (auto simp: table_ok_def same_frame_def intro: placed_update)
  moreover have "table_ok t ?d 1" using ok(2) d1 l1 by (auto simp: table_ok_def same_frame_def)
  moreover have ms: "mset (all_entries ?d) = mset (all_entries d)"
    using m0 d1(6) by (simp add: all_entries_def ac_simps)
  moreover have "distinct (map (ekey t) (all_entries ?d))"
    using inv distinct_mset_map [OF ms, of "ekey t"] by (simp add: dict_inv_def)
  ultimately have "dict_inv t ?d"
    using inv r d1(2) by (auto simp: dict_inv_def dictIsRehashing_def same_frame_def)
  then show ?thesis using run ms d1(2) by (auto simp: moves_def same_frame_def)
qed

lemma concat_empty_conv: "length (concat tbl) = 0 \<longleftrightarrow> (\<forall>j < length tbl. tbl ! j = [])"
  by (simp add: all_set_conv_all_nth)

lemma checkCompleted_ok:
  assumes inv: "dict_inv t d" and r: "dictIsRehashing d"
  shows "moves t d (fst (dictCheckRehashingCompleted d))"
    and "snd (dictCheckRehashingCompleted d) \<longleftrightarrow> ht_used d 0 = 0"
    and "ht_used d 0 \<noteq> 0 \<Longrightarrow> fst (dictCheckRehashingCompleted d) = d"
    and "ht_used d 0 = 0 \<Longrightarrow> \<not> dictIsRehashing (fst (dictCheckRehashingCompleted d)) \<and>
      ht_size_exp (fst (dictCheckRehashingCompleted d)) 0 = ht_size_exp d 1"
proof -
  show "snd (dictCheckRehashingCompleted d) \<longleftrightarrow> ht_used d 0 = 0"
    by (simp add: dictCheckRehashingCompleted_def Let_def)
  show same: "ht_used d 0 \<noteq> 0 \<Longrightarrow> fst (dictCheckRehashingCompleted d) = d"
    by (simp add: dictCheckRehashingCompleted_def)
  show "ht_used d 0 = 0 \<Longrightarrow> \<not> dictIsRehashing (fst (dictCheckRehashingCompleted d)) \<and>
      ht_size_exp (fst (dictCheckRehashingCompleted d)) 0 = ht_size_exp d 1"
    by (simp add: dictCheckRehashingCompleted_def dictIsRehashing_def emit_def u_dictReset_def Let_def)
  show "moves t d (fst (dictCheckRehashingCompleted d))"
  proof (cases "ht_used d 0 = 0")
    case True
    have "ht_size_exp d 1 \<noteq> -1" using inv r by (auto simp: dict_inv_def dictIsRehashing_def)
    moreover have "concat (ht_table d 0) = []" using True inv by (simp add: dict_inv_def table_ok_def)
    ultimately have "moves t d (fst (dictCheckRehashingCompleted d))"
      using True inv unfolding moves_def dict_inv_def
      by (simp add: dictCheckRehashingCompleted_def emit_def u_dictReset_def Let_def table_ok_def all_entries_def
          placed_def DICTHT_SIZE_def)
    then show ?thesis .
  qed (use inv same in \<open>simp add: moves_refl\<close>)
qed

definition skipped :: "('s \<times> 'v) list list \<Rightarrow> nat \<Rightarrow> nat \<Rightarrow> nat \<Rightarrow> bool \<Rightarrow> bool" where
  "skipped tbl j i i' stop \<longleftrightarrow> i \<le> i' \<and> i' \<le> j \<and> (\<forall>l. i \<le> l \<and> l < i' \<longrightarrow> tbl ! l = []) \<and> (stop \<longrightarrow> i < i')"

lemma skipped_step: "skipped tbl j (i + 1) i' stop \<Longrightarrow> tbl ! i = [] \<Longrightarrow> skipped tbl j i i' stop"
proof -
  assume a: "skipped tbl j (i + 1) i' stop" "tbl ! i = []"
  have "tbl ! l = []" if "i \<le> l" "l < i'" for l
    using a that by (cases "l = i") (auto simp: skipped_def)
  then show ?thesis using a by (simp add: skipped_def)
qed

lemma skip_empty_here:
  "i < length tbl \<Longrightarrow> tbl ! i \<noteq> [] \<Longrightarrow> skip_empty tbl i ev = Some (i, ev, False) \<and> (i \<le> j \<longrightarrow> skipped tbl j i i False)"
  by (subst skip_empty.simps) (simp add: skipped_def, meson leD)

lemma skip_empty_ok:
  "j < length tbl \<Longrightarrow> i \<le> j \<Longrightarrow> tbl ! j \<noteq> [] \<Longrightarrow>
   \<exists>i' ev' stop. skip_empty tbl i ev = Some (i', ev', stop) \<and> skipped tbl j i i' stop"
proof (induction "j - i" arbitrary: i ev)
  case 0
  then have "i = j" by simp
  then show ?case using 0 skip_empty_here [of i tbl ev] by (intro exI [of _ j] exI [of _ ev] exI [of _ False]) simp
next
  case (Suc n)
  show ?case
  proof (cases "tbl ! i \<noteq> []")
    case True
    then show ?thesis using Suc.prems skip_empty_here [of i tbl ev]
      by (intro exI [of _ i] exI [of _ ev] exI [of _ False]) simp
  next
    case False
    then have ij: "i + 1 \<le> j" using Suc.prems Suc.hyps(2) by simp
    show ?thesis
    proof (cases "ev = 1")
      case True
      have "tbl ! l = []" if "i \<le> l" "l < i + 1" for l
      proof -
        have "l = i" using that by linarith
        then show ?thesis using False by simp
      qed
      then have "skipped tbl j i (i + 1) True" using ij by (auto simp: skipped_def)
      then show ?thesis using True False Suc.prems by (subst skip_empty.simps) auto
    next
      case ev: False
      have "n = j - (i + 1)" using Suc.hyps(2) by simp
      then obtain i' ev' stop where "skip_empty tbl (i + 1) (ev - 1) = Some (i', ev', stop)" "skipped tbl j (i + 1) i' stop"
        using Suc.hyps(1) [of "i + 1" "ev - 1"] Suc.prems ij by blast
      then show ?thesis using ev False Suc.prems skipped_step [of tbl j i i' stop] by (subst skip_empty.simps) simp
    qed
  qed
qed

lemma dictRehash_loop_ok:
  "dict_inv t d \<Longrightarrow> dictIsRehashing d \<Longrightarrow>
   \<exists>d' stop. dictRehash_loop t n ev d = Some (d', stop) \<and> moves t d d' \<and> dictIsRehashing d' \<and>
     ht_size_exp d' = ht_size_exp d \<and> rehashidx d \<le> rehashidx d' \<and> (stop \<longrightarrow> rehashidx d < rehashidx d') \<and>
     (0 < n \<and> ht_used d 0 \<noteq> 0 \<longrightarrow> rehashidx d < rehashidx d')"
proof (induction n arbitrary: d ev)
  case 0
  then show ?case by (auto simp: moves_refl)
next
  case (Suc n)
  show ?case
  proof (cases "ht_used d 0 = 0")
    case True
    then show ?thesis using Suc.prems by (auto simp: moves_refl)
  next
    case False
    let ?tbl = "ht_table d 0" and ?i = "nat (rehashidx d)"
    have inv: "0 \<le> rehashidx d" "\<forall>j < ?i. ?tbl ! j = []" "length ?tbl = DICTHT_SIZE (ht_size_exp d 0)"
      using Suc.prems by (auto simp: dict_inv_def dictIsRehashing_def table_ok_def)
    have "length (concat ?tbl) \<noteq> 0" using False Suc.prems by (simp add: dict_inv_def table_ok_def)
    then obtain j where j: "j < length ?tbl" "?tbl ! j \<noteq> []" unfolding concat_empty_conv by blast
    have ij: "?i \<le> j" using j inv(2) by (meson not_le)
    then obtain i' ev' stop where s: "skip_empty ?tbl ?i ev = Some (i', ev', stop)" "?i \<le> i'" "i' \<le> j"
      "\<forall>l. ?i \<le> l \<and> l < i' \<longrightarrow> ?tbl ! l = []" "stop \<longrightarrow> ?i < i'"
      using skip_empty_ok [OF j(1) _ j(2), of ?i ev] by (auto simp: skipped_def)
    let ?d = "d\<lparr>rehashidx := int i'\<rparr>"
    have g: "int (DICTHT_SIZE (ht_size_exp d 0)) > rehashidx d \<and> rehashidx d \<ge> 0" using ij j(1) inv by linarith
    have empty: "?tbl ! l = []" if "l < i'" for l using that s(4) inv(2) by (meson not_le)
    have invd: "moves t d ?d" "dictIsRehashing ?d"
      using Suc.prems s(3) j(1) empty
      by (auto simp: moves_def dict_inv_def dictIsRehashing_def table_ok_def all_entries_def)
    show ?thesis
    proof (cases stop)
      case True
      then show ?thesis using False g s invd inv(1) by (auto simp: Let_def)
    next
      case nostop: False
      obtain d1 where d1: "rehashEntriesInBucketAtIndex t ?d i' = Some d1" "moves t ?d d1" "same_frame ?d d1"
        "ht_table d1 0 = ?tbl[i' := []]"
        using rehashEntries_ok [of t ?d i'] invd s(3) j(1) by (auto dest: moves_inv)
      let ?d1 = "d1\<lparr>rehashidx := rehashidx d1 + 1\<rparr>"
      have "\<forall>l < Suc i'. ?tbl[i' := []] ! l = []"
        using empty s(3) j(1) by (auto simp: less_Suc_eq)
      then have m1: "moves t d1 ?d1" "dictIsRehashing ?d1"
        using d1 s(3) j(1)
        by (auto simp: moves_def dict_inv_def dictIsRehashing_def table_ok_def all_entries_def same_frame_def nat_add_distrib)
      then obtain d' stop' where d': "dictRehash_loop t n ev' ?d1 = Some (d', stop')" "moves t ?d1 d'" "dictIsRehashing d'"
        "ht_size_exp d' = ht_size_exp ?d1" "rehashidx ?d1 \<le> rehashidx d'"
        using Suc.IH [of ?d1 ev'] by (auto dest: moves_inv)
      have "dictRehash_loop t (Suc n) ev d = Some (d', stop')"
        using False g s(1) nostop d1(1) d'(1) by (simp add: Let_def)
      moreover have "moves t d d'" using invd(1) d1(2) m1(1) d'(2) by (meson moves_trans)
      moreover have "rehashidx d < rehashidx d'" using d'(5) d1(3) s(2) inv(1) by (simp add: same_frame_def)
      ultimately show ?thesis using d'(3,4) d1(3) by (auto simp: same_frame_def)
    qed
  qed
qed

lemma dictRehash_ok:
  assumes inv: "dict_inv t d" and n: "n * 10 < 2 ^ 31"
  shows "\<exists>d' more. dictRehash t can_resize d n = Some (d', more) \<and> moves t d d' \<and>
    (dictIsRehashing d' \<longrightarrow> dictIsRehashing d \<and> ht_size_exp d' = ht_size_exp d) \<and>
    (rehash_blocked can_resize d \<longrightarrow> d' = d \<and> \<not> more) \<and>
    (\<not> rehash_blocked can_resize d \<and> \<not> more \<longrightarrow> \<not> dictIsRehashing d') \<and>
    (more \<and> 0 < n \<longrightarrow> dictIsRehashing d \<and> dictIsRehashing d' \<and> ht_size_exp d' = ht_size_exp d \<and> rehashidx d < rehashidx d')"
proof (cases "rehash_blocked can_resize d")
  case True
  then show ?thesis using inv n by (auto simp: dictRehash_def moves_refl)
next
  case False
  then have r: "dictIsRehashing d" by (auto simp: rehash_blocked_def Let_def)
  obtain d1 stop where d1: "dictRehash_loop t n (n * 10) d = Some (d1, stop)" "moves t d d1" "dictIsRehashing d1"
    "ht_size_exp d1 = ht_size_exp d" "stop \<longrightarrow> rehashidx d < rehashidx d1"
    "0 < n \<and> ht_used d 0 \<noteq> 0 \<longrightarrow> rehashidx d < rehashidx d1"
    using dictRehash_loop_ok [OF inv r, of n "n * 10"] by blast
  have inv1: "dict_inv t d1" using d1(2) by (rule moves_inv)
  show ?thesis
  proof (cases stop)
    case True
    then show ?thesis using False d1 r n by (auto simp: dictRehash_def)
  next
    case nostop: False
    let ?c = "dictCheckRehashingCompleted d1"
    have run: "dictRehash t can_resize d n = Some (fst ?c, \<not> snd ?c)"
      using False d1(1) nostop n by (simp add: dictRehash_def split_beta)
    have "moves t d (fst ?c)" using d1(2) checkCompleted_ok(1) [OF inv1 d1(3)] by (rule moves_trans)
    moreover have "fst ?c = d1 \<and> ht_used d1 0 \<noteq> 0" if "\<not> snd ?c"
      using that checkCompleted_ok(2,3) [OF inv1 d1(3)] by simp
    moreover have "\<not> dictIsRehashing (fst ?c)" if "snd ?c"
      using that checkCompleted_ok(2,4) [OF inv1 d1(3)] by simp
    moreover have "ht_used d 0 \<noteq> 0" if "0 < n" "ht_used d1 0 \<noteq> 0"
    proof
      assume "ht_used d 0 = 0"
      then have "d1 = d" using d1(1) that(1) by (cases n) auto
      then show False using that(2) \<open>ht_used d 0 = 0\<close> by simp
    qed
    ultimately show ?thesis using run d1 r False by (cases "snd ?c") auto
  qed
qed

lemma blocked_cong: "ht_size_exp d' = ht_size_exp d \<Longrightarrow> dictIsRehashing d' = dictIsRehashing d \<Longrightarrow>
  rehash_blocked can_resize d' = rehash_blocked can_resize d"
  by (simp add: rehash_blocked_def)

lemma inv_rehash_bound: "dict_inv t d \<Longrightarrow> dictIsRehashing d \<Longrightarrow> rehashidx d \<le> int (DICTHT_SIZE (ht_size_exp d 0))"
  by (auto simp: dict_inv_def dictIsRehashing_def table_ok_def)

lemma full_rehash_ok:
  "dict_inv t d \<Longrightarrow> \<exists>d'. full_rehash t can_resize d = Some d' \<and> moves t d d' \<and>
    (if rehash_blocked can_resize d then d' = d else \<not> dictIsRehashing d')"
proof (induction "nat (int (DICTHT_SIZE (ht_size_exp d 0)) - rehashidx d)" arbitrary: d rule: less_induct)
  case less
  obtain d1 more where d1: "dictRehash t can_resize d 1000 = Some (d1, more)" "moves t d d1"
    "more \<longrightarrow> dictIsRehashing d \<and> dictIsRehashing d1 \<and> ht_size_exp d1 = ht_size_exp d \<and> rehashidx d < rehashidx d1"
    "rehash_blocked can_resize d \<longrightarrow> d1 = d \<and> \<not> more" "\<not> rehash_blocked can_resize d \<and> \<not> more \<longrightarrow> \<not> dictIsRehashing d1"
    using dictRehash_ok [OF less.prems, of 1000 can_resize] by auto
  show ?case
  proof (cases more)
    case True
    have "rehashidx d1 \<le> int (DICTHT_SIZE (ht_size_exp d1 0))"
      using d1(2,3) True by (intro inv_rehash_bound) (auto dest: moves_inv)
    then have "nat (int (DICTHT_SIZE (ht_size_exp d1 0)) - rehashidx d1) < nat (int (DICTHT_SIZE (ht_size_exp d 0)) - rehashidx d)"
      using d1(3) True by simp
    then obtain d' where d': "full_rehash t can_resize d1 = Some d'" "moves t d1 d'"
      "if rehash_blocked can_resize d1 then d' = d1 else \<not> dictIsRehashing d'"
      using less.hyps [of d1] d1(2) by (auto dest: moves_inv)
    have "\<not> rehash_blocked can_resize d1" "\<not> rehash_blocked can_resize d"
      using d1(3,4) True blocked_cong [of d1 d can_resize] by auto
    then show ?thesis using d' d1 True by (subst full_rehash.simps) (auto intro: moves_trans)
  next
    case False
    then show ?thesis using d1 by (subst full_rehash.simps) auto
  qed
qed

lemma bitlen_less: "n < 2 ^ bitlen n"
proof (induction n rule: bitlen.induct)
  case (1 n)
  then show ?case by (cases "n = 0") (auto simp: bitlen.simps [of n])
qed

lemma bitlen_le: "n < 2 ^ k \<Longrightarrow> bitlen n \<le> k"
proof (induction k arbitrary: n)
  case 0
  then show ?case by (simp add: bitlen.simps)
next
  case (Suc k)
  then have "n div 2 < 2 ^ k" by (simp add: less_mult_imp_div_less mult.commute)
  then show ?case using Suc.IH [of "n div 2"] by (subst bitlen.simps) simp
qed

lemma bitlen_ge: "2 ^ k \<le> n \<Longrightarrow> k < bitlen n"
  using bitlen_less [of n] by (metis le_less_trans power_less_imp_less_exp one_less_numeral_iff semiring_norm(76))

lemma nextExp_range: "2 \<le> dictNextExpForSize sz \<and> dictNextExpForSize sz \<le> 63"
proof (cases "sz \<le> 4 \<or> sz \<ge> 2 ^ 63 - 1")
  case True
  then show ?thesis by (auto simp: dictNextExpForSize_def DICT_HT_INITIAL_SIZE_def DICT_HT_INITIAL_EXP_def)
next
  case False
  then have "bitlen (sz - 1) \<le> 63" "2 < bitlen (sz - 1)"
    using bitlen_le [of "sz - 1" 63] bitlen_ge [of 2 "sz - 1"] by auto
  then show ?thesis using False by (simp add: dictNextExpForSize_def DICT_HT_INITIAL_SIZE_def)
qed

lemma nextExp_ge: "sz \<le> 2 ^ 63 \<Longrightarrow> sz \<le> DICTHT_SIZE (dictNextExpForSize sz)"
  using bitlen_less [of "sz - 1"]
  by (auto simp: dictNextExpForSize_def DICTHT_SIZE_def DICT_HT_INITIAL_SIZE_def DICT_HT_INITIAL_EXP_def)

lemma new_exp_small: "0 \<le> e \<Longrightarrow> e \<le> 63 \<Longrightarrow> \<not> DICTHT_SIZE e * 8 mod 2 ^ 64 < DICTHT_SIZE e \<Longrightarrow> e \<le> 60"
proof (rule ccontr)
  assume a: "0 \<le> e" "e \<le> 63" "\<not> DICTHT_SIZE e * 8 mod 2 ^ 64 < DICTHT_SIZE e" "\<not> e \<le> 60"
  then have "e = 61 \<or> e = 62 \<or> e = 63" by linarith
  then show False using a(3) by (auto simp: DICTHT_SIZE_def)
qed

text \<open>Replacing the second table by a fresh one and starting to rehash.\<close>

definition start_rehash :: "int \<Rightarrow> ('s, 'v) dict \<Rightarrow> ('s, 'v) dict" where
  "start_rehash e d = d\<lparr>ht_size_exp := (ht_size_exp d)(1 := e), ht_used := (ht_used d)(1 := 0),
     ht_table := (ht_table d)(1 := replicate (DICTHT_SIZE e) []), rehashidx := 0\<rparr>"

lemma start_rehash_moves:
  assumes "dict_inv t d" "\<not> dictIsRehashing d" "2 \<le> e" "e \<le> 60" "ht_size_exp d 0 \<noteq> -1"
  shows "moves t d (start_rehash e d)"
proof -
  have t1: "ht_table d 1 = []" using assms(1,2) by (auto simp: dict_inv_def dictIsRehashing_def table_ok_def DICTHT_SIZE_def)
  have "concat (replicate n []) = []" for n by simp
  then show ?thesis
    using assms t1 by (auto simp: moves_def dict_inv_def start_rehash_def dictIsRehashing_def table_ok_def all_entries_def placed_def)
qed

lemma moves_log: "moves t d d' \<Longrightarrow> moves t d (d'\<lparr>d_log := l\<rparr>)"
  by (auto simp: moves_def dict_inv_def table_ok_def all_entries_def)

lemma moves_emit: "moves t d d' \<Longrightarrow> moves t d (emit e d')"
  by (simp add: emit_def moves_log)

lemma fresh_table_moves:
  assumes inv: "dict_inv t d" and nr: "\<not> dictIsRehashing d" and e: "2 \<le> e" "e \<le> 60"
    and empty: "ht_table d 0 = [] \<or> ht_used d 0 = 0"
  shows "moves t d ((u_dictReset (d\<lparr>ht_size_exp := (ht_size_exp d)(1 := e', 0 := e), ht_used := (ht_used d)(1 := u, 0 := 0),
    ht_table := (ht_table d)(1 := x, 0 := replicate (DICTHT_SIZE e) []), rehashidx := 0, d_log := l\<rparr>) 1)\<lparr>rehashidx := -1\<rparr>)"
proof -
  have "concat (ht_table d 0) = []" "ht_table d 1 = []"
    using inv nr empty by (auto simp: dict_inv_def dictIsRehashing_def table_ok_def DICTHT_SIZE_def)
  moreover have "concat (replicate n []) = []" for n by simp
  ultimately show ?thesis using inv nr e
    by (auto simp: moves_def dict_inv_def u_dictReset_def dictIsRehashing_def table_ok_def all_entries_def placed_def DICTHT_SIZE_def)
qed

lemma dictResize_ok:
  assumes inv: "dict_inv t d" and nr: "\<not> dictIsRehashing d"
  shows "\<exists>d' ok mf. u_dictResize t can_resize calloc_ok d sz = Some (d', ok, mf) \<and> moves t d d' \<and> rehashidx d' \<le> 0 \<and>
    (ok \<and> ht_size_exp d 0 = -1 \<longrightarrow> ht_size_exp d' 0 = dictNextExpForSize sz)"
proof -
  let ?e = "dictNextExpForSize sz"
  let ?n = "DICTHT_SIZE ?e"
  show ?thesis
  proof (cases "?n < sz \<or> ?n * 8 mod 2 ^ 64 < ?n \<or> ?e = ht_size_exp d 0 \<or> \<not> calloc_ok")
    case True
    then show ?thesis using nr moves_refl [OF inv] by (auto simp: u_dictResize_def Let_def dictIsRehashing_def)
  next
    case False
    have e: "2 \<le> ?e" "?e \<le> 60" using nextExp_range [of sz] new_exp_small [of ?e] False by auto
    let ?d = "emit (BucketChanged (int ?n)) (rehashing_started (start_rehash ?e d))"
    show ?thesis
    proof (cases "ht_table d 0 = [] \<or> ht_used d 0 = 0")
      case True
      then show ?thesis
        using False nr fresh_table_moves [OF inv nr e True, where e' = ?e and u = 0 and x = "replicate ?n []"]
        by (simp add: u_dictResize_def Let_def emit_def u_dictReset_def) blast
    next
      case nonempty: False
      then have e0: "ht_size_exp d 0 \<noteq> -1" using inv by (auto simp: dict_inv_def table_ok_def DICTHT_SIZE_def)
      have m: "moves t d ?d" using start_rehash_moves [OF inv nr e e0] by (simp add: moves_emit)
      obtain d' where d': "full_rehash t can_resize ?d = Some d'" "moves t ?d d'"
        "if rehash_blocked can_resize ?d then d' = ?d else \<not> dictIsRehashing d'"
        using full_rehash_ok [of t ?d can_resize] m by (auto dest: moves_inv)
      have r0: "rehashidx ?d = 0" by (simp add: emit_def start_rehash_def)
      then have "rehashidx d' \<le> 0" using d'(3) by (auto simp: dictIsRehashing_def split: if_splits)
      note d' = d' this
      have run: "u_dictResize t can_resize calloc_ok d sz =
          (if force_full_rehash t then do { d \<leftarrow> full_rehash t can_resize ?d; Some (d, True, False) } else Some (?d, True, False))"
        using False nr nonempty by (simp add: u_dictResize_def Let_def emit_def start_rehash_def)
      show ?thesis using run m d'(1,2,4) e0 r0 by (cases "force_full_rehash t") (auto intro: moves_trans)
    qed
  qed
qed

lemma u_dictExpand_ok:
  assumes inv: "dict_inv t d"
  shows "\<exists>d' ok mf. u_dictExpand t can_resize calloc_ok d sz = Some (d', ok, mf) \<and> moves t d d' \<and>
    (\<not> dictIsRehashing d \<longrightarrow> rehashidx d' \<le> 0)"
proof (cases "dictIsRehashing d \<or> ht_used d 0 > sz \<or> DICTHT_SIZE (ht_size_exp d 0) \<ge> sz")
  case True
  then show ?thesis using moves_refl [OF inv] by (simp add: u_dictExpand_def dictIsRehashing_def) blast
next
  case False
  then obtain d' ok mf where "u_dictResize t can_resize calloc_ok d sz = Some (d', ok, mf)" "moves t d d'" "rehashidx d' \<le> 0"
    using dictResize_ok [OF inv, of can_resize calloc_ok sz] by blast
  then show ?thesis using False by (simp add: u_dictExpand_def)
qed

lemma dictExpand_ok:
  assumes "dict_inv t d"
  shows "\<exists>d' ok. dictExpand t can_resize d sz = Some (d', ok) \<and> moves t d d' \<and> (\<not> dictIsRehashing d \<longrightarrow> rehashidx d' \<le> 0)"
proof -
  obtain d' ok mf where "u_dictExpand t can_resize True d sz = Some (d', ok, mf)" "moves t d d'"
    "\<not> dictIsRehashing d \<longrightarrow> rehashidx d' \<le> 0"
    using u_dictExpand_ok [OF assms] by blast
  then show ?thesis by (simp add: dictExpand_def)
qed

lemma dictTryExpand_ok:
  assumes "dict_inv t d"
  shows "\<exists>d' ok. dictTryExpand t can_resize calloc_ok d sz = Some (d', ok) \<and> moves t d d'"
proof -
  obtain d' ok mf where "u_dictExpand t can_resize calloc_ok d sz = Some (d', ok, mf)" "moves t d d'"
    using u_dictExpand_ok [OF assms] by blast
  then show ?thesis by (simp add: dictTryExpand_def)
qed

lemma dictShrink_ok:
  assumes inv: "dict_inv t d"
  shows "\<exists>d' ok. dictShrink t can_resize d sz = Some (d', ok) \<and> moves t d d'"
proof (cases "dictIsRehashing d \<or> ht_used d 0 > sz \<or> DICTHT_SIZE (ht_size_exp d 0) \<le> sz")
  case True
  then show ?thesis using moves_refl [OF inv] by (simp add: dictShrink_def) blast
next
  case False
  then obtain d' ok mf where "u_dictResize t can_resize True d sz = Some (d', ok, mf)" "moves t d d'"
    using dictResize_ok [OF inv, of can_resize True sz] by blast
  then show ?thesis using False by (simp add: dictShrink_def)
qed

lemma dictExpandIfNeeded_ok:
  assumes inv: "dict_inv t d"
  shows "\<exists>d' ok. dictExpandIfNeeded t can_resize d = Some (d', ok) \<and> moves t d d' \<and> ht_size_exp d' 0 \<noteq> -1 \<and>
    (if dictIsRehashing d then d' = d else rehashidx d' \<le> 0)"
proof (cases "dictIsRehashing d \<or> DICTHT_SIZE (ht_size_exp d 0) \<noteq> 0")
  case True
  then have e0: "ht_size_exp d 0 \<noteq> -1" using inv by (auto simp: dict_inv_def dictIsRehashing_def DICTHT_SIZE_def)
  obtain d' ok where "dictExpand t can_resize d (ht_used d 0 + 1) = Some (d', ok)" "moves t d d'"
    "\<not> dictIsRehashing d \<longrightarrow> rehashidx d' \<le> 0"
    using dictExpand_ok [OF inv] by blast
  then show ?thesis using True e0 moves_refl [OF inv]
    by (auto simp: dictExpandIfNeeded_def moves_def dictIsRehashing_def)
next
  case False
  then have e0: "ht_size_exp d 0 = -1" by (simp add: DICTHT_SIZE_def split: if_splits)
  have "ht_used d 0 = 0" using inv e0 by (auto simp: dict_inv_def table_ok_def DICTHT_SIZE_def)
  then have "u_dictExpand t can_resize True d DICT_HT_INITIAL_SIZE = u_dictResize t can_resize True d DICT_HT_INITIAL_SIZE"
    using False by (simp add: u_dictExpand_def DICT_HT_INITIAL_SIZE_def)
  moreover obtain d' ok mf where d': "u_dictResize t can_resize True d DICT_HT_INITIAL_SIZE = Some (d', ok, mf)" "moves t d d'"
    "rehashidx d' \<le> 0"
    "ok \<and> ht_size_exp d 0 = -1 \<longrightarrow> ht_size_exp d' 0 = dictNextExpForSize DICT_HT_INITIAL_SIZE"
    using dictResize_ok [OF inv, of can_resize True DICT_HT_INITIAL_SIZE] False by blast
  moreover have ok
    using d'(1) e0 False \<open>ht_used d 0 = 0\<close>
    by (auto simp: u_dictResize_def dictNextExpForSize_def DICT_HT_INITIAL_SIZE_def DICT_HT_INITIAL_EXP_def DICTHT_SIZE_def Let_def emit_def)
  ultimately show ?thesis using False e0 nextExp_range [of DICT_HT_INITIAL_SIZE]
    by (auto simp: dictExpandIfNeeded_def dictExpand_def)
qed

lemma dictShrinkIfNeeded_ok:
  assumes inv: "dict_inv t d"
  shows "\<exists>d' ok. dictShrinkIfNeeded t can_resize d = Some (d', ok) \<and> moves t d d'"
  using dictShrink_ok [OF inv, of can_resize "ht_used d 0"] moves_refl [OF inv]
  by (auto simp: dictShrinkIfNeeded_def)

lemma u_dictShrinkIfNeeded_ok:
  assumes inv: "dict_inv t d"
  shows "\<exists>d'. u_dictShrinkIfNeeded t can_resize d = Some d' \<and> moves t d d'"
  using dictShrinkIfNeeded_ok [OF inv, of can_resize] moves_refl [OF inv]
  by (auto simp: u_dictShrinkIfNeeded_def)

lemma u_dictExpandIfNeeded_ok:
  assumes inv: "dict_inv t d" and "ht_size_exp d 0 \<noteq> -1 \<or> pauseAutoResize d \<le> 0"
  shows "\<exists>d' ok. u_dictExpandIfNeeded t can_resize d = Some (d', ok) \<and> moves t d d' \<and> ht_size_exp d' 0 \<noteq> -1 \<and>
    (if dictIsRehashing d then d' = d else rehashidx d' \<le> 0)"
  using dictExpandIfNeeded_ok [OF inv, of can_resize] moves_refl [OF inv] assms(2)
  by (auto simp: u_dictExpandIfNeeded_def dictIsRehashing_def)

lemma u_dictRehashStep_ok:
  assumes inv: "dict_inv t d"
  shows "\<exists>d'. u_dictRehashStep t can_resize d = Some d' \<and> moves t d d'"
proof -
  obtain d' more where "dictRehash t can_resize d 1 = Some (d', more)" "moves t d d'"
    using dictRehash_ok [OF inv, of 1 can_resize] by auto
  then show ?thesis using moves_refl [OF inv] by (simp add: u_dictRehashStep_def)
qed

lemma stepIfNeeded_ok:
  assumes inv: "dict_inv t d" and idx: "idx = h AND DICTHT_SIZE_MASK (ht_size_exp d 0)"
  shows "\<exists>d'. u_dictRehashStepIfNeeded t can_resize d idx = Some d' \<and> moves t d d' \<and>
    (dictIsRehashing d' \<longrightarrow> dictIsRehashing d \<and> ht_size_exp d' = ht_size_exp d)"
proof (cases "dictIsRehashing d \<and> pauserehash d = 0")
  case False
  then show ?thesis using moves_refl [OF inv] by (auto simp: u_dictRehashStepIfNeeded_def)
next
  case True
  obtain d1 more where d1: "dictRehash t can_resize d 1 = Some (d1, more)" "moves t d d1"
    "dictIsRehashing d1 \<longrightarrow> dictIsRehashing d \<and> ht_size_exp d1 = ht_size_exp d"
    using dictRehash_ok [OF inv, of 1 can_resize] by auto
  have lt: "idx < length (ht_table d 0)"
    using inv True and_mask_less [of "ht_size_exp d 0" h] idx by (auto simp: dict_inv_def dictIsRehashing_def table_ok_def)
  obtain d2 where d2: "rehashEntriesInBucketAtIndex t d idx = Some d2" "moves t d d2" "same_frame d d2"
    using rehashEntries_ok [OF inv _ lt] True by blast
  have r2: "dictIsRehashing d2" "dict_inv t d2" using d2 True by (auto simp: same_frame_def dictIsRehashing_def dest: moves_inv)
  let ?c = "fst (dictCheckRehashingCompleted d2)"
  have "moves t d ?c" using d2(2) checkCompleted_ok(1) [OF r2(2,1)] by (rule moves_trans)
  moreover have "dictIsRehashing ?c \<longrightarrow> ht_size_exp ?c = ht_size_exp d"
    using checkCompleted_ok(3,4) [OF r2(2,1)] d2(3) by (cases "ht_used d2 0 = 0") (auto simp: same_frame_def)
  ultimately show ?thesis using True d1 d2(1) lt moves_refl [OF inv]
    by (auto simp: u_dictRehashStepIfNeeded_def u_dictBucketRehash_def bucket_at_def)
qed

end
