(* ===== verification/Dict_Ops.thy ===== *)
theory Dict_Ops
  imports Dict
begin

unbundle bit_operations_syntax

text \<open>
  Lookup, insertion and deletion of \<^verbatim>\<open>src/dict.c\<close> against the finite map a dictionary stands for: every operation
  keeps the invariant of the two tables whatever the state of the incremental rehashing, and a session of calls
  answers as the map does.
\<close>

section \<open>The map of a dictionary\<close>

lemma dict_map_iff:
  assumes "dict_inv t d"
  shows "dict_map t d k = Some e \<longleftrightarrow> e \<in> set (all_entries d) \<and> ekey t e = k"
proof -
  have "distinct (map fst (map (\<lambda>e. (ekey t e, e)) (all_entries d)))" using assms by (simp add: dict_inv_def comp_def)
  then show ?thesis by (auto simp: dict_map_def map_of_eq_Some_iff)
qed

lemma dict_map_None_iff: "dict_map t d k = None \<longleftrightarrow> (\<forall>e \<in> set (all_entries d). ekey t e \<noteq> k)"
  by (auto simp: dict_map_def map_of_eq_None_iff image_iff)

lemma set_of_mset: "mset xs = mset ys \<Longrightarrow> set xs = set ys"
  by (metis set_mset_mset)

lemma dict_map_ext:
  assumes "dict_inv t d" "\<And>k e. m k = Some e \<longleftrightarrow> e \<in> set (all_entries d) \<and> ekey t e = k"
  shows "dict_map t d = m"
proof
  fix k
  show "dict_map t d k = m k"
    using dict_map_iff [OF assms(1), of k] assms(2) [of k] by (metis not_None_eq)
qed

lemma moves_map: "dict_inv t d \<Longrightarrow> moves t d d' \<Longrightarrow> dict_map t d' = dict_map t d"
  by (rule dict_map_ext) (auto simp: moves_def dict_map_iff dest: set_of_mset)

lemma dict_inv_distinct: "dict_inv t d \<Longrightarrow> distinct (map (ekey t) (all_entries d))"
  by (simp add: dict_inv_def)

lemma distinct_mset_cons: "mset xs = add_mset e (mset ys) \<Longrightarrow> distinct (map f xs) \<Longrightarrow> f e \<notin> f ` set ys \<and> distinct (map f ys)"
  using distinct_mset_map [of xs "e # ys" f] by simp

lemma map_insert:
  assumes "dict_inv t d" "dict_inv t d'" "mset (all_entries d') = add_mset e (mset (all_entries d))"
  shows "dict_map t d' = (dict_map t d)(ekey t e \<mapsto> e)"
proof (rule dict_map_ext [OF assms(2)])
  fix k x
  have "set (all_entries d') = insert e (set (all_entries d))" using assms(3) by (metis set_mset_add_mset_insert set_mset_mset)
  moreover have "ekey t e \<notin> ekey t ` set (all_entries d)"
    using distinct_mset_cons [OF assms(3) dict_inv_distinct [OF assms(2)]] by simp
  ultimately show "((dict_map t d)(ekey t e \<mapsto> e)) k = Some x \<longleftrightarrow> x \<in> set (all_entries d') \<and> ekey t x = k"
    using dict_map_iff [OF assms(1)] by (auto simp: image_iff)
qed

lemma map_delete:
  assumes "dict_inv t d" "dict_inv t d'" "mset (all_entries d) = add_mset e (mset (all_entries d'))"
  shows "dict_map t d' = (dict_map t d)(ekey t e := None)"
proof -
  have "ekey t e \<notin> ekey t ` set (all_entries d')"
    using distinct_mset_cons [OF assms(3) dict_inv_distinct [OF assms(1)]] by simp
  then have "dict_map t d' (ekey t e) = None" by (simp add: dict_map_None_iff) (metis imageI)
  then show ?thesis using map_insert [OF assms(2,1,3)] by (simp add: fun_upd_idem)
qed

lemma map_replace:
  assumes "dict_inv t d" "dict_inv t d'" "ekey t e' = ekey t e"
    "mset (all_entries d) = add_mset e M" "mset (all_entries d') = add_mset e' M"
  shows "dict_map t d' = (dict_map t d)(ekey t e' \<mapsto> e')"
proof (rule dict_map_ext [OF assms(2)])
  fix k x
  obtain ys where ys: "M = mset ys" using ex_mset by metis
  have "set (all_entries d') = insert e' (set ys)" "set (all_entries d) = insert e (set ys)"
    using assms(4,5) ys by (metis set_mset_add_mset_insert set_mset_mset)+
  moreover have "ekey t e \<notin> ekey t ` set ys"
    using distinct_mset_cons [of _ e ys] assms(4) dict_inv_distinct [OF assms(1)] ys by blast
  ultimately show "((dict_map t d)(ekey t e' \<mapsto> e')) k = Some x \<longleftrightarrow> x \<in> set (all_entries d') \<and> ekey t x = k"
    using dict_map_iff [OF assms(1)] assms(3) by (auto simp: image_iff)
qed

lemma dictSize_map: "dict_inv t d \<Longrightarrow> dictSize d = card (dom (dict_map t d))"
proof -
  assume inv: "dict_inv t d"
  have "dom (dict_map t d) = ekey t ` set (all_entries d)" by (auto simp: dict_map_def dom_map_of_conv_image_fst image_image)
  then have "card (dom (dict_map t d)) = length (map (ekey t) (all_entries d))"
    using dict_inv_distinct [OF inv] by (metis distinct_card list.set_map)
  then show ?thesis using inv by (simp add: dict_inv_def table_ok_def all_entries_def dictSize_def)
qed

lemma dictSize_0_map: "dict_inv t d \<Longrightarrow> dictSize d = 0 \<Longrightarrow> dict_map t d = Map.empty"
  by (auto simp: dict_inv_def table_ok_def all_entries_def dictSize_def dict_map_def)

section \<open>Links and search\<close>

definition link_ok :: "('s, 'v) dict \<Rightarrow> link \<Rightarrow> bool" where
  "link_ok d l = (case l of (i, j, p) \<Rightarrow> i \<le> 1 \<and> j < length (ht_table d i) \<and> p < length (ht_table d i ! j))"

definition link_entry :: "('s, 'v) dict \<Rightarrow> link \<Rightarrow> 's \<times> 'v" where
  "link_entry d l = (case l of (i, j, p) \<Rightarrow> ht_table d i ! j ! p)"

lemma entry_at_ok: "link_ok d l \<Longrightarrow> entry_at d l = Some (link_entry d l)"
  by (cases l) (simp add: link_ok_def link_entry_def entry_at_def bucket_at_def)

lemma table_index: "i \<le> 1 \<Longrightarrow> i = 0 \<or> i = (1 :: nat)"
  by auto

lemma link_entry_in: "link_ok d l \<Longrightarrow> link_entry d l \<in> set (all_entries d)"
proof (cases l)
  case (fields i j p)
  assume "link_ok d l"
  then have "link_entry d l \<in> set (concat (ht_table d i))" "i = 0 \<or> i = 1"
    using fields by (auto simp: link_ok_def link_entry_def intro!: bexI [of _ "ht_table d i ! j"])
  then show ?thesis by (auto simp: all_entries_def)
qed

lemma find_pos_Some: "type_ok t \<Longrightarrow> find_pos t key b = Some p \<Longrightarrow> p < length b \<and> ekey t (b ! p) = key"
  by (induction b arbitrary: p) (auto simp: key_matches_def type_ok_def ekey_def split: if_splits)

lemma find_pos_None: "type_ok t \<Longrightarrow> find_pos t key b = None \<Longrightarrow> \<forall>e \<in> set b. ekey t e \<noteq> key"
  by (induction b) (auto simp: key_matches_def type_ok_def ekey_def split: if_splits)

text \<open>The chain a key hashes to in a table is the only one that can hold it.\<close>

lemma only_chain:
  assumes "table_ok t d i" "e \<in> set (concat (ht_table d i))"
  shows "e \<in> set (ht_table d i ! (dictGetHash t (ekey t e) AND DICTHT_SIZE_MASK (ht_size_exp d i)))"
  using assms by (fastforce simp: table_ok_def placed_def in_set_conv_nth [of _ "ht_table d i"])

text \<open>What a search reports: a link of the key, or that the key is nowhere and the bucket for it.\<close>

definition search_result ::
  "('s, 'k, 'v) dictType \<Rightarrow> ('s, 'v) dict \<Rightarrow> 'k \<Rightarrow> link option \<Rightarrow> nat \<Rightarrow> bool" where
  "search_result t d key r j = (case r of
     Some l \<Rightarrow> link_ok d l \<and> ekey t (link_entry d l) = key \<and> dict_map t d key = Some (link_entry d l)
   | None \<Rightarrow> dict_map t d key = None \<and>
       j = dictGetHash t key AND DICTHT_SIZE_MASK (ht_size_exp d (if dictIsRehashing d then 1 else 0)))"

lemma search_resultI:
  assumes "type_ok t" "dict_inv t d" "i \<le> 1" "j < length (ht_table d i)" "find_pos t key (ht_table d i ! j) = Some p"
  shows "search_result t d key (Some (i, j, p)) j'"
proof -
  have "link_ok d (i, j, p)" "ekey t (link_entry d (i, j, p)) = key"
    using assms find_pos_Some [OF assms(1,5)] by (auto simp: link_ok_def link_entry_def)
  then show ?thesis using link_entry_in dict_map_iff [OF assms(2)] by (auto simp: search_result_def)
qed

lemma search_tables_ok:
  assumes ty: "type_ok t" and inv: "dict_inv t d" and e0: "ht_size_exp d 0 \<noteq> -1" and h: "h = dictGetHash t key"
    and idx: "int idx < rehashidx d \<Longrightarrow> idx = h AND DICTHT_SIZE_MASK (ht_size_exp d 0)"
  shows "\<exists>r j. search_tables t d h idx key = Some (r, j) \<and> search_result t d key r j"
proof -
  let ?j = "\<lambda>i. h AND DICTHT_SIZE_MASK (ht_size_exp d i)"
  let ?b = "\<lambda>i. ht_table d i ! ?j i"
  have ok: "table_ok t d 0" "table_ok t d 1" using inv by (auto simp: dict_inv_def)
  have l0: "?j 0 < length (ht_table d 0)" using ok(1) and_mask_less [OF e0] by (simp add: table_ok_def)
  have l1: "?j 1 < length (ht_table d 1)" if "dictIsRehashing d"
    using that inv and_mask_less [of "ht_size_exp d 1"] by (auto simp: dict_inv_def dictIsRehashing_def table_ok_def)
  have none: "dict_map t d key = None" if "find_pos t key (?b 0) = None" "dictIsRehashing d \<Longrightarrow> find_pos t key (?b 1) = None"
  proof -
    have "ekey t e \<noteq> key" if "e \<in> set (concat (ht_table d 0))" for e
      using only_chain [OF ok(1) that] find_pos_None [OF ty \<open>find_pos t key (?b 0) = None\<close>] h by auto
    moreover have "ekey t e \<noteq> key" if "e \<in> set (concat (ht_table d 1))" for e
    proof -
      have "dictIsRehashing d"
        using that ok(2) inv by (auto simp: dict_inv_def dictIsRehashing_def table_ok_def DICTHT_SIZE_def)
      then have "\<forall>e \<in> set (?b 1). ekey t e \<noteq> key"
        using \<open>dictIsRehashing d \<Longrightarrow> find_pos t key (?b 1) = None\<close> by (intro find_pos_None [OF ty])
      then show ?thesis using only_chain [OF ok(2) that] h by metis
    qed
    ultimately show ?thesis unfolding dict_map_None_iff all_entries_def by (metis Un_iff set_append)
  qed
  show ?thesis
  proof (cases "int idx < rehashidx d")
    case True
    then have r: "dictIsRehashing d" and "?b 0 = []" using inv idx by (auto simp: dict_inv_def dictIsRehashing_def)
    then have "search_result t d key (map_option (\<lambda>p. (1, ?j 1, p)) (find_pos t key (?b 1))) (?j 1)"
      using search_resultI [OF ty inv _ l1 [OF r]] none h
      by (cases "find_pos t key (?b 1)") (auto simp: search_result_def)
    then show ?thesis using True r l1 by (simp add: search_tables_def bucket_at_def Let_def)
  next
    case False
    show ?thesis
    proof (cases "find_pos t key (?b 0) = None \<and> dictIsRehashing d")
      case True
      then have "search_result t d key (map_option (\<lambda>p. (1, ?j 1, p)) (find_pos t key (?b 1))) (?j 1)"
        using search_resultI [OF ty inv _ l1] none h
        by (cases "find_pos t key (?b 1)") (auto simp: search_result_def)
      then show ?thesis using True False l0 l1 by (simp add: search_tables_def bucket_at_def Let_def)
    next
      case f: False
      have "search_result t d key (map_option (\<lambda>p. (0, ?j 0, p)) (find_pos t key (?b 0))) (?j 0)"
        using search_resultI [OF ty inv _ l0] none h f
        by (cases "find_pos t key (?b 0)") (auto simp: search_result_def)
      then show ?thesis using f False l0 by (auto simp: search_tables_def bucket_at_def Let_def)
    qed
  qed
qed

section \<open>Changing one chain\<close>

text \<open>\<open>d'\<close> is \<open>d\<close> with the chain \<open>j\<close> of table \<open>i\<close> replaced by \<open>b\<close> and the count adjusted.\<close>

definition put_chain :: "('s, 'v) dict \<Rightarrow> nat \<Rightarrow> nat \<Rightarrow> ('s \<times> 'v) list \<Rightarrow> ('s, 'v) dict \<Rightarrow> bool" where
  "put_chain d i j b d' \<longleftrightarrow> i \<le> 1 \<and> j < length (ht_table d i) \<and>
     ht_table d' = (ht_table d)(i := (ht_table d i)[j := b]) \<and> same_frame d d' \<and>
     (\<forall>i'. i' \<noteq> i \<longrightarrow> ht_used d' i' = ht_used d i') \<and>
     ht_used d' i + length (ht_table d i ! j) = ht_used d i + length b"

lemma put_chain_mset:
  assumes "put_chain d i j b d'"
  shows "mset (all_entries d') + mset (ht_table d i ! j) = mset (all_entries d) + mset b"
proof -
  have "mset (concat ((ht_table d i)[j := b])) + mset (ht_table d i ! j) = mset (concat (ht_table d i)) + mset b"
    using assms by (intro mset_concat_update) (simp add: put_chain_def)
  moreover have "i = 0 \<or> i = 1" using assms by (auto simp: put_chain_def)
  ultimately show ?thesis using assms by (auto simp: put_chain_def all_entries_def ac_simps)
qed

lemma put_chain_inv:
  assumes inv: "dict_inv t d" and p: "put_chain d i j b d'"
    and b: "\<forall>x \<in> set b. dictGetHash t (ekey t x) AND DICTHT_SIZE_MASK (ht_size_exp d i) = j"
    and e: "i = 0 \<Longrightarrow> ht_table d 0 ! j = [] \<Longrightarrow> dictIsRehashing d \<Longrightarrow> b = []"
    and dist: "distinct (map (ekey t) (all_entries d'))"
  shows "dict_inv t d'"
proof -
  let ?tbl = "(ht_table d i)[j := b]"
  have i: "i = 0 \<or> i = 1" and j: "j < length (ht_table d i)" using p by (auto simp: put_chain_def)
  have ok: "table_ok t d i" using inv i by (auto simp: dict_inv_def)
  have "placed t (ht_size_exp d i) ?tbl" using ok b by (intro placed_update) (auto simp: table_ok_def)
  moreover have "ht_used d' i = length (concat ?tbl)"
    using length_concat_update [OF j, of b] p ok by (auto simp: put_chain_def table_ok_def)
  ultimately have i': "table_ok t d' i" using ok p by (auto simp: table_ok_def put_chain_def same_frame_def)
  have "table_ok t d' i''" if "i'' \<le> 1" for i''
    using i' that inv p by (cases "i'' = i") (auto simp: dict_inv_def table_ok_def put_chain_def same_frame_def dest!: table_index)
  moreover have "ht_table d' 0 ! l = []" if "dictIsRehashing d" "l < nat (rehashidx d)" for l
  proof -
    have "ht_table d 0 ! l = []" using that inv by (auto simp: dict_inv_def dictIsRehashing_def)
    then show ?thesis using e that p by (cases "i = 0"; cases "l = j") (auto simp: put_chain_def)
  qed
  moreover have "length (ht_table d' 0) = length (ht_table d 0)" using p by (auto simp: put_chain_def)
  ultimately show ?thesis
    using inv dist p by (auto simp: dict_inv_def put_chain_def same_frame_def dictIsRehashing_def)
qed

lemma chain_hash: "dict_inv t d \<Longrightarrow> i \<le> 1 \<Longrightarrow> j < length (ht_table d i) \<Longrightarrow> x \<in> set (ht_table d i ! j) \<Longrightarrow>
    dictGetHash t (ekey t x) AND DICTHT_SIZE_MASK (ht_size_exp d i) = j"
  by (auto simp: dict_inv_def table_ok_def placed_def dest!: table_index)

text \<open>A new entry at the head of the chain its key hashes to, in the table that takes insertions.\<close>

lemma insertKeyAtLink_ok:
  assumes inv: "dict_inv t d" and e0: "ht_size_exp d 0 \<noteq> -1" and i: "i = (if dictIsRehashing d then 1 else 0)"
    and j: "j = dictGetHash t (keyFromStoredKey t k) AND DICTHT_SIZE_MASK (ht_size_exp d i)"
    and fresh: "dict_map t d (keyFromStoredKey t k) = None"
  shows "\<exists>d'. dictInsertKeyAtLink junk d k (i, j) = Some (d', (i, j, 0)) \<and> dict_inv t d' \<and> same_frame d d' \<and>
    dict_map t d' = (dict_map t d)(keyFromStoredKey t k \<mapsto> (k, junk)) \<and>
    link_ok d' (i, j, 0) \<and> link_entry d' (i, j, 0) = (k, junk)"
proof -
  let ?d = "d\<lparr>ht_table := (ht_table d)(i := (ht_table d i)[j := (k, junk) # ht_table d i ! j]),
    ht_used := (ht_used d)(i := ht_used d i + 1)\<rparr>"
  have "ht_size_exp d i \<noteq> -1" using inv e0 i by (auto simp: dict_inv_def dictIsRehashing_def)
  then have jl: "j < DICTHT_SIZE (ht_size_exp d i)" "i \<le> 1" using and_mask_less j i by auto
  then have lt: "j < length (ht_table d i)" using inv i by (auto simp: dict_inv_def table_ok_def)
  have "j \<le> DICTHT_SIZE_MASK (ht_size_exp d i)" using jl by (auto simp: DICTHT_SIZE_MASK_def DICTHT_SIZE_def)
  then have run: "dictInsertKeyAtLink junk d k (i, j) = Some (?d, (i, j, 0))"
    using lt i by (simp add: dictInsertKeyAtLink_def bucket_at_def set_bucket_def)
  have pc: "put_chain d i j ((k, junk) # ht_table d i ! j) ?d" using lt jl by (simp add: put_chain_def same_frame_def)
  have ms: "mset (all_entries ?d) = add_mset (k, junk) (mset (all_entries d))"
    using put_chain_mset [OF pc] by simp
  have key: "ekey t (k, junk) = keyFromStoredKey t k" by (simp add: ekey_def)
  have "distinct (map (ekey t) (all_entries ?d))"
    using distinct_mset_map [of "all_entries ?d" "(k, junk) # all_entries d" "ekey t"] ms fresh dict_inv_distinct [OF inv] key
    by (auto simp: dict_map_None_iff)
  moreover have "\<forall>x \<in> set ((k, junk) # ht_table d i ! j). dictGetHash t (ekey t x) AND DICTHT_SIZE_MASK (ht_size_exp d i) = j"
    using chain_hash [OF inv jl(2) lt] key j by (metis set_ConsD)
  ultimately have "dict_inv t ?d" using i by (intro put_chain_inv [OF inv pc]) (auto split: if_splits)
  moreover have "dict_map t ?d = (dict_map t d)(keyFromStoredKey t k \<mapsto> (k, junk))"
    using map_insert [OF inv \<open>dict_inv t ?d\<close> ms] key by simp
  moreover have "same_frame d ?d" using pc by (simp add: put_chain_def)
  ultimately show ?thesis using run lt jl by (auto simp: link_ok_def link_entry_def)
qed

lemma set_entry_ok:
  assumes inv: "dict_inv t d" and l: "link_ok d l" and key: "ekey t e = ekey t (link_entry d l)"
  shows "\<exists>d'. set_entry d l e = Some d' \<and> dict_inv t d' \<and> same_frame d d' \<and> dict_map t d' = (dict_map t d)(ekey t e \<mapsto> e)"
proof -
  obtain i j p where ijp: "l = (i, j, p)" by (cases l)
  let ?b = "ht_table d i ! j"
  let ?d = "d\<lparr>ht_table := (ht_table d)(i := (ht_table d i)[j := ?b[p := e]])\<rparr>"
  have lt: "i \<le> 1" "j < length (ht_table d i)" "p < length ?b" using l ijp by (auto simp: link_ok_def)
  have run: "set_entry d l e = Some ?d" using lt ijp by (simp add: set_entry_def bucket_at_def set_bucket_def)
  have pc: "put_chain d i j (?b[p := e]) ?d" using lt by (simp add: put_chain_def same_frame_def)
  obtain M where M: "mset (all_entries d) = add_mset (link_entry d l) M"
    using link_entry_in [OF l] by (metis multi_member_split set_mset_mset)
  define R where "R = mset ?b - {#?b ! p#}"
  have "mset (?b[p := e]) = add_mset e R" using mset_update [OF lt(3)] by (simp add: R_def)
  moreover have "mset ?b = add_mset (link_entry d l) R" using lt(3) ijp by (simp add: R_def link_entry_def)
  ultimately have "mset (all_entries ?d) + add_mset (link_entry d l) R = add_mset (link_entry d l) M + add_mset e R"
    using put_chain_mset [OF pc] M by metis
  then have "mset (all_entries ?d) + R = add_mset e M + R" by simp
  then have M': "mset (all_entries ?d) = add_mset e M" by (metis add_right_cancel)
  obtain ys where ys: "M = mset ys" using ex_mset by metis
  have "distinct (map (ekey t) (all_entries ?d))"
    using distinct_mset_map [of "all_entries ?d" "e # ys" "ekey t"] distinct_mset_map [of "all_entries d" "link_entry d l # ys" "ekey t"]
      M M' ys key dict_inv_distinct [OF inv] by simp
  moreover have "\<forall>x \<in> set (?b[p := e]). dictGetHash t (ekey t x) AND DICTHT_SIZE_MASK (ht_size_exp d i) = j"
    using chain_hash [OF inv lt(1,2)] lt(3) key ijp set_update_subset_insert [of ?b p e]
    by (metis (no_types, lifting) insert_iff link_entry_def nth_mem old.prod.case subsetD)
  ultimately have "dict_inv t ?d" using lt(3) by (intro put_chain_inv [OF inv pc]) auto
  moreover have "same_frame d ?d" using pc by (simp add: put_chain_def)
  ultimately show ?thesis using run map_replace [OF inv _ key M M'] by blast
qed

lemma unlink_ok:
  assumes inv: "dict_inv t d" and l: "link_ok d (i, j, p)"
    and pc: "put_chain d i j (take p (ht_table d i ! j) @ drop (Suc p) (ht_table d i ! j)) d'"
  shows "dict_inv t d' \<and> dict_map t d' = (dict_map t d)(ekey t (link_entry d (i, j, p)) := None)"
proof -
  let ?b = "ht_table d i ! j" and ?e = "link_entry d (i, j, p)"
  have lt: "i \<le> 1" "j < length (ht_table d i)" "p < length ?b" using l by (auto simp: link_ok_def)
  have "?b = take p ?b @ ?e # drop (Suc p) ?b" using id_take_nth_drop [OF lt(3)] by (simp add: link_entry_def)
  then have "mset ?b = add_mset ?e (mset (take p ?b @ drop (Suc p) ?b))"
    by (metis mset.simps(2) mset_append union_mset_add_mset_right)
  then have ms: "mset (all_entries d) = add_mset ?e (mset (all_entries d'))" using put_chain_mset [OF pc] by simp
  have "\<forall>x \<in> set (take p ?b @ drop (Suc p) ?b). dictGetHash t (ekey t x) AND DICTHT_SIZE_MASK (ht_size_exp d i) = j"
    using chain_hash [OF inv lt(1,2)] by (metis Un_iff in_set_dropD in_set_takeD set_append)
  then have "dict_inv t d'"
    using distinct_mset_cons [OF ms dict_inv_distinct [OF inv]] by (intro put_chain_inv [OF inv pc]) auto
  then show ?thesis using map_delete [OF inv _ ms] by blast
qed

lemma unlink_at_put:
  assumes inv: "dict_inv t d" and l: "link_ok d (i, j, p)"
  shows "\<exists>d1. unlink_at d (i, j, p) = Some d1 \<and> d1 = d\<lparr>ht_table := ht_table d1\<rparr> \<and>
    put_chain d i j (take p (ht_table d i ! j) @ drop (Suc p) (ht_table d i ! j))
      (d1\<lparr>d_log := lg, ht_used := (ht_used d)(i := ht_used d i - 1)\<rparr>)"
proof -
  have lt: "i \<le> 1" "j < length (ht_table d i)" "p < length (ht_table d i ! j)" using l by (auto simp: link_ok_def)
  have "length (concat ((ht_table d i)[j := []])) + length (ht_table d i ! j) = length (concat (ht_table d i))"
    using length_concat_update [OF lt(2), of "[]"] by simp
  moreover have "ht_used d i = length (concat (ht_table d i))" using inv lt(1) by (auto simp: dict_inv_def table_ok_def dest!: table_index)
  ultimately have "0 < ht_used d i" using lt(3) by linarith
  then show ?thesis using lt by (auto simp: unlink_at_def bucket_at_def set_bucket_def put_chain_def same_frame_def)
qed

section \<open>The operations\<close>

text \<open>What every operation keeps besides the invariant.\<close>

definition calm :: "('s, 'k, 'v) dictType \<Rightarrow> ('s, 'v) dict \<Rightarrow> ('s, 'v) dict \<Rightarrow> bool" where
  "calm t d d' \<longleftrightarrow> dict_inv t d' \<and> pauserehash d' = pauserehash d \<and> pauseAutoResize d' = pauseAutoResize d \<and>
     (ht_size_exp d 0 \<noteq> -1 \<longrightarrow> ht_size_exp d' 0 \<noteq> -1)"

lemma calm_moves: "moves t d d' \<Longrightarrow> calm t d d'"
  by (simp add: moves_def calm_def)

lemma calm_frame: "dict_inv t d' \<Longrightarrow> same_frame d d' \<Longrightarrow> calm t d d'"
  by (simp add: same_frame_def calm_def)

lemma calm_trans: "calm t d d' \<Longrightarrow> calm t d' d'' \<Longrightarrow> calm t d d''"
  by (simp add: calm_def)

lemma calm_inv: "calm t d d' \<Longrightarrow> dict_inv t d'"
  by (simp add: calm_def)

lemma inv_emit [simp]: "dict_inv t (emit ev d) = dict_inv t d" "dict_map t (emit ev d) = dict_map t d"
  by (simp_all add: emit_def dict_inv_def table_ok_def all_entries_def dict_map_def)

lemma calm_emit: "calm t d (emit ev d') = calm t d d'"
  by (simp add: calm_def) (simp add: emit_def)

text \<open>A table is there as soon as there is an entry.\<close>

lemma nonempty_exp: "dict_inv t d \<Longrightarrow> dictSize d \<noteq> 0 \<Longrightarrow> ht_size_exp d 0 \<noteq> -1"
  by (auto simp: dict_inv_def table_ok_def dictSize_def DICTHT_SIZE_def split: if_splits)

definition can_add :: "('s, 'v) dict \<Rightarrow> bool" where
  "can_add d \<longleftrightarrow> ht_size_exp d 0 \<noteq> -1 \<or> pauseAutoResize d \<le> 0"

lemma findLinkForInsert_ok:
  assumes ty: "type_ok t" and inv: "dict_inv t d" and add: "can_add d"
  shows "\<exists>d' pos. dictFindLinkForInsert t can_resize d key = Some (d', pos) \<and> moves t d d' \<and> ht_size_exp d' 0 \<noteq> -1 \<and>
    (case pos of Inl l \<Rightarrow> search_result t d' key (Some l) 0
     | Inr (i, j) \<Rightarrow> i = (if dictIsRehashing d' then 1 else 0) \<and> search_result t d' key None j)"
proof -
  define h idx where "h = dictGetHash t key" and "idx = h AND DICTHT_SIZE_MASK (ht_size_exp d 0)"
  obtain d1 where d1: "u_dictRehashStepIfNeeded t can_resize d idx = Some d1" "moves t d d1"
    "dictIsRehashing d1 \<longrightarrow> dictIsRehashing d \<and> ht_size_exp d1 = ht_size_exp d"
    using stepIfNeeded_ok [OF inv idx_def] by blast
  have add1: "ht_size_exp d1 0 \<noteq> -1 \<or> pauseAutoResize d1 \<le> 0" using add d1(2) by (auto simp: can_add_def moves_def)
  obtain d2 ok where d2: "u_dictExpandIfNeeded t can_resize d1 = Some (d2, ok)" "moves t d1 d2" "ht_size_exp d2 0 \<noteq> -1"
    "if dictIsRehashing d1 then d2 = d1 else rehashidx d2 \<le> 0"
    using u_dictExpandIfNeeded_ok [OF moves_inv [OF d1(2)] add1] by blast
  have "idx = h AND DICTHT_SIZE_MASK (ht_size_exp d2 0)" if "int idx < rehashidx d2"
    using that d2(4) d1(3) by (auto simp: idx_def split: if_splits)
  then obtain r j where r: "search_tables t d2 h idx key = Some (r, j)" "search_result t d2 key r j"
    using search_tables_ok [OF ty moves_inv [OF d2(2)] d2(3) h_def] by blast
  have "moves t d d2" using d1(2) d2(2) by (rule moves_trans)
  then show ?thesis using d1(1) d2(1,3) r
    by (cases r) (auto simp: dictFindLinkForInsert_def Let_def h_def [symmetric] idx_def [symmetric] search_result_def)
qed

text \<open>The lookup of an existing key gives its entry; otherwise a new entry with the given key is there.\<close>

definition add_result ::
  "('s, 'k, 'v) dictType \<Rightarrow> 'v \<Rightarrow> ('s, 'v) dict \<Rightarrow> 's \<Rightarrow> 'k \<Rightarrow> ('s, 'v) dict \<Rightarrow> link + link \<Rightarrow> bool" where
  "add_result t junk d k key d' r = (case r of
     Inl l \<Rightarrow> link_ok d' l \<and> ekey t (link_entry d' l) = key \<and> dict_map t d key = Some (link_entry d' l) \<and>
       dict_map t d' = dict_map t d
   | Inr l \<Rightarrow> link_ok d' l \<and> dict_map t d key = None \<and> link_entry d' l = (keyDup t k, junk) \<and>
       dict_map t d' = (dict_map t d)(key \<mapsto> (keyDup t k, junk)))"

lemma dictAddRaw_ok:
  assumes ty: "type_ok t" and inv: "dict_inv t d" and add: "can_add d"
    and key: "key = keyFromStoredKey t k"
  shows "\<exists>d' r. dictAddRaw t can_resize junk d k = Some (d', r) \<and> calm t d d' \<and>
    add_result t junk d k key d' r"
proof -
  obtain d1 pos where d1: "dictFindLinkForInsert t can_resize d key = Some (d1, pos)" "moves t d d1" "ht_size_exp d1 0 \<noteq> -1"
    "case pos of Inl l \<Rightarrow> search_result t d1 key (Some l) 0
     | Inr (i, j) \<Rightarrow> i = (if dictIsRehashing d1 then 1 else 0) \<and> search_result t d1 key None j"
    using findLinkForInsert_ok [OF ty inv add] by blast
  have m: "dict_map t d1 = dict_map t d" using inv d1(2) by (rule moves_map)
  have kd: "keyFromStoredKey t (keyDup t k) = key" using ty by (simp add: type_ok_def key)
  show ?thesis
  proof (cases pos)
    case (Inl l)
    then show ?thesis using d1 m by (auto simp: dictAddRaw_def key [symmetric] search_result_def calm_moves add_result_def)
  next
    case (Inr ij)
    obtain i j where ij: "ij = (i, j)" by (cases ij)
    obtain d2 where d2: "dictInsertKeyAtLink junk d1 (keyDup t k) (i, j) = Some (d2, (i, j, 0))" "dict_inv t d2"
      "same_frame d1 d2" "dict_map t d2 = (dict_map t d1)(key \<mapsto> (keyDup t k, junk))"
      "link_ok d2 (i, j, 0)" "link_entry d2 (i, j, 0) = (keyDup t k, junk)"
      using insertKeyAtLink_ok [OF moves_inv [OF d1(2)] d1(3), of i j "keyDup t k" junk] d1(4) Inr ij kd
      by (auto simp: search_result_def)
    have "calm t d d2" using calm_trans [OF calm_moves [OF d1(2)] calm_frame [OF d2(2,3)]] .
    then show ?thesis using d1 d2 m Inr ij by (auto simp: dictAddRaw_def key [symmetric] search_result_def add_result_def)
  qed
qed

lemma dictSetVal_ok:
  assumes "dict_inv t d" "link_ok d l" "\<not> no_value t"
  shows "\<exists>d'. dictSetVal t d l v = Some d' \<and> calm t d d' \<and>
    dict_map t d' = (dict_map t d)(ekey t (link_entry d l) \<mapsto> (fst (link_entry d l), valDup t v))"
proof -
  let ?e = "(fst (link_entry d l), valDup t v)"
  have key: "ekey t ?e = ekey t (link_entry d l)" by (simp add: ekey_def)
  then obtain d' where "set_entry d l ?e = Some d'" "dict_inv t d'" "same_frame d d'"
    "dict_map t d' = (dict_map t d)(ekey t ?e \<mapsto> ?e)"
    using set_entry_ok [OF assms(1,2)] by blast
  then show ?thesis using assms key
    by (cases "link_entry d l") (simp add: dictSetVal_def entry_at_ok calm_frame)
qed

lemma dictAdd_ok:
  assumes "type_ok t" "dict_inv t d" "can_add d" and key: "key = keyFromStoredKey t k"
  shows "\<exists>d'. dictAdd t can_resize junk d k v = Some (d', dict_map t d key = None) \<and> calm t d d' \<and>
    dict_map t d' = (if dict_map t d key = None
      then (dict_map t d)(key \<mapsto> (keyDup t k, if no_value t then junk else valDup t v)) else dict_map t d)"
proof -
  obtain d1 r where d1: "dictAddRaw t can_resize junk d k = Some (d1, r)" "calm t d d1"
    "add_result t junk d k key d1 r"
    using dictAddRaw_ok [OF assms] by blast
  show ?thesis
  proof (cases r)
    case Inl
    then show ?thesis using d1 by (simp add: dictAdd_def add_result_def)
  next
    case (Inr l)
    then have l: "link_ok d1 l" "ekey t (link_entry d1 l) = key" using d1 assms(1) key by (auto simp: ekey_def type_ok_def add_result_def)
    show ?thesis
    proof (cases "no_value t")
      case True
      then show ?thesis using Inr d1 by (simp add: dictAdd_def add_result_def)
    next
      case False
      then obtain d2 where "dictSetVal t d1 l v = Some d2" "calm t d1 d2"
        "dict_map t d2 = (dict_map t d1)(key \<mapsto> (fst (link_entry d1 l), valDup t v))"
        using dictSetVal_ok [OF calm_inv [OF d1(2)] l(1)] l(2) by metis
      then show ?thesis using Inr d1 False by (auto simp: dictAdd_def add_result_def intro: calm_trans)
    qed
  qed
qed

lemma dictReplace_ok:
  assumes "type_ok t" "dict_inv t d" "can_add d" and key: "key = keyFromStoredKey t k" and nv: "\<not> no_value t"
  shows "\<exists>d'. dictReplace t can_resize junk d k v = Some (d', dict_map t d key = None) \<and> calm t d d' \<and>
    dict_map t d' = (dict_map t d)(key \<mapsto>
      (case dict_map t d key of None \<Rightarrow> keyDup t k | Some (k', _) \<Rightarrow> k', valDup t v))"
proof -
  obtain d1 r where d1: "dictAddRaw t can_resize junk d k = Some (d1, r)" "calm t d d1"
    "add_result t junk d k key d1 r"
    using dictAddRaw_ok [OF assms(1-4)] by blast
  obtain l where l: "link_ok d1 l" "ekey t (link_entry d1 l) = key" "r = Inl l \<or> r = Inr l"
    using d1(3) assms(1) key by (cases r) (auto simp: ekey_def type_ok_def add_result_def)
  obtain d2 where d2: "dictSetVal t d1 l v = Some d2" "calm t d1 d2"
    "dict_map t d2 = (dict_map t d1)(key \<mapsto> (fst (link_entry d1 l), valDup t v))"
    using dictSetVal_ok [OF calm_inv [OF d1(2)] l(1) nv] l(2) by metis
  have "calm t d d2" using d1(2) d2(2) by (rule calm_trans)
  then show ?thesis using l(3) d1(1,3) d2(1,3) l(1)
    by (cases "link_entry d1 l") (auto simp: dictReplace_def entry_at_ok calm_emit add_result_def)
qed

lemma dictAddOrFind_ok:
  assumes "type_ok t" "dict_inv t d" "can_add d" and key: "key = keyFromStoredKey t k"
  shows "\<exists>d' l. dictAddOrFind t can_resize junk d k = Some (d', l) \<and> calm t d d' \<and>
    dict_map t d' = (if dict_map t d key = None then (dict_map t d)(key \<mapsto> (keyDup t k, junk)) else dict_map t d) \<and>
    entry_at d' l = dict_map t d' key"
proof -
  obtain d1 r where d1: "dictAddRaw t can_resize junk d k = Some (d1, r)" "calm t d d1"
    "add_result t junk d k key d1 r"
    using dictAddRaw_ok [OF assms(1-4)] by blast
  then show ?thesis by (cases r) (auto simp: dictAddOrFind_def entry_at_ok add_result_def)
qed

text \<open>The common prefix of lookups and deletions: a rehashing step, then the search.\<close>

lemma step_search_ok:
  assumes ty: "type_ok t" and inv: "dict_inv t d" and e0: "ht_size_exp d 0 \<noteq> -1"
    and h: "h = dictGetHash t key" and idx: "idx = h AND DICTHT_SIZE_MASK (ht_size_exp d 0)"
  shows "\<exists>d' r j. u_dictRehashStepIfNeeded t can_resize d idx = Some d' \<and> search_tables t d' h idx key = Some (r, j) \<and>
    moves t d d' \<and> search_result t d' key r j"
proof -
  obtain d1 where d1: "u_dictRehashStepIfNeeded t can_resize d idx = Some d1" "moves t d d1"
    "dictIsRehashing d1 \<longrightarrow> dictIsRehashing d \<and> ht_size_exp d1 = ht_size_exp d"
    using stepIfNeeded_ok [OF inv idx] by blast
  have "idx = h AND DICTHT_SIZE_MASK (ht_size_exp d1 0)" if "int idx < rehashidx d1"
    using that d1(3) idx by (cases "dictIsRehashing d1") (auto simp: dictIsRehashing_def)
  moreover have "ht_size_exp d1 0 \<noteq> -1" using d1(2) e0 by (simp add: moves_def)
  ultimately obtain r j where "search_tables t d1 h idx key = Some (r, j)" "search_result t d1 key r j"
    using search_tables_ok [OF ty moves_inv [OF d1(2)] _ h] by blast
  then show ?thesis using d1 by blast
qed

lemma dictFindLinkInternal_ok:
  assumes ty: "type_ok t" and inv: "dict_inv t d" and e0: "want \<Longrightarrow> ht_size_exp d 0 \<noteq> -1"
  shows "\<exists>d' r b. dictFindLinkInternal t can_resize d key want = Some (d', r, b) \<and> moves t d d' \<and>
    (case r of None \<Rightarrow> dict_map t d key = None | Some l \<Rightarrow> search_result t d' key r 0) \<and>
    (want \<and> r = None \<longrightarrow> (\<exists>i j. b = Some (i, j) \<and> i = (if dictIsRehashing d' then 1 else 0) \<and> search_result t d' key None j))"
proof (cases "\<not> want \<and> dictSize d = 0")
  case True
  then show ?thesis using dictSize_0_map [OF inv] moves_refl [OF inv] by (simp add: dictFindLinkInternal_def)
next
  case False
  then have "ht_size_exp d 0 \<noteq> -1" using e0 nonempty_exp [OF inv] by blast
  then obtain d1 r j where d1: "u_dictRehashStepIfNeeded t can_resize d (dictGetHash t key AND DICTHT_SIZE_MASK (ht_size_exp d 0)) = Some d1"
    "search_tables t d1 (dictGetHash t key) (dictGetHash t key AND DICTHT_SIZE_MASK (ht_size_exp d 0)) key = Some (r, j)"
    "moves t d d1" "search_result t d1 key r j"
    using step_search_ok [OF ty inv _ refl refl] by blast
  then show ?thesis using False moves_map [OF inv d1(3)]
    by (cases r) (auto simp: dictFindLinkInternal_def Let_def search_result_def)
qed

lemma dictFind_ok:
  assumes ty: "type_ok t" and inv: "dict_inv t d"
  shows "\<exists>d'. dictFind t can_resize d key = Some (d', dict_map t d key) \<and> moves t d d'"
proof (cases "dictSize d = 0")
  case True
  then show ?thesis using dictSize_0_map [OF inv] moves_refl [OF inv] by (simp add: dictFind_def dictFindLink_def)
next
  case False
  obtain d' r b where d': "dictFindLinkInternal t can_resize d key False = Some (d', r, b)" "moves t d d'"
    "case r of None \<Rightarrow> dict_map t d key = None | Some l \<Rightarrow> search_result t d' key r 0"
    using dictFindLinkInternal_ok [OF ty inv] by blast
  then show ?thesis using False moves_map [OF inv d'(2)]
    by (cases r) (auto simp: dictFind_def dictFindLink_def search_result_def entry_at_ok)
qed

lemma freed_log: "dictFreeUnlinkedEntry d he = d\<lparr>d_log := d_log (dictFreeUnlinkedEntry d he)\<rparr>"
  by (auto simp: dictFreeUnlinkedEntry_def emit_def split: option.splits)

lemma dictGenericDelete_ok:
  assumes ty: "type_ok t" and inv: "dict_inv t d"
  shows "\<exists>d'. dictGenericDelete t can_resize d key nofree = Some (d', dict_map t d key) \<and> calm t d d' \<and>
    dict_map t d' = (dict_map t d)(key := None)"
proof (cases "dictSize d = 0")
  case True
  then show ?thesis using dictSize_0_map [OF inv] moves_refl [OF inv] by (auto simp: dictGenericDelete_def calm_moves)
next
  case False
  obtain d1 r j0 where d1: "u_dictRehashStepIfNeeded t can_resize d (dictGetHash t key AND DICTHT_SIZE_MASK (ht_size_exp d 0)) = Some d1"
    "search_tables t d1 (dictGetHash t key) (dictGetHash t key AND DICTHT_SIZE_MASK (ht_size_exp d 0)) key = Some (r, j0)"
    "moves t d d1" "search_result t d1 key r j0"
    using step_search_ok [OF ty inv nonempty_exp [OF inv False] refl refl] by blast
  note inv1 = moves_inv [OF d1(3)] and m1 = moves_map [OF inv d1(3)]
  show ?thesis
  proof (cases r)
    case None
    then show ?thesis using False d1 m1 by (auto simp: dictGenericDelete_def Let_def search_result_def calm_moves)
  next
    case (Some l)
    obtain i j p where l: "l = (i, j, p)" by (cases l)
    let ?e = "link_entry d1 l"
    have lok: "link_ok d1 (i, j, p)" "dict_map t d key = Some ?e" "ekey t ?e = key"
      using d1(4) Some l m1 by (auto simp: search_result_def)
    define lg where "lg dx = d_log (if \<not> nofree then dictFreeUnlinkedEntry dx (Some ?e) else dx)" for dx
    obtain d2 where d2: "unlink_at d1 l = Some d2" "d2 = d1\<lparr>ht_table := ht_table d2\<rparr>"
      using unlink_at_put [OF inv1 lok(1)] l by blast
    let ?d3 = "(if \<not> nofree then dictFreeUnlinkedEntry d2 (Some ?e) else d2)"
    let ?d4 = "?d3\<lparr>ht_used := (ht_used ?d3)(i := ht_used ?d3 i - 1)\<rparr>"
    have "?d3 = d2\<lparr>d_log := lg d2\<rparr>" using freed_log [of d2] by (simp add: lg_def)
    moreover have "ht_used d2 = ht_used d1" using d2(2) by (metis select_convs(2) surjective update_convs(1))
    ultimately have "?d4 = d2\<lparr>d_log := lg d2, ht_used := (ht_used d1)(i := ht_used d1 i - 1)\<rparr>" by simp
    then have pc: "put_chain d1 i j (take p (ht_table d1 i ! j) @ drop (Suc p) (ht_table d1 i ! j)) ?d4"
      using unlink_at_put [OF inv1 lok(1), of "lg d2"] d2(1) l by auto
    then have d4: "dict_inv t ?d4" "dict_map t ?d4 = (dict_map t d1)(key := None)" "same_frame d1 ?d4"
      using unlink_ok [OF inv1 lok(1) pc] l lok(3) by (auto simp: put_chain_def)
    obtain d5 where d5: "u_dictShrinkIfNeeded t can_resize ?d4 = Some d5" "moves t ?d4 d5"
      using u_dictShrinkIfNeeded_ok [OF d4(1)] by blast
    have run: "dictGenericDelete t can_resize d key nofree = Some (d5, Some ?e)"
      using False d1(1,2) Some d2(1) d5(1) entry_at_ok [of d1 l] lok(1) l
      by (cases nofree) (simp_all add: dictGenericDelete_def Let_def)
    have "calm t d d5"
      using calm_moves [OF d1(3)] calm_frame [OF d4(1,3)] calm_moves [OF d5(2)] by (blast intro: calm_trans)
    then show ?thesis using run moves_map [OF d4(1) d5(2)] d4(2) m1 lok(2) by simp
  qed
qed

lemma inv_pause [simp]:
  "dict_inv t (dictPauseRehashing d) = dict_inv t d" "dict_map t (dictPauseRehashing d) = dict_map t d"
  "dict_inv t (dictResumeRehashing d) = dict_inv t d" "dict_map t (dictResumeRehashing d) = dict_map t d"
  by (simp_all add: dictPauseRehashing_def dictResumeRehashing_def dict_inv_def table_ok_def all_entries_def dict_map_def)

lemma resume_pause: "p < 4294967296 \<Longrightarrow> (if (p + 1) mod 4294967296 = 0 then 4294967295 else (p + 1) mod 4294967296 - 1) = (p :: nat)"
proof (cases "p = 4294967295")
  case False
  assume "p < 4294967296"
  then have "(p + 1) mod 4294967296 = p + 1" using False by simp
  then show ?thesis by simp
qed simp

lemma twoPhase_ok:
  assumes ty: "type_ok t" and inv: "dict_inv t d" and pr: "pauserehash d < 2 ^ 32"
  shows "\<exists>d1 l d'. dictTwoPhaseUnlinkFind t can_resize d key = Some (d1, l) \<and>
    dict_inv t d1 \<and> dict_map t d1 = dict_map t d \<and> dict_map t d key = (case l of None \<Rightarrow> None | Some l \<Rightarrow> entry_at d1 l) \<and>
    dictTwoPhaseUnlinkFree t can_resize d1 l = Some d' \<and> calm t d d' \<and> dict_map t d' = (dict_map t d)(key := None)"
proof (cases "dictSize d = 0")
  case True
  then show ?thesis using dictSize_0_map [OF inv] moves_refl [OF inv] inv
    by (auto simp: dictTwoPhaseUnlinkFind_def dictTwoPhaseUnlinkFree_def calm_moves)
next
  case False
  obtain d1 where d1: "(if dictIsRehashing d then u_dictRehashStep t can_resize d else Some d) = Some d1" "moves t d d1"
    using u_dictRehashStep_ok [OF inv, of can_resize] moves_refl [OF inv] by (cases "dictIsRehashing d") auto
  note inv1 = moves_inv [OF d1(2)] and m1 = moves_map [OF inv d1(2)]
  have "ht_size_exp d1 0 \<noteq> -1" using nonempty_exp [OF inv False] d1(2) by (simp add: moves_def)
  then obtain r j0 where r: "search_tables t d1 (dictGetHash t key) (dictGetHash t key AND DICTHT_SIZE_MASK (ht_size_exp d1 0)) key = Some (r, j0)"
    "search_result t d1 key r j0"
    using search_tables_ok [OF ty inv1 _ refl] by blast
  show ?thesis
  proof (cases r)
    case None
    then show ?thesis using False d1 r m1 inv1
      by (auto simp: dictTwoPhaseUnlinkFind_def dictTwoPhaseUnlinkFree_def search_result_def calm_moves)
  next
    case (Some l)
    obtain i j p where l: "l = (i, j, p)" by (cases l)
    let ?p = "dictPauseRehashing d1" and ?e = "link_entry d1 l"
    have same: "link_ok ?p = link_ok d1" "link_entry ?p = link_entry d1" "dict_inv t ?p = dict_inv t d1" "dict_map t ?p = dict_map t d1"
      by (simp_all add: fun_eq_iff link_ok_def link_entry_def) (simp_all add: dictPauseRehashing_def)
    have lok: "link_ok ?p (i, j, p)" "dict_map t d key = Some ?e" "ekey t ?e = key" "dict_inv t ?p"
      using r(2) Some l m1 inv1 same by (auto simp: search_result_def)
    have find: "dictTwoPhaseUnlinkFind t can_resize d key = Some (?p, Some l)"
      using False d1(1) r(1) Some by (cases l) (simp add: dictTwoPhaseUnlinkFind_def Let_def)
    define u where "u = (ht_used ?p)(i := ht_used ?p i - 1)"
    let ?q = "?p\<lparr>ht_used := u\<rparr>"
    obtain d2 where d2: "unlink_at ?p l = Some d2" "d2 = ?p\<lparr>ht_table := ht_table d2\<rparr>"
      using unlink_at_put [OF lok(4,1)] l by blast
    have unl: "unlink_at ?q l = Some (d2\<lparr>ht_used := u\<rparr>)"
      using d2(1) by (cases l) (auto simp: unlink_at_def bucket_at_def set_bucket_def split: if_splits)
    define lg where "lg = d_log (dictFreeUnlinkedEntry (d2\<lparr>ht_used := u\<rparr>) (Some ?e))"
    have "dictFreeUnlinkedEntry (d2\<lparr>ht_used := u\<rparr>) (Some ?e) = (d2\<lparr>ht_used := u\<rparr>)\<lparr>d_log := lg\<rparr>"
      unfolding lg_def by (rule freed_log)
    also have "\<dots> = d2\<lparr>d_log := lg, ht_used := u\<rparr>" by (cases d2) simp
    finally have fr: "dictFreeUnlinkedEntry (d2\<lparr>ht_used := u\<rparr>) (Some ?e) = d2\<lparr>d_log := lg, ht_used := u\<rparr>" .
    let ?d4 = "d2\<lparr>d_log := lg, ht_used := u\<rparr>"
    have pc: "put_chain ?p i j (take p (ht_table ?p i ! j) @ drop (Suc p) (ht_table ?p i ! j)) ?d4"
      using unlink_at_put [OF lok(4,1), of lg] d2(1) l by (auto simp: u_def)
    then have d4: "dict_inv t ?d4" "dict_map t ?d4 = (dict_map t d)(key := None)" "same_frame ?p ?d4"
      using unlink_ok [OF lok(4,1) pc] l lok(3) same m1 by (auto simp: put_chain_def)
    obtain d5 where d5: "u_dictShrinkIfNeeded t can_resize ?d4 = Some d5" "moves t ?d4 d5"
      using u_dictShrinkIfNeeded_ok [OF d4(1)] by blast
    have "entry_at ?p l = Some ?e" using entry_at_ok [of ?p l] lok(1) l same by simp
    moreover have "entry_at ?q l = entry_at ?p l" by (cases l) (simp add: entry_at_def bucket_at_def)
    ultimately have "entry_at ?q l = Some ?e" "entry_at ?p l = Some ?e" by simp_all
    then have run: "dictTwoPhaseUnlinkFree t can_resize ?p (Some l) = Some (dictResumeRehashing d5)"
      using unl fr d5(1) l by (simp add: dictTwoPhaseUnlinkFree_def u_def [symmetric])
    have "calm t ?p d5" using calm_frame [OF d4(1,3)] calm_moves [OF d5(2)] by (rule calm_trans)
    then have "pauserehash (dictResumeRehashing d5) = pauserehash d" using d1(2) resume_pause [of "pauserehash d"] pr
      by (simp add: calm_def moves_def dictPauseRehashing_def dictResumeRehashing_def split: if_splits)
    with \<open>calm t ?p d5\<close> have "calm t d (dictResumeRehashing d5)" using d1(2)
      by (simp add: calm_def moves_def) (simp add: dictPauseRehashing_def dictResumeRehashing_def)
    moreover have "dict_map t (dictResumeRehashing d5) = (dict_map t d)(key := None)"
      using moves_map [OF d4(1) d5(2)] d4(2) by simp
    ultimately show ?thesis using find run lok same m1 \<open>entry_at ?p l = Some ?e\<close> by auto
  qed
qed

lemma setKeyAtLink_new_ok:
  assumes ty: "type_ok t" and inv: "dict_inv t d" and key: "key = keyFromStoredKey t k" and fresh: "dict_map t d key = None"
  shows "\<exists>d'. dictSetKeyAtLink_new t can_resize junk d k None = Some d' \<and> calm t d d' \<and>
    dict_map t d' = (dict_map t d)(key \<mapsto> (keyDup t k, junk))"
proof -
  obtain d1 ok where d1: "dictExpandIfNeeded t can_resize d = Some (d1, ok)" "moves t d d1" "ht_size_exp d1 0 \<noteq> -1"
    using dictExpandIfNeeded_ok [OF inv] by blast
  note inv1 = moves_inv [OF d1(2)] and m1 = moves_map [OF inv d1(2)]
  obtain d2 r b where d2: "dictFindLinkInternal t can_resize d1 key True = Some (d2, r, b)" "moves t d1 d2"
    "case r of None \<Rightarrow> dict_map t d1 key = None | Some l \<Rightarrow> search_result t d2 key r 0"
    "r = None \<longrightarrow> (\<exists>i j. b = Some (i, j) \<and> i = (if dictIsRehashing d2 then 1 else 0) \<and> search_result t d2 key None j)"
    using dictFindLinkInternal_ok [OF ty inv1 d1(3), where want = True and can_resize = can_resize and key = key] by blast
  note inv2 = moves_inv [OF d2(2)] and m2 = moves_map [OF inv1 d2(2)]
  have "r = None" using d2(3) fresh m1 m2 by (cases r) (auto simp: search_result_def)
  then obtain i j where b: "b = Some (i, j)" "i = (if dictIsRehashing d2 then 1 else 0)" "search_result t d2 key None j"
    using d2(4) by blast
  have kd: "keyFromStoredKey t (keyDup t k) = key" using ty key by (simp add: type_ok_def)
  have "ht_size_exp d2 0 \<noteq> -1" using d1(3) d2(2) by (simp add: moves_def)
  then obtain d3 where d3: "dictInsertKeyAtLink junk d2 (keyDup t k) (i, j) = Some (d3, (i, j, 0))" "dict_inv t d3"
    "same_frame d2 d3" "dict_map t d3 = (dict_map t d2)(key \<mapsto> (keyDup t k, junk))"
    using insertKeyAtLink_ok [OF inv2 _ b(2), of j "keyDup t k" junk] b kd by (auto simp: search_result_def)
  have "calm t d d3" using calm_moves [OF d1(2)] calm_moves [OF d2(2)] calm_frame [OF d3(2,3)] by (blast intro: calm_trans)
  then show ?thesis using d1(1) d2(1) \<open>r = None\<close> b(1) d3 m1 m2
    by (simp add: dictSetKeyAtLink_new_def key [symmetric] Let_def)
qed

section \<open>Clearing\<close>

definition frees :: "('s \<times> 'v) list \<Rightarrow> ('s, 'v) dictEvent list" where
  "frees es = concat (map (\<lambda>(k, v). [FreeKey k, FreeVal v]) es)"

fun is_free :: "('s, 'v) dictEvent \<Rightarrow> bool" where
  "is_free (FreeKey k) = True"
| "is_free (FreeVal v) = True"
| "is_free ev = False"

lemma frees_simps [simp]: "frees [] = []" "frees ((k, v) # es) = FreeKey k # FreeVal v # frees es" "frees (xs @ ys) = frees xs @ frees ys"
  by (simp_all add: frees_def)

lemma filter_frees [simp]: "filter is_free (frees es) = frees es"
  by (induction es) auto

lemma clear_chain_eq:
  "clear_chain h b d = d\<lparr>ht_used := (ht_used d)(h := ht_used d h - length b), d_log := d_log d @ frees b\<rparr>"
proof (induction h b d rule: clear_chain.induct)
  case (2 h k v rest d)
  then show ?case by (simp only: clear_chain.simps) (cases d; auto simp: emit_def fun_eq_iff)
qed simp

text \<open>The loop stops early when the count says that no entry is left, which then holds for every remaining chain.\<close>

lemma used_0: "ht_used d h = 0 \<Longrightarrow> d\<lparr>ht_used := (ht_used d)(h := 0), d_log := d_log d @ []\<rparr> = d"
  by (cases d) (simp add: fun_upd_idem)

lemma clear_loop_ok:
  assumes "i \<le> length (ht_table d h)" "ht_used d h = length (concat (drop i (ht_table d h)))"
  shows "\<exists>lg. clear_loop h cb (length (ht_table d h)) d i = Some (d\<lparr>ht_used := (ht_used d)(h := 0), d_log := d_log d @ lg\<rparr>) \<and>
    filter is_free lg = frees (concat (drop i (ht_table d h)))"
  using assms
proof (induction "length (ht_table d h) - i" arbitrary: i d)
  case 0
  then have "i = length (ht_table d h)" by simp
  then show ?case using used_0 [of d h] 0 by (subst clear_loop.simps) (auto intro!: exI [of _ "[]"])
next
  case (Suc n)
  have i: "i < length (ht_table d h)" using Suc.hyps(2) by simp
  note dr = Cons_nth_drop_Suc [OF i, symmetric]
  show ?case
  proof (cases "ht_used d h = 0")
    case True
    then have "concat (drop i (ht_table d h)) = []" using Suc.prems(2) by (metis length_0_conv)
    moreover have "clear_loop h cb (length (ht_table d h)) d i = Some d" using True by (subst clear_loop.simps) simp
    ultimately show ?thesis using used_0 [OF True] by (intro exI [of _ "[]"]) (simp only: filter.simps frees_simps simp_thms)
  next
    case False
    define c where "c = (if cb \<and> i \<noteq> 0 \<and> i AND 65535 = 0 then [ClearCallback] else [] :: ('a, 'b) dictEvent list)"
    define d1 where "d1 = d\<lparr>ht_used := (ht_used d)(h := ht_used d h - length (ht_table d h ! i)),
      d_log := d_log d @ c @ frees (ht_table d h ! i)\<rparr>"
    have step: "clear_loop h cb (length (ht_table d h)) d i = clear_loop h cb (length (ht_table d1 h)) d1 (Suc i)"
      using i False by (subst clear_loop.simps) (simp add: bucket_at_def clear_chain_eq emit_def d1_def c_def Suc_eq_plus1)
    obtain lg where "clear_loop h cb (length (ht_table d1 h)) d1 (Suc i) = Some (d1\<lparr>ht_used := (ht_used d1)(h := 0), d_log := d_log d1 @ lg\<rparr>)"
      "filter is_free lg = frees (concat (drop (Suc i) (ht_table d1 h)))"
    proof -
      have "n = length (ht_table d1 h) - Suc i" "Suc i \<le> length (ht_table d1 h)"
        "ht_used d1 h = length (concat (drop (Suc i) (ht_table d1 h)))"
        using Suc.hyps(2) Suc.prems(2) i dr by (simp_all add: d1_def)
      then show ?thesis using Suc.hyps(1) [of d1 "Suc i"] that by blast
    qed
    then show ?thesis using step dr
      by (intro exI [of _ "c @ frees (ht_table d h ! i) @ lg"]) (simp add: d1_def c_def)
  qed
qed

lemma u_dictClear_ok:
  assumes "table_ok t d h"
  shows "\<exists>lg. u_dictClear d h cb = Some ((u_dictReset d h)\<lparr>d_log := d_log d @ lg\<rparr>) \<and> filter is_free lg = frees (concat (ht_table d h))"
proof -
  obtain lg where "clear_loop h cb (length (ht_table d h)) d 0 = Some (d\<lparr>ht_used := (ht_used d)(h := 0), d_log := d_log d @ lg\<rparr>)"
    "filter is_free lg = frees (concat (ht_table d h))"
    using clear_loop_ok [of 0 d h cb] assms by (auto simp: table_ok_def)
  then show ?thesis using assms
    by (intro exI [of _ lg]) (cases d, simp add: u_dictClear_def table_ok_def u_dictReset_def)
qed

lemma dictEmpty_ok:
  assumes inv: "dict_inv t d"
  shows "\<exists>d'. dictEmpty d cb = Some d' \<and> dict_inv t d' \<and> dict_map t d' = Map.empty \<and> pauserehash d' = 0 \<and> pauseAutoResize d' = 0 \<and>
    filter is_free (d_log d') = filter is_free (d_log d) @ frees (all_entries d)"
proof -
  define d1 where "d1 = emit (BucketChanged (- int (dictBuckets (if dictIsRehashing d then rehashing_completed d else d))))
    (if dictIsRehashing d then rehashing_completed d else d)"
  have d1: "ht_table d1 = ht_table d" "filter is_free (d_log d1) = filter is_free (d_log d)" "table_ok t d1 0" "table_ok t d1 1"
    using inv by (auto simp: d1_def emit_def dict_inv_def table_ok_def)
  obtain l0 where l0: "u_dictClear d1 0 cb = Some ((u_dictReset d1 0)\<lparr>d_log := d_log d1 @ l0\<rparr>)" "filter is_free l0 = frees (concat (ht_table d 0))"
    using u_dictClear_ok [OF d1(3), of cb] d1(1) by auto
  let ?d2 = "(u_dictReset d1 0)\<lparr>d_log := d_log d1 @ l0\<rparr>"
  have "table_ok t ?d2 1" "ht_table ?d2 1 = ht_table d 1" using d1(1,4) by (auto simp: u_dictReset_def table_ok_def)
  then obtain l1 where l1: "u_dictClear ?d2 1 cb = Some ((u_dictReset ?d2 1)\<lparr>d_log := d_log ?d2 @ l1\<rparr>)" "filter is_free l1 = frees (concat (ht_table d 1))"
    using u_dictClear_ok [of t ?d2 1 cb] by auto
  let ?d3 = "((u_dictReset ?d2 1)\<lparr>d_log := d_log ?d2 @ l1\<rparr>)\<lparr>rehashidx := -1, pauserehash := 0, pauseAutoResize := 0\<rparr>"
  have "dictEmpty d cb = Some ?d3" using l0(1) l1(1) by (simp add: dictEmpty_def Let_def d1_def [symmetric])
  moreover have "dict_inv t ?d3" "dict_map t ?d3 = Map.empty"
    by (simp_all add: u_dictReset_def dict_inv_def table_ok_def placed_def DICTHT_SIZE_def all_entries_def dict_map_def)
  moreover have "filter is_free (d_log ?d3) = filter is_free (d_log d) @ frees (all_entries d)"
    using l0(2) l1(2) d1(2) by (simp add: all_entries_def)
  ultimately show ?thesis by (intro exI [of _ ?d3]) simp
qed

end
