(* ===== verification/Dict_Session.thy ===== *)
theory Dict_Session
  imports Dict_Ops
begin

unbundle bit_operations_syntax

text \<open>
  Sessions with a dictionary of \<^verbatim>\<open>src/dict.c\<close>: any sequence of calls, with the resize policy changing between them,
  answers as a finite map does, and the theorems about rehashing, clearing and sizes.
\<close>

section \<open>Calls\<close>

datatype ('s, 'k, 'v) dcall =
  Add 's 'v | Replace 's 'v | AddOrFind 's | InsertKey 's | Delete 'k | Unlink 'k | TwoPhaseUnlink 'k
  | Lookup 'k | FetchValue 'k | Expand nat | TryExpand bool nat | Shrink nat | Rehash nat
  | PauseRehashing | ResumeRehashing | Empty bool | Size

datatype ('s, 'v) dres = Done | Ok bool | Entry "('s \<times> 'v) option" | Val "'v option" | Count nat

fun exec_dcall ::
  "('s, 'k, 'v) dictType \<Rightarrow> 'v \<Rightarrow> dictResizeEnable \<times> ('s, 'k, 'v) dcall \<Rightarrow> ('s, 'v) dict \<Rightarrow> (('s, 'v) dres \<times> ('s, 'v) dict) option" where
  "exec_dcall t junk (cr, Add k v) d = do { (d, ok) \<leftarrow> dictAdd t cr junk d k v; Some (Ok ok, d) }"
| "exec_dcall t junk (cr, Replace k v) d = do { (d, ok) \<leftarrow> dictReplace t cr junk d k v; Some (Ok ok, d) }"
| "exec_dcall t junk (cr, AddOrFind k) d =
     do { (d, l) \<leftarrow> dictAddOrFind t cr junk d k; e \<leftarrow> entry_at d l; Some (Entry (Some e), d) }"
| "exec_dcall t junk (cr, InsertKey k) d = do { d \<leftarrow> dictSetKeyAtLink_new t cr junk d k None; Some (Done, d) }"
| "exec_dcall t junk (cr, Delete key) d = do { (d, ok) \<leftarrow> dictDelete t cr d key; Some (Ok ok, d) }"
| "exec_dcall t junk (cr, Unlink key) d = do { (d, he) \<leftarrow> dictUnlink t cr d key; Some (Entry he, d) }"
| "exec_dcall t junk (cr, TwoPhaseUnlink key) d =
     do { (d, l) \<leftarrow> dictTwoPhaseUnlinkFind t cr d key; d \<leftarrow> dictTwoPhaseUnlinkFree t cr d l; Some (Ok (l \<noteq> None), d) }"
| "exec_dcall t junk (cr, Lookup key) d = do { (d, he) \<leftarrow> dictFind t cr d key; Some (Entry he, d) }"
| "exec_dcall t junk (cr, FetchValue key) d = do { (d, v) \<leftarrow> dictFetchValue t cr d key; Some (Val v, d) }"
| "exec_dcall t junk (cr, Expand n) d = do { (d, _) \<leftarrow> dictExpand t cr d n; Some (Done, d) }"
| "exec_dcall t junk (cr, TryExpand calloc_ok n) d = do { (d, _) \<leftarrow> dictTryExpand t cr calloc_ok d n; Some (Done, d) }"
| "exec_dcall t junk (cr, Shrink n) d = do { (d, _) \<leftarrow> dictShrink t cr d n; Some (Done, d) }"
| "exec_dcall t junk (cr, Rehash n) d = do { (d, _) \<leftarrow> dictRehash t cr d n; Some (Done, d) }"
| "exec_dcall t junk (cr, PauseRehashing) d = Some (Done, dictPauseRehashing d)"
| "exec_dcall t junk (cr, ResumeRehashing) d = Some (Done, dictResumeRehashing d)"
| "exec_dcall t junk (cr, Empty callback) d = do { d \<leftarrow> dictEmpty d callback; Some (Done, d) }"
| "exec_dcall t junk (cr, Size) d = Some (Count (dictSize d), d)"

text \<open>The map from keys to stored entries, and the depth of the pauses.\<close>

type_synonym ('s, 'k, 'v) dstate = "('k \<Rightarrow> ('s \<times> 'v) option) \<times> nat"

fun spec_dcall ::
  "('s, 'k, 'v) dictType \<Rightarrow> 'v \<Rightarrow> dictResizeEnable \<times> ('s, 'k, 'v) dcall \<Rightarrow> ('s, 'k, 'v) dstate \<Rightarrow> ('s, 'v) dres \<times> ('s, 'k, 'v) dstate" where
  "spec_dcall t junk (cr, Add k v) (m, p) =
     (let key = keyFromStoredKey t k
      in if m key = None then (Ok True, m(key \<mapsto> (keyDup t k, if no_value t then junk else valDup t v)), p)
         else (Ok False, m, p))"
| "spec_dcall t junk (cr, Replace k v) (m, p) =
     (let key = keyFromStoredKey t k
      in (Ok (m key = None), m(key \<mapsto> (case m key of None \<Rightarrow> keyDup t k | Some (k', _) \<Rightarrow> k', valDup t v)), p))"
| "spec_dcall t junk (cr, AddOrFind k) (m, p) =
     (let key = keyFromStoredKey t k; m = (if m key = None then m(key \<mapsto> (keyDup t k, junk)) else m)
      in (Entry (m key), m, p))"
| "spec_dcall t junk (cr, InsertKey k) (m, p) = (Done, m(keyFromStoredKey t k \<mapsto> (keyDup t k, junk)), p)"
| "spec_dcall t junk (cr, Delete key) (m, p) = (Ok (m key \<noteq> None), m(key := None), p)"
| "spec_dcall t junk (cr, Unlink key) (m, p) = (Entry (m key), m(key := None), p)"
| "spec_dcall t junk (cr, TwoPhaseUnlink key) (m, p) = (Ok (m key \<noteq> None), m(key := None), p)"
| "spec_dcall t junk (cr, Lookup key) (m, p) = (Entry (m key), m, p)"
| "spec_dcall t junk (cr, FetchValue key) (m, p) = (Val (map_option snd (m key)), m, p)"
| "spec_dcall t junk (cr, PauseRehashing) (m, p) = (Done, m, (p + 1) mod 2 ^ 32)"
| "spec_dcall t junk (cr, ResumeRehashing) (m, p) = (Done, m, p - 1)"
| "spec_dcall t junk (cr, Empty callback) (m, p) = (Done, Map.empty, 0)"
| "spec_dcall t junk (cr, Size) (m, p) = (Count (card (dom m)), m, p)"
| "spec_dcall t junk (cr, _) (m, p) = (Done, m, p)"

text \<open>What a caller owes: values are only replaced in dictionaries with values, \<^verbatim>\<open>dictSetKeyAtLink\<close> with a new item gets
  a key that is not there, a resume matches a pause, and ten times the steps of \<^verbatim>\<open>dictRehash\<close> are an \<^verbatim>\<open>int\<close>.\<close>

fun dcall_ok :: "('s, 'k, 'v) dictType \<Rightarrow> dictResizeEnable \<times> ('s, 'k, 'v) dcall \<Rightarrow> ('s, 'k, 'v) dstate \<Rightarrow> bool" where
  "dcall_ok t (cr, Replace k v) (m, p) \<longleftrightarrow> \<not> no_value t"
| "dcall_ok t (cr, InsertKey k) (m, p) \<longleftrightarrow> m (keyFromStoredKey t k) = None"
| "dcall_ok t (cr, ResumeRehashing) (m, p) \<longleftrightarrow> 0 < p"
| "dcall_ok t (cr, Rehash n) (m, p) \<longleftrightarrow> n * 10 < 2 ^ 31"
| "dcall_ok t c a \<longleftrightarrow> True"

definition dict_rep :: "('s, 'k, 'v) dictType \<Rightarrow> ('s, 'v) dict \<Rightarrow> ('s, 'k, 'v) dstate \<Rightarrow> bool" where
  "dict_rep t d a \<longleftrightarrow> type_ok t \<and> dict_inv t d \<and> pauseAutoResize d = 0 \<and> pauserehash d < 2 ^ 32 \<and> a = (dict_map t d, pauserehash d)"

lemma dict_repI: "type_ok t \<Longrightarrow> pauseAutoResize d = 0 \<Longrightarrow> pauserehash d < 2 ^ 32 \<Longrightarrow> calm t d d' \<Longrightarrow> dict_map t d' = m \<Longrightarrow> dict_rep t d' (m, pauserehash d)"
  by (simp add: dict_rep_def calm_def)

lemma dict_rep_moves: "dict_rep t d a \<Longrightarrow> moves t d d' \<Longrightarrow> dict_rep t d' a"
  using moves_map [of t d d'] by (auto simp: dict_rep_def moves_def)

lemma exec_dcall_rep:
  assumes rep: "dict_rep t d a" and ok: "dcall_ok t c a"
  shows "\<exists>d'. exec_dcall t junk c d = Some (fst (spec_dcall t junk c a), d') \<and> dict_rep t d' (snd (spec_dcall t junk c a))"
proof -
  obtain cr x where c: "c = (cr, x)" by (cases c)
  have ty: "type_ok t" and inv: "dict_inv t d" and pa: "pauseAutoResize d = 0" and pr: "pauserehash d < 2 ^ 32" and a: "a = (dict_map t d, pauserehash d)"
    using rep by (auto simp: dict_rep_def)
  have add: "can_add d" using pa by (simp add: can_add_def)
  note I = dict_repI [OF ty pa pr] and M = dict_rep_moves [OF rep]
  show ?thesis
  proof (cases x)
    case (Add k v)
    then show ?thesis using dictAdd_ok [OF ty inv add refl, of cr junk k v] I c a by (auto simp: Let_def)
  next
    case (Replace k v)
    then have "\<not> no_value t" using ok c a by simp
    then obtain d' where "dictReplace t cr junk d k v = Some (d', dict_map t d (keyFromStoredKey t k) = None)" "calm t d d'"
      "dict_map t d' = (dict_map t d)(keyFromStoredKey t k \<mapsto>
         (case dict_map t d (keyFromStoredKey t k) of None \<Rightarrow> keyDup t k | Some (k', _) \<Rightarrow> k', valDup t v))"
      using dictReplace_ok [OF ty inv add refl] by blast
    then show ?thesis using I c a Replace by (simp add: Let_def)
  next
    case (AddOrFind k)
    then show ?thesis using dictAddOrFind_ok [OF ty inv add refl, of cr junk k] I c a by (auto simp: Let_def)
  next
    case (InsertKey k)
    then show ?thesis using setKeyAtLink_new_ok [OF ty inv refl, of k cr junk] ok I c a by auto
  next
    case (Delete key)
    then show ?thesis using dictGenericDelete_ok [OF ty inv, of cr key False] I c a by (auto simp: dictDelete_def)
  next
    case (Unlink key)
    then show ?thesis using dictGenericDelete_ok [OF ty inv, of cr key True] I c a by (auto simp: dictUnlink_def)
  next
    case (TwoPhaseUnlink key)
    obtain d1 l d' where d': "dictTwoPhaseUnlinkFind t cr d key = Some (d1, l)" "dictTwoPhaseUnlinkFree t cr d1 l = Some d'"
      "calm t d d'" "dict_map t d' = (dict_map t d)(key := None)" "dict_map t d key = (case l of None \<Rightarrow> None | Some l \<Rightarrow> entry_at d1 l)"
      using twoPhase_ok [OF ty inv pr] by blast
    then have "(l \<noteq> None) = (dict_map t d key \<noteq> None)"
      by (cases l) (auto simp: dictTwoPhaseUnlinkFree_def split: bind_splits)
    then show ?thesis using d' I c a TwoPhaseUnlink by auto
  next
    case (Lookup key)
    then show ?thesis using dictFind_ok [OF ty inv, of cr key] M c a by auto
  next
    case (FetchValue key)
    then show ?thesis using dictFind_ok [OF ty inv, of cr key] M c a by (auto simp: dictFetchValue_def)
  next
    case (Expand n)
    then show ?thesis using dictExpand_ok [OF inv, of cr n] M c a by auto
  next
    case (TryExpand b n)
    then show ?thesis using dictTryExpand_ok [OF inv, of cr b n] M c a by auto
  next
    case (Shrink n)
    then show ?thesis using dictShrink_ok [OF inv, of cr n] M c a by auto
  next
    case (Rehash n)
    then show ?thesis using dictRehash_ok [OF inv, of n cr] M c a ok by auto
  next
    case (Empty cb)
    then show ?thesis using dictEmpty_ok [OF inv, of cb] ty c a by (auto simp: dict_rep_def)
  next
    case Size
    then show ?thesis using rep dictSize_map [OF inv] c a by simp
  next
    case PauseRehashing
    then show ?thesis using rep c a by (auto simp: dict_rep_def) (simp_all add: dictPauseRehashing_def)
  next
    case ResumeRehashing
    then show ?thesis using rep c a ok by (auto simp: dict_rep_def) (simp_all add: dictResumeRehashing_def)
  qed
qed

interpretation dsession: session "exec_dcall t junk" "spec_dcall t junk" "dcall_ok t" "dict_rep t"
  by unfold_locales (rule exec_dcall_rep)

lemma dictCreate_rep: "type_ok t \<Longrightarrow> dict_rep t (dictCreate j) (Map.empty, 0)"
  by (simp add: dict_rep_def dictCreate_def u_dictInit_def u_dictReset_def dict_inv_def table_ok_def placed_def
      DICTHT_SIZE_def all_entries_def dict_map_def)

section \<open>Reachable dictionaries\<close>

inductive dict_reachable :: "('s, 'k, 'v) dictType \<Rightarrow> 'v \<Rightarrow> ('s, 'v) dict \<Rightarrow> bool" for t junk where
  created: "dict_reachable t junk (dictCreate j)"
| called: "dict_reachable t junk d \<Longrightarrow> dcall_ok t c (dict_map t d, pauserehash d) \<Longrightarrow>
    exec_dcall t junk c d = Some (r, d') \<Longrightarrow> dict_reachable t junk d'"

lemma reachable_rep: "dict_reachable t junk d \<Longrightarrow> type_ok t \<Longrightarrow> dict_rep t d (dict_map t d, pauserehash d)"
proof (induction rule: dict_reachable.induct)
  case (created j)
  then show ?case using dictCreate_rep [of t j] by (auto simp: dict_rep_def)
next
  case (called d c r d')
  then show ?case using exec_dcall_rep [of t d _ c junk] by (fastforce simp: dict_rep_def)
qed

section \<open>Rehashing to the end\<close>

fun rehash_times :: "('s, 'k, 'v) dictType \<Rightarrow> dictResizeEnable \<Rightarrow> nat \<Rightarrow> nat \<Rightarrow> ('s, 'v) dict \<Rightarrow> ('s, 'v) dict option" where
  "rehash_times t cr n 0 d = Some d"
| "rehash_times t cr n (Suc k) d = do { (d, _) \<leftarrow> dictRehash t cr d n; rehash_times t cr n k d }"

lemma rehash_times_idle: "dict_inv t d \<Longrightarrow> rehash_blocked cr d \<Longrightarrow> n * 10 < 2 ^ 31 \<Longrightarrow> rehash_times t cr n k d = Some d"
  by (induction k) (auto simp: dictRehash_def)

lemma idle_blocked: "\<not> dictIsRehashing d \<Longrightarrow> rehash_blocked cr d"
  by (simp add: rehash_blocked_def Let_def)

lemma rehash_times_ok:
  assumes "dict_inv t d" "\<not> rehash_blocked cr d" "0 < n" "n * 10 < 2 ^ 31" "int (DICTHT_SIZE (ht_size_exp d 0)) - rehashidx d \<le> int k"
  shows "\<exists>d'. rehash_times t cr n (Suc k) d = Some d' \<and> moves t d d' \<and> \<not> dictIsRehashing d'"
  using assms
proof (induction k arbitrary: d)
  case 0
  obtain d1 more where d1: "dictRehash t cr d n = Some (d1, more)" "moves t d d1" "\<not> more \<longrightarrow> \<not> dictIsRehashing d1"
    "more \<longrightarrow> dictIsRehashing d1 \<and> ht_size_exp d1 = ht_size_exp d \<and> rehashidx d < rehashidx d1"
    using dictRehash_ok [OF 0(1,4), of cr] 0(2,3) by blast
  then show ?case using 0(5) inv_rehash_bound [OF moves_inv [OF d1(2)]] by (cases more) auto
next
  case (Suc k)
  obtain d1 more where d1: "dictRehash t cr d n = Some (d1, more)" "moves t d d1" "\<not> more \<longrightarrow> \<not> dictIsRehashing d1"
    "more \<longrightarrow> dictIsRehashing d \<and> dictIsRehashing d1 \<and> ht_size_exp d1 = ht_size_exp d \<and> rehashidx d < rehashidx d1"
    using dictRehash_ok [OF Suc.prems(1,4), of cr] Suc.prems(2,3) by blast
  show ?case
  proof (cases more)
    case True
    then have "\<not> rehash_blocked cr d1" using d1(4) blocked_cong [of d1 d cr] Suc.prems(2) by auto
    then obtain d' where "rehash_times t cr n (Suc k) d1 = Some d'" "moves t d1 d'" "\<not> dictIsRehashing d'"
      using Suc.IH [OF moves_inv [OF d1(2)]] Suc.prems(3,4,5) d1(4) True by force
    then show ?thesis using d1(1) moves_trans [OF d1(2)] by auto
  next
    case False
    then have "rehash_blocked cr d1" using d1(3) idle_blocked by blast
    then have "rehash_times t cr n (Suc k) d1 = Some d1" by (rule rehash_times_idle [OF moves_inv [OF d1(2)] _ Suc.prems(4)])
    then show ?thesis using d1 False by auto
  qed
qed

section \<open>Properties\<close>

text \<open>A small dictionary type for the examples: numbers as keys and values.\<close>

definition numType :: "(nat, nat, nat) dictType" where
  "numType = \<lparr>hashFunction = of_nat, keyFromStoredKey = id, keyDup = id, valDup = id, keyCompare = (=),
     resizeAllowed = (\<lambda>_ _ _. True), no_value = False, force_full_rehash = False\<rparr>"

lemma numType_ok: "type_ok numType"
  by (simp add: type_ok_def numType_def)

text \<open>A dictionary in the middle of growing from 4 to 8 buckets.\<close>

definition growing :: "(nat, nat) dict" where
  "growing = \<lparr>ht_table = (\<lambda>i. if i = 0 then [[], [(5, 50), (1, 10)], [], [(3, 30)]] else [[], [], [], [], [(4, 40)], [], [], []]),
     ht_used = (\<lambda>i. if i = 0 then 3 else 1), rehashidx = 1, pauserehash = 0,
     ht_size_exp = (\<lambda>i. if i = 0 then 2 else 3), pauseAutoResize = 0, d_log = []\<rparr>"

lemma growing_inv: "dict_inv numType growing"
  by (simp add: growing_def numType_def dict_inv_def table_ok_def placed_def All_less_Suc DICTHT_SIZE_def DICTHT_SIZE_MASK_def
      dictGetHash_def ekey_def all_entries_def)

lemma growing_free: "\<not> rehash_blocked DICT_RESIZE_ENABLE growing"
  by (simp add: rehash_blocked_def growing_def dictIsRehashing_def Let_def)

text \<open>C2. Any sequence of the seventeen dictionary calls of \<open>dcall\<close>, under resize policies that change from call to call, runs
  without a fault from a fresh dictionary and answers exactly as a finite map from keys to entries would, however the
  incremental rehashing, the expansions and the shrinks interleave with the calls; at the end the dictionary stands for the
  map's final state. The calls keep the preconditions of the interface: no replacement in a type without values, no second
  insertion at a key that is there, a resume only after a pause, and a budget for \<^verbatim>\<open>dictRehash\<close> whose tenfold is an \<^verbatim>\<open>int\<close>. Pausing
  the automatic resizing is not among the calls.\<close>

theorem dict_session_refines_map:
  assumes "type_ok t" "ok_steps (dcall_ok t) (spec_dcall t junk) cs (Map.empty, 0)"
  shows "\<exists>d. run_steps (exec_dcall t junk) cs (dictCreate j) = Some (fst (spec_steps (spec_dcall t junk) cs (Map.empty, 0)), d) \<and>
    dict_inv t d \<and> (dict_map t d, pauserehash d) = snd (spec_steps (spec_dcall t junk) cs (Map.empty, 0))"
  using dsession.run_refines [OF dictCreate_rep [OF assms(1)] assms(2), of j] by (auto simp: dict_rep_def)

theorem dict_session_refines_map_witness:
  "\<exists>d. run_steps (exec_dcall numType 0)
     [(DICT_RESIZE_ENABLE, Add 1 10), (DICT_RESIZE_AVOID, Replace 1 20), (DICT_RESIZE_FORBID, Add 1 30),
      (DICT_RESIZE_ENABLE, FetchValue 1), (DICT_RESIZE_ENABLE, Delete 1), (DICT_RESIZE_ENABLE, Lookup 1)] (dictCreate growing)
   = Some ([Ok True, Ok False, Ok False, Val (Some 20), Ok True, Entry None], d) \<and> dict_inv numType d \<and> dict_map numType d = Map.empty"
  using dict_session_refines_map [OF numType_ok, of 0
     "[(DICT_RESIZE_ENABLE, Add 1 10), (DICT_RESIZE_AVOID, Replace 1 20), (DICT_RESIZE_FORBID, Add 1 30),
      (DICT_RESIZE_ENABLE, FetchValue 1), (DICT_RESIZE_ENABLE, Delete 1), (DICT_RESIZE_ENABLE, Lookup 1)]" growing]
  by (simp add: numType_def Let_def del: exec_dcall.simps run_steps.simps) blast

text \<open>C9. In every dictionary that calls can produce, the tables are well formed: sizes are powers of two between 4 and
  2^60, every entry is in the bucket its hash selects, the counters are the numbers of entries, no key occurs twice
  in the two tables, the second table is there only while rehashing, and the buckets of the first table below \<^verbatim>\<open>rehashidx\<close>
  are empty. No further legal call faults.\<close>

theorem dict_reachable_invariant:
  assumes "dict_reachable t junk d" "type_ok t"
  shows "dict_inv t d \<and>
    (dcall_ok t c (dict_map t d, pauserehash d) \<longrightarrow> (\<exists>r d'. exec_dcall t junk c d = Some (r, d') \<and> dict_inv t d'))"
  using reachable_rep [OF assms] exec_dcall_rep [OF reachable_rep [OF assms]] by (fastforce simp: dict_rep_def)

theorem dict_reachable_invariant_witness:
  "dict_reachable numType 0 (dictCreate growing) \<and> dict_inv numType (dictCreate growing) \<and>
   (\<exists>r d'. exec_dcall numType 0 (DICT_RESIZE_ENABLE, Add 1 10) (dictCreate growing) = Some (r, d') \<and> dict_inv numType d')"
  using dict_reachable_invariant [OF dict_reachable.created [of numType 0 growing] numType_ok, of "(DICT_RESIZE_ENABLE, Add 1 10)"]
  by (simp add: dict_reachable.created del: exec_dcall.simps)

text \<open>C16. The loop that rehashes a dictionary completely ends: unless the resize policy forbids it, \<^verbatim>\<open>while (dictRehash(d, 1000))\<close>
  returns a dictionary that is no longer rehashing and has the same entries.\<close>

theorem full_rehash_terminates:
  assumes "dict_inv t d" "\<not> rehash_blocked can_resize d"
  shows "\<exists>d'. full_rehash t can_resize d = Some d' \<and> \<not> dictIsRehashing d' \<and> dict_inv t d' \<and> dict_map t d' = dict_map t d"
  using full_rehash_ok [OF assms(1), of can_resize] assms moves_map [OF assms(1)] by (auto dest: moves_inv)

theorem full_rehash_terminates_witness:
  "\<exists>d'. full_rehash numType DICT_RESIZE_ENABLE growing = Some d' \<and> \<not> dictIsRehashing d' \<and> dict_inv numType d' \<and>
     dict_map numType d' 5 = Some (5, 50)"
  using full_rehash_terminates [OF growing_inv growing_free]
  by (auto simp: growing_def dict_map_def all_entries_def ekey_def numType_def)

text \<open>C14. Incremental rehashing finishes unless the resize policy blocks it: a client that keeps calling \<^verbatim>\<open>dictRehash\<close> with a
  positive budget whose tenfold is an \<^verbatim>\<open>int\<close> is done after at most one call per bucket still ahead and one more, and no entry
  is lost on the way. When the policy (forbidding resizes, or avoiding them while the two sizes are close) blocks
  rehashing, or none is going on, the calls change nothing.\<close>

theorem incremental_rehash_completes:
  assumes "dict_inv t d" "0 < n" "n * 10 < 2 ^ 31" "DICTHT_SIZE (ht_size_exp d 0) < k + nat (rehashidx d)"
  shows "\<exists>d'. rehash_times t can_resize n k d = Some d' \<and> dict_inv t d' \<and> dict_map t d' = dict_map t d \<and>
    (if rehash_blocked can_resize d then d' = d else \<not> dictIsRehashing d')"
proof (cases "rehash_blocked can_resize d")
  case True
  then show ?thesis using rehash_times_idle [OF assms(1) _ assms(3)] assms(1) by simp
next
  case False
  then have "dictIsRehashing d" using idle_blocked by blast
  then have r: "0 \<le> rehashidx d" "rehashidx d \<le> int (DICTHT_SIZE (ht_size_exp d 0))"
    using assms(1) inv_rehash_bound [of t d] by (auto simp: dict_inv_def dictIsRehashing_def table_ok_def)
  then obtain k' where k': "k = Suc k'" using assms(4) by (cases k) auto
  then have "int (DICTHT_SIZE (ht_size_exp d 0)) - rehashidx d \<le> int k'" using assms(4) r by linarith
  then show ?thesis
    using rehash_times_ok [OF assms(1) False assms(2,3)] moves_map [OF assms(1)] False unfolding k' by (fastforce dest: moves_inv)
qed

theorem incremental_rehash_completes_witness:
  "\<exists>d'. rehash_times numType DICT_RESIZE_ENABLE 1 4 growing = Some d' \<and> \<not> dictIsRehashing d' \<and> dict_map numType d' 3 = Some (3, 30)"
  using incremental_rehash_completes [OF growing_inv, of 1 4 DICT_RESIZE_ENABLE] growing_free
  by (auto simp: growing_def dict_map_def all_entries_def ekey_def numType_def DICTHT_SIZE_def)

text \<open>C30. Emptying a dictionary hands every stored key and every value of both tables to its destructor exactly once, in
  bucket order, although the loop stops as soon as the counter reads zero, and leaves an empty dictionary that is not
  rehashing.\<close>

theorem dictEmpty_frees_all:
  assumes "dict_inv t d"
  shows "\<exists>d'. dictEmpty d callback = Some d' \<and> dict_inv t d' \<and> dict_map t d' = Map.empty \<and> \<not> dictIsRehashing d' \<and>
    filter is_free (d_log d') = filter is_free (d_log d) @ frees (all_entries d)"
proof -
  obtain d' where d': "dictEmpty d callback = Some d'" "dict_inv t d'" "dict_map t d' = Map.empty"
    "filter is_free (d_log d') = filter is_free (d_log d) @ frees (all_entries d)"
    using dictEmpty_ok [OF assms] by blast
  moreover have "\<not> dictIsRehashing d'" using d'(1) by (auto simp: dictEmpty_def Let_def dictIsRehashing_def split: bind_splits)
  ultimately show ?thesis by blast
qed

theorem dictEmpty_frees_all_witness:
  "\<exists>d'. dictEmpty growing False = Some d' \<and>
     filter is_free (d_log d') = [FreeKey 5, FreeVal 50, FreeKey 1, FreeVal 10, FreeKey 3, FreeVal 30, FreeKey 4, FreeVal 40]"
  using dictEmpty_frees_all [OF growing_inv, of False] by (auto simp: growing_def all_entries_def)

text \<open>C33. The size of a new table is the least power of two, at least 4, that holds the requested number of entries.\<close>

theorem dictNextExpForSize_least:
  assumes "sz \<le> 2 ^ 63"
  shows "sz \<le> DICTHT_SIZE (dictNextExpForSize sz) \<and> 2 \<le> dictNextExpForSize sz \<and> dictNextExpForSize sz \<le> 63 \<and>
    (\<forall>e. 2 \<le> e \<and> sz \<le> DICTHT_SIZE e \<longrightarrow> dictNextExpForSize sz \<le> e)"
proof -
  have "dictNextExpForSize sz \<le> e" if e: "2 \<le> e" "sz \<le> DICTHT_SIZE e" for e
  proof (cases "sz \<le> 4 \<or> sz \<ge> 2 ^ 63 - 1")
    case True
    have "63 \<le> nat e" if "sz \<ge> 2 ^ 63 - 1"
    proof (rule ccontr)
      assume "\<not> 63 \<le> nat e"
      then have "(2 :: nat) ^ nat e \<le> 2 ^ 62" by (intro power_increasing) auto
      then show False using e that by (simp add: DICTHT_SIZE_def)
    qed
    then show ?thesis using True e(1) by (auto simp: dictNextExpForSize_def DICT_HT_INITIAL_SIZE_def DICT_HT_INITIAL_EXP_def)
  next
    case False
    have "sz \<le> 2 ^ nat e" using e by (simp add: DICTHT_SIZE_def)
    then have "sz - 1 < 2 ^ nat e" using False by linarith
    then have "bitlen (sz - 1) \<le> nat e" by (rule bitlen_le)
    then show ?thesis using False e(1) by (auto simp: dictNextExpForSize_def DICT_HT_INITIAL_SIZE_def)
  qed
  then show ?thesis using nextExp_ge [OF assms] nextExp_range [of sz] by blast
qed

theorem dictNextExpForSize_least_witness:
  "100 \<le> DICTHT_SIZE (dictNextExpForSize 100) \<and> dictNextExpForSize 100 \<le> 7"
proof -
  have "(100 :: nat) \<le> DICTHT_SIZE 7" by (simp add: DICTHT_SIZE_def)
  then show ?thesis using dictNextExpForSize_least [of 100] by force
qed

text \<open>C39. Adding to a dictionary that has no table yet while automatic resizing is paused faults: the expansion that would
  allocate the table is refused and the null table is read.\<close>

theorem dictAdd_paused_empty_faults:
  assumes "0 < pauseAutoResize d" "ht_table d 0 = []" "rehashidx d = -1"
  shows "dictAdd t can_resize junk d k v = None"
  using assms by (simp add: dictAdd_def dictAddRaw_def dictFindLinkForInsert_def u_dictRehashStepIfNeeded_def
    u_dictExpandIfNeeded_def search_tables_def bucket_at_def dictIsRehashing_def Let_def)

theorem dictAdd_paused_empty_faults_witness:
  "dictAdd numType DICT_RESIZE_ENABLE 0 ((dictCreate growing)\<lparr>pauseAutoResize := 1\<rparr>) 1 10 = None"
  using dictAdd_paused_empty_faults [of "(dictCreate growing)\<lparr>pauseAutoResize := 1\<rparr>"]
  by (simp add: dictCreate_def u_dictInit_def u_dictReset_def)

end
