(* ===== verification/Dict_Scan.thy ===== *)
theory Dict_Scan
  imports Dict_Session
begin

unbundle bit_operations_syntax

text \<open>
  The cursor of \<^verbatim>\<open>dictScan\<close> in \<^verbatim>\<open>src/dict.c\<close>: bit reversal turns the cursor into a position in the order of the
  reversed hashes, one call covers an interval of that order whatever the sizes of the tables, and so a complete
  iteration reports every key that is present throughout.
\<close>

section \<open>Bit reversal\<close>

definition swap_step :: "nat \<Rightarrow> u64 \<Rightarrow> u64 \<Rightarrow> u64" where
  "swap_step s m v = (drop_bit s v AND m) OR (push_bit s v AND NOT m)"

lemma rev_step:
  "0 < s \<Longrightarrow> m' = m XOR push_bit s m \<Longrightarrow> rev_loop (2 * s) m v = rev_loop s m' (swap_step s m' v)"
  by (subst rev_loop.simps) (simp add: Let_def swap_step_def)

lemma rev_masks:
  "(0x00000000FFFFFFFF :: u64) = NOT 0 XOR push_bit 32 (NOT 0)"
  "(0x0000FFFF0000FFFF :: u64) = 0x00000000FFFFFFFF XOR push_bit 16 0x00000000FFFFFFFF"
  "(0x00FF00FF00FF00FF :: u64) = 0x0000FFFF0000FFFF XOR push_bit 8 0x0000FFFF0000FFFF"
  "(0x0F0F0F0F0F0F0F0F :: u64) = 0x00FF00FF00FF00FF XOR push_bit 4 0x00FF00FF00FF00FF"
  "(0x3333333333333333 :: u64) = 0x0F0F0F0F0F0F0F0F XOR push_bit 2 0x0F0F0F0F0F0F0F0F"
  "(0x5555555555555555 :: u64) = 0x3333333333333333 XOR push_bit 1 0x3333333333333333"
  by code_simp+

lemma dict_rev_steps:
  "dict_rev v = swap_step 1 0x5555555555555555 (swap_step 2 0x3333333333333333 (swap_step 4 0x0F0F0F0F0F0F0F0F
     (swap_step 8 0x00FF00FF00FF00FF (swap_step 16 0x0000FFFF0000FFFF (swap_step 32 0x00000000FFFFFFFF v)))))"
  using rev_step [OF _ rev_masks(1)] rev_step [OF _ rev_masks(2)] rev_step [OF _ rev_masks(3)] rev_step [OF _ rev_masks(4)]
    rev_step [OF _ rev_masks(5)] rev_step [OF _ rev_masks(6)]
  by (simp add: dict_rev_def rev_loop.simps [of "Suc 0"] rev_loop.simps [of 1])

lemma bit_swap_step:
  "i < 64 \<Longrightarrow> bit (swap_step s m v) i \<longleftrightarrow> (if bit m i then bit v (s + i) else s \<le> i \<and> bit v (i - s))"
  by (auto simp: swap_step_def bit_simps)

definition flip :: "nat \<Rightarrow> nat \<Rightarrow> nat" where
  "flip s i = (if even (i div s) then s + i else i - s)"

text \<open>The masks and the index arithmetic, checked bit by bit.\<close>

definition flips :: "nat \<Rightarrow> u64 \<Rightarrow> bool" where
  "flips s m \<longleftrightarrow> list_all (\<lambda>i. (bit m i \<longleftrightarrow> even (i div s)) \<and> flip s i < 64 \<and> (even (i div s) \<or> s \<le> i)) [0..<64]"

lemma masks_flip:
  "flips 1 0x5555555555555555" "flips 2 0x3333333333333333" "flips 4 0x0F0F0F0F0F0F0F0F"
  "flips 8 0x00FF00FF00FF00FF" "flips 16 0x0000FFFF0000FFFF" "flips 32 0x00000000FFFFFFFF"
  by code_simp+

lemma all_upto: "list_all P [0..<n] \<longleftrightarrow> (\<forall>i<n. P i)"
  by (auto simp: list_all_iff)

lemma bit_flips: "flips s m \<Longrightarrow> i < 64 \<Longrightarrow> (bit (swap_step s m v) i \<longleftrightarrow> bit v (flip s i)) \<and> flip s i < 64"
  unfolding flips_def all_upto by (auto simp: bit_swap_step flip_def)

lemma flips_all: "i < 64 \<Longrightarrow> flip 32 (flip 16 (flip 8 (flip 4 (flip 2 (flip 1 i))))) = 63 - i"
proof -
  have "map (flip 32) (map (flip 16) (map (flip 8) (map (flip 4) (map (flip 2) (map (flip 1) [0..<64]))))) = map (\<lambda>i. 63 - i) [0..<64]"
    by (simp add: flip_def upt_rec del: map_map)
  then have "map (\<lambda>i. flip 32 (flip 16 (flip 8 (flip 4 (flip 2 (flip 1 i)))))) [0..<64] = map (\<lambda>i. 63 - i) [0..<64]"
    unfolding map_map comp_def .
  then show "i < 64 \<Longrightarrow> ?thesis" unfolding map_eq_conv by (metis atLeastLessThan_iff le0 set_upt)
qed

lemma bit_dict_rev: "i < 64 \<Longrightarrow> bit (dict_rev v) i \<longleftrightarrow> bit v (63 - i)"
  unfolding dict_rev_steps
  using bit_flips [OF masks_flip(1)] bit_flips [OF masks_flip(2)] bit_flips [OF masks_flip(3)] bit_flips [OF masks_flip(4)]
    bit_flips [OF masks_flip(5)] bit_flips [OF masks_flip(6)] flips_all [of i]
  by simp

lemma u64_eqI: "(\<And>i. i < 64 \<Longrightarrow> bit v i = bit w i) \<Longrightarrow> v = (w :: u64)"
  by (rule bit_word_eqI) simp

lemma dict_rev_rev [simp]: "dict_rev (dict_rev v) = v"
  by (rule u64_eqI) (simp add: bit_dict_rev)

lemma dict_rev_0 [simp]: "dict_rev 0 = 0"
  by (rule u64_eqI) (simp add: bit_dict_rev)

section \<open>The order of reversed hashes\<close>

definition pos :: "u64 \<Rightarrow> nat" where "pos v = unat (dict_rev v)"

text \<open>The position behind a cursor: the cursor 0 that ends an iteration is behind everything.\<close>

definition pos_end :: "u64 \<Rightarrow> nat" where "pos_end v = (if v = 0 then 2 ^ 64 else pos v)"

definition up :: "nat \<Rightarrow> nat \<Rightarrow> nat" where "up k r = (r div 2 ^ k + 1) * 2 ^ k"

lemma pos_less: "pos v < 2 ^ 64"
  using unsigned_less [of "dict_rev v"] by (simp add: pos_def)

lemma pos_0 [simp]: "pos 0 = 0"
  by (simp add: pos_def)

lemma pos_eq_0: "pos v = 0 \<longleftrightarrow> v = 0"
  by (metis dict_rev_0 dict_rev_rev pos_def unat_0 unat_eq_zero)

lemma up_gt: "r < up k r"
  using dividend_less_div_times [of "2 ^ k" r] by (simp add: up_def algebra_simps)

lemma up_le: "r < 2 ^ 64 \<Longrightarrow> k \<le> 64 \<Longrightarrow> up k r \<le> 2 ^ 64"
proof -
  assume a: "r < 2 ^ 64" "k \<le> 64"
  have e: "(2 :: nat) ^ 64 = 2 ^ (64 - k) * 2 ^ k" using a(2) by (metis le_add_diff_inverse2 power_add)
  then have "r div 2 ^ k < 2 ^ (64 - k)" using a(1) by (simp add: less_mult_imp_div_less)
  then show ?thesis unfolding up_def e by (intro mult_le_mono1) simp
qed

lemma rev_or_mask: "e \<le> 64 \<Longrightarrow> dict_rev (v OR NOT (mask e)) = dict_rev v OR mask (64 - e)"
  by (rule u64_eqI) (auto simp: bit_dict_rev bit_simps)

lemma nat_or_mask: "(a :: nat) OR mask k = a div 2 ^ k * 2 ^ k + (2 ^ k - 1)"
proof -
  have "a OR mask k = push_bit k (drop_bit k a) OR mask k"
    by (rule bit_eqI) (auto simp: bit_simps)
  also have "\<dots> = push_bit k (drop_bit k a) + mask k"
    by (rule disjunctive_add [symmetric]) (auto simp: bit_simps)
  finally show ?thesis by (simp add: push_bit_eq_mult drop_bit_eq_div mask_eq_exp_minus_1)
qed

lemma unat_mask: "k \<le> 64 \<Longrightarrow> unat (mask k :: u64) = mask k"
  by (rule bit_eqI) (auto simp: bit_simps bit_unsigned_iff)

lemma pos_next:
  assumes "e \<le> 64"
  shows "pos_end (next_cursor (mask e) v) = up (64 - e) (pos v)"
proof -
  let ?k = "64 - e" and ?x = "dict_rev (v OR NOT (mask e))"
  have "unat ?x = pos v OR mask ?k" using assms by (simp add: rev_or_mask pos_def unsigned_or_eq unat_mask)
  moreover have "pos v div 2 ^ ?k * 2 ^ ?k + (2 ^ ?k - 1) + 1 = up ?k (pos v)"
    unfolding up_def by (cases "2 ^ ?k :: nat") (auto simp: algebra_simps)
  ultimately have x: "unat ?x + 1 = up ?k (pos v)" by (simp add: nat_or_mask)
  have le: "up ?k (pos v) \<le> 2 ^ 64" using pos_less by (intro up_le) simp_all
  have p: "pos (next_cursor (mask e) v) = up ?k (pos v) mod 2 ^ 64"
    using x by (simp add: next_cursor_def pos_def unat_word_ariths)
  then show ?thesis using le up_gt [of "pos v" ?k] pos_eq_0 [of "next_cursor (mask e) v"]
    by (cases "up ?k (pos v) = 2 ^ 64") (auto simp: pos_end_def)
qed

text \<open>Cursors in the same block of the order select the same bucket.\<close>

lemma same_bucket:
  assumes "e \<le> 64" "pos v div 2 ^ (64 - e) = pos w div 2 ^ (64 - e)"
  shows "v AND mask e = w AND mask e"
proof (rule u64_eqI)
  fix i :: nat
  assume i: "i < 64"
  have "drop_bit (64 - e) (unat (dict_rev v)) = drop_bit (64 - e) (unat (dict_rev w))"
    using assms(2) by (simp add: pos_def drop_bit_eq_div)
  then have "bit (unat (dict_rev v)) (64 - e + (e - 1 - i)) = bit (unat (dict_rev w)) (64 - e + (e - 1 - i))"
    by (metis bit_drop_bit_eq comp_apply)
  then show "bit (v AND mask e) i = bit (w AND mask e) i"
    using i assms(1) by (cases "i < e") (auto simp: bit_simps bit_dict_rev bit_unsigned_iff)
qed

lemma up_block: "r \<le> h \<Longrightarrow> h < up k r \<Longrightarrow> h div 2 ^ k = r div 2 ^ k"
proof -
  assume a: "r \<le> h" "h < up k r"
  then have "r div 2 ^ k \<le> h div 2 ^ k" by (simp add: div_le_mono)
  moreover have "h div 2 ^ k < r div 2 ^ k + 1" using a(2) unfolding up_def by (rule less_mult_imp_div_less)
  ultimately show ?thesis by simp
qed

lemma up_eqI: "r \<le> h \<Longrightarrow> h < up k r \<Longrightarrow> up k h = up k r"
  using up_block [of r h k] by (simp add: up_def)

lemma up_least: "2 ^ k dvd m \<Longrightarrow> r < m \<Longrightarrow> up k r \<le> m"
proof -
  assume "2 ^ k dvd m" "r < m"
  then obtain q where q: "m = q * 2 ^ k" by (metis dvd_def mult.commute)
  then have "r div 2 ^ k < q" using \<open>r < m\<close> by (simp add: less_mult_imp_div_less)
  then show ?thesis unfolding up_def q by (intro mult_le_mono1) simp
qed

lemma up_dvd: "k' \<le> k \<Longrightarrow> 2 ^ k' dvd up k r"
  unfolding up_def by (rule dvd_mult) (rule le_imp_power_dvd)

lemma up_mono: "k' \<le> k \<Longrightarrow> up k' r \<le> up k r"
  by (intro up_least up_dvd up_gt)

lemma dvd_pos: "2 ^ k dvd pos v \<longleftrightarrow> (\<forall>i<k. i < 64 \<longrightarrow> \<not> bit v (63 - i))"
proof -
  have len: "i < 64" if "bit (dict_rev v) i" for i using bit_imp_le_length [OF that] by simp
  have "2 ^ k dvd pos v \<longleftrightarrow> take_bit k (pos v) = 0" by (simp add: take_bit_eq_0_iff)
  also have "\<dots> \<longleftrightarrow> (\<forall>i. \<not> (i < k \<and> bit (dict_rev v) i))"
    by (simp add: bit_eq_iff [of _ 0] bit_take_bit_iff pos_def bit_unsigned_iff)
  also have "\<dots> \<longleftrightarrow> (\<forall>i<k. i < 64 \<longrightarrow> \<not> bit v (63 - i))" using len bit_dict_rev by blast
  finally show ?thesis .
qed

lemma and_masks_0: "e0 \<le> e1 \<Longrightarrow> v AND (mask e0 XOR mask e1) = 0 \<longleftrightarrow> (\<forall>i. e0 \<le> i \<and> i < e1 \<and> i < 64 \<longrightarrow> \<not> bit v i)" for v :: u64
  by (auto simp: bit_eq_iff [of _ 0] bit_simps) (metis leI)

text \<open>The test that ends the loop over the larger table: the cursor is at a boundary of the smaller table's blocks.\<close>

lemma loop_test:
  assumes "e0 \<le> e1" "e1 \<le> 64" "2 ^ (64 - e1) dvd pos v"
  shows "v AND (mask e0 XOR mask e1) = 0 \<longleftrightarrow> 2 ^ (64 - e0) dvd pos v"
proof
  assume z: "v AND (mask e0 XOR mask e1) = 0"
  have "\<not> bit v (63 - i)" if i: "i < 64 - e0" "i < 64" for i
  proof (cases "i < 64 - e1")
    case True
    then show ?thesis using assms(3) i(2) by (simp add: dvd_pos)
  next
    case False
    then have "e0 \<le> 63 - i" "63 - i < e1" "63 - i < 64" using assms(1,2) i by auto
    then show ?thesis using z assms(1) by (metis and_masks_0)
  qed
  then show "2 ^ (64 - e0) dvd pos v" by (simp add: dvd_pos)
next
  assume d: "2 ^ (64 - e0) dvd pos v"
  have "\<not> bit v i" if "e0 \<le> i" "i < e1" "i < 64" for i
  proof -
    have "63 - i < 64 - e0" "63 - i < 64" "63 - (63 - i) = i" using that by auto
    then show ?thesis using d by (metis dvd_pos)
  qed
  then show "v AND (mask e0 XOR mask e1) = 0" using assms(1) by (simp add: and_masks_0)
qed

lemma dvd_pos_end: "k \<le> 64 \<Longrightarrow> 2 ^ k dvd pos_end v \<longleftrightarrow> 2 ^ k dvd pos v"
  using le_imp_power_dvd [of k 64 "2 :: nat"] by (simp add: pos_end_def)

section \<open>One call\<close>

definition hash_pos :: "('s, 'k, 'v) dictType \<Rightarrow> 's \<times> 'v \<Rightarrow> nat" where
  "hash_pos t x = pos (hashFunction t (ekey t x))"

lemma size_mask: "0 \<le> e \<Longrightarrow> DICTHT_SIZE_MASK e = mask (nat e)"
  by (simp add: DICTHT_SIZE_MASK_def DICTHT_SIZE_def mask_eq_exp_minus_1)

lemma of_nat_mask: "(of_nat (mask n) :: u64) = mask n"
  by (simp add: mask_eq_exp_minus_1 of_nat_diff)

definition tbl_exp :: "('s, 'v) dict \<Rightarrow> nat \<Rightarrow> nat" where "tbl_exp d i = nat (ht_size_exp d i)"

lemma scan_bucket:
  assumes ok: "table_ok t d i" and e: "ht_size_exp d i \<noteq> -1"
  shows "bucket_at d i (unat (v AND mask (tbl_exp d i))) = Some (ht_table d i ! unat (v AND mask (tbl_exp d i)))"
    and "of_nat (DICTHT_SIZE_MASK (ht_size_exp d i)) = (mask (tbl_exp d i) :: u64)" "tbl_exp d i \<le> 60"
    and "x \<in> set (concat (ht_table d i)) \<Longrightarrow> pos v \<le> hash_pos t x \<Longrightarrow> hash_pos t x < up (64 - tbl_exp d i) (pos v) \<Longrightarrow>
      x \<in> set (ht_table d i ! unat (v AND mask (tbl_exp d i)))"
proof -
  have r: "0 \<le> ht_size_exp d i" "ht_size_exp d i \<le> 60" using ok e by (auto simp: table_ok_def)
  show e60: "tbl_exp d i \<le> 60" using r by (simp add: tbl_exp_def)
  show "of_nat (DICTHT_SIZE_MASK (ht_size_exp d i)) = (mask (tbl_exp d i) :: u64)"
    using r by (simp add: size_mask of_nat_mask tbl_exp_def)
  have idx: "unat (w AND mask (tbl_exp d i)) = unat w AND DICTHT_SIZE_MASK (ht_size_exp d i)" for w :: u64
    using r e60 by (simp add: unsigned_and_eq unat_mask size_mask tbl_exp_def [symmetric])
  show "bucket_at d i (unat (v AND mask (tbl_exp d i))) = Some (ht_table d i ! unat (v AND mask (tbl_exp d i)))"
    using ok and_mask_less [OF e, of "unat v"] by (simp add: idx bucket_at_def table_ok_def)
  assume x: "x \<in> set (concat (ht_table d i))" "pos v \<le> hash_pos t x" "hash_pos t x < up (64 - tbl_exp d i) (pos v)"
  then have "v AND mask (tbl_exp d i) = hashFunction t (ekey t x) AND mask (tbl_exp d i)"
    using e60 up_block [OF x(2,3)] by (intro same_bucket) (auto simp: hash_pos_def)
  then show "x \<in> set (ht_table d i ! unat (v AND mask (tbl_exp d i)))"
    using only_chain [OF ok x(1)] by (simp add: idx dictGetHash_def)
qed

text \<open>The entries of a table in an interval of the order.\<close>

definition covers :: "('s, 'k, 'v) dictType \<Rightarrow> ('s, 'v) dict \<Rightarrow> nat \<Rightarrow> nat \<Rightarrow> nat \<Rightarrow> ('s \<times> 'v) list \<Rightarrow> bool" where
  "covers t d i lo hi es \<longleftrightarrow> (\<forall>x \<in> set (concat (ht_table d i)). lo \<le> hash_pos t x \<and> hash_pos t x < hi \<longrightarrow> x \<in> set es)"

lemma scan_expansions_ok:
  assumes ok: "table_ok t d i" and e: "ht_size_exp d i \<noteq> -1" and le: "e0 \<le> tbl_exp d i"
  shows "\<exists>v' es. scan_expansions d i (mask e0) (mask (tbl_exp d i)) v = Some (v', es) \<and>
    pos_end v' = up (64 - e0) (pos v) \<and> covers t d i (pos v) (pos_end v') es"
proof (induction "up (64 - e0) (pos v) - pos v" arbitrary: v rule: less_induct)
  case less
  let ?e = "tbl_exp d i" and ?b = "ht_table d i ! unat (v AND mask (tbl_exp d i))"
  define v1 where "v1 = next_cursor (mask ?e) v"
  note sb = scan_bucket [OF ok e]
  have p1: "pos_end v1 = up (64 - ?e) (pos v)" unfolding v1_def using sb(3) by (intro pos_next) simp
  have d1: "2 ^ (64 - ?e) dvd pos v1" using p1 up_dvd [of "64 - ?e" "64 - ?e" "pos v"] dvd_pos_end [of "64 - ?e" v1] by simp
  have test: "v1 AND (mask e0 XOR mask ?e) = 0 \<longleftrightarrow> 2 ^ (64 - e0) dvd pos v1" using loop_test [OF le _ d1] sb(3) by simp
  have b: "covers t d i (pos v) (up (64 - ?e) (pos v)) ?b" using sb(4) by (auto simp: covers_def)
  have m: "up (64 - ?e) (pos v) \<le> up (64 - e0) (pos v)" using le by (intro up_mono) simp
  have unfold: "scan_expansions d i (mask e0) (mask ?e) v = (if v1 AND (mask e0 XOR mask ?e) \<noteq> 0
      then do { (v, es) \<leftarrow> scan_expansions d i (mask e0) (mask ?e) v1; Some (v, ?b @ es) } else Some (v1, ?b))"
    by (subst scan_expansions.simps) (simp add: sb(1) v1_def)
  show ?case
  proof (cases "v1 AND (mask e0 XOR mask ?e) = 0")
    case True
    then have "2 ^ (64 - e0) dvd pos_end v1" using test dvd_pos_end [of "64 - e0" v1] by simp
    then have "up (64 - e0) (pos v) \<le> pos_end v1" using up_gt [of "pos v" "64 - ?e"] p1 by (intro up_least) simp_all
    then have "pos_end v1 = up (64 - e0) (pos v)" using m p1 by simp
    then show ?thesis using True unfold b p1 by auto
  next
    case False
    then have nz: "v1 \<noteq> 0" by auto
    then have pv: "pos v1 = up (64 - ?e) (pos v)" using p1 by (simp add: pos_end_def)
    have "pos v1 \<noteq> up (64 - e0) (pos v)" using False test up_dvd [OF order_refl, of "64 - e0" "pos v"] by auto
    then have lt: "pos v < pos v1" "pos v1 < up (64 - e0) (pos v)" using pv m up_gt [of "pos v"] by auto
    then have same: "up (64 - e0) (pos v1) = up (64 - e0) (pos v)" by (intro up_eqI) simp_all
    then have "up (64 - e0) (pos v1) - pos v1 < up (64 - e0) (pos v) - pos v" using lt by linarith
    from less.hyps [OF this] obtain v' es where r: "scan_expansions d i (mask e0) (mask ?e) v1 = Some (v', es)"
      "pos_end v' = up (64 - e0) (pos v)" "covers t d i (pos v1) (pos_end v') es"
      using same by auto
    then have "covers t d i (pos v) (pos_end v') (?b @ es)"
      using b pv unfolding covers_def by (metis Un_iff leI set_append)
    then show ?thesis using r False unfold by auto
  qed
qed

text \<open>One call reports every entry between the old cursor and the new one, and the new cursor is at a boundary of the
  blocks of the smaller table.\<close>

lemma dictScan_ok:
  assumes inv: "dict_inv t d"
  shows "\<exists>v' es. dictScan d v = Some (v', es) \<and> pos v < pos_end v' \<and>
    (\<forall>x \<in> set (all_entries d). pos v \<le> hash_pos t x \<and> hash_pos t x < pos_end v' \<longrightarrow> x \<in> set es) \<and>
    (\<forall>E. E \<le> 64 \<and> tbl_exp d 0 \<le> E \<longrightarrow> 2 ^ (64 - E) dvd pos_end v')"
proof -
  have ok: "table_ok t d 0" "table_ok t d 1" using inv by (auto simp: dict_inv_def)
  consider (empty) "dictSize d = 0" | (plain) "dictSize d \<noteq> 0" "\<not> dictIsRehashing d" | (both) "dictSize d \<noteq> 0" "dictIsRehashing d"
    by blast
  then show ?thesis
  proof cases
    case empty
    then have "all_entries d = []" using ok by (simp add: dictSize_def table_ok_def all_entries_def)
    moreover have "2 ^ (64 - E) dvd pos_end 0" for E using dvd_pos_end [of "64 - E" 0] by simp
    ultimately show ?thesis using empty pos_less [of v] by (auto simp: dictScan_def) (simp add: pos_end_def)
  next
    case plain
    have e: "ht_size_exp d 0 \<noteq> -1" using nonempty_exp [OF inv plain(1)] .
    note sb = scan_bucket [OF ok(1) e]
    have all: "all_entries d = concat (ht_table d 0)"
      using plain(2) inv by (auto simp: dict_inv_def dictIsRehashing_def all_entries_def table_ok_def DICTHT_SIZE_def)
    have p: "pos_end (next_cursor (mask (tbl_exp d 0)) v) = up (64 - tbl_exp d 0) (pos v)" using sb(3) by (intro pos_next) simp
    have "dictScan d v = Some (next_cursor (mask (tbl_exp d 0)) v, ht_table d 0 ! unat (v AND mask (tbl_exp d 0)))"
      using plain by (simp add: dictScan_def sb(1,2) Let_def)
    then show ?thesis using sb(4) p all up_gt by (auto intro: up_dvd)
  next
    case both
    have e: "ht_size_exp d 0 \<noteq> -1" "ht_size_exp d 1 \<noteq> -1" using inv both(2) by (auto simp: dict_inv_def dictIsRehashing_def)
    define s l where "s = (if DICTHT_SIZE (ht_size_exp d 0) > DICTHT_SIZE (ht_size_exp d 1) then 1 else 0 :: nat)"
      and "l = (if DICTHT_SIZE (ht_size_exp d 0) > DICTHT_SIZE (ht_size_exp d 1) then 0 else 1 :: nat)"
    have sl: "table_ok t d s" "table_ok t d l" "ht_size_exp d s \<noteq> -1" "ht_size_exp d l \<noteq> -1"
      using ok e by (auto simp: s_def l_def)
    have "DICTHT_SIZE (ht_size_exp d s) \<le> DICTHT_SIZE (ht_size_exp d l)" by (auto simp: s_def l_def)
    then have le: "tbl_exp d s \<le> tbl_exp d l" using sl(3,4) by (simp add: DICTHT_SIZE_def tbl_exp_def)
    have small: "tbl_exp d s \<le> tbl_exp d 0" using le by (auto simp: s_def l_def split: if_splits)
    note sb = scan_bucket [OF sl(1,3)]
    obtain v' es where r: "scan_expansions d l (mask (tbl_exp d s)) (mask (tbl_exp d l)) v = Some (v', es)"
      "pos_end v' = up (64 - tbl_exp d s) (pos v)" "covers t d l (pos v) (pos_end v') es"
      using scan_expansions_ok [OF sl(2,4) le] by blast
    let ?b = "ht_table d s ! unat (v AND mask (tbl_exp d s))"
    have "dictScan d v = Some (v', ?b @ es)"
      using both r(1) sb(1,2) scan_bucket(2) [OF sl(2,4)]
      by (simp add: dictScan_def Let_def s_def [symmetric] l_def [symmetric])
    moreover have "covers t d s (pos v) (pos_end v') ?b" using sb(4) r(2) by (auto simp: covers_def)
    then have "x \<in> set (?b @ es)" if "x \<in> set (all_entries d)" "pos v \<le> hash_pos t x" "hash_pos t x < pos_end v'" for x
    proof -
      have "x \<in> set (concat (ht_table d s)) \<or> x \<in> set (concat (ht_table d l))" using that(1) by (auto simp: all_entries_def s_def l_def)
      then show ?thesis using that(2,3) r(3) \<open>covers t d s (pos v) (pos_end v') ?b\<close> unfolding covers_def by (metis Un_iff set_append)
    qed
    moreover have "2 ^ (64 - E) dvd pos_end v'" if "tbl_exp d 0 \<le> E" for E
      using r(2) small that by (simp add: up_dvd)
    ultimately show ?thesis using r(2) up_gt by auto
  qed
qed

section \<open>A whole iteration\<close>

text \<open>The calls of one iteration: the cursor starts at \<open>v\<close>, each call sees the dictionary as it then is, and the iteration is
  over when the cursor is 0 again.\<close>

fun scan_run :: "('s, 'v) dict list \<Rightarrow> u64 \<Rightarrow> (u64 \<times> ('s \<times> 'v) list) option" where
  "scan_run [] v = Some (v, [])"
| "scan_run (d # ds) v =
     do { (v, es) \<leftarrow> dictScan d v;
          (if v = 0 then Some (0, es) else do { (v, es') \<leftarrow> scan_run ds v; Some (v, es @ es') }) }"

lemma scan_run_total: "\<forall>d \<in> set ds. dict_inv t d \<Longrightarrow> \<exists>v' es. scan_run ds v = Some (v', es)"
proof (induction ds arbitrary: v)
  case (Cons d ds)
  obtain v1 es where "dictScan d v = Some (v1, es)" using dictScan_ok [of t d v] Cons.prems by auto
  then show ?case using Cons.IH [of v1] Cons.prems by (cases "v1 = 0") auto
qed simp

lemma scan_run_covers:
  assumes "\<forall>d \<in> set ds. dict_inv t d \<and> (\<exists>x \<in> set (all_entries d). ekey t x = k)"
    "pos v \<le> pos (hashFunction t k)" "ds \<noteq> []"
  shows "\<exists>v' es. scan_run ds v = Some (v', es) \<and> (v' = 0 \<longrightarrow> (\<exists>x \<in> set es. ekey t x = k))"
  using assms
proof (induction ds arbitrary: v)
  case (Cons d ds)
  obtain x where x: "x \<in> set (all_entries d)" "ekey t x = k" using Cons.prems(1) by auto
  obtain v1 es where v1: "dictScan d v = Some (v1, es)"
    "\<forall>x \<in> set (all_entries d). pos v \<le> hash_pos t x \<and> hash_pos t x < pos_end v1 \<longrightarrow> x \<in> set es"
    using dictScan_ok [of t d v] Cons.prems(1) by auto
  have hp: "hash_pos t x = pos (hashFunction t k)" using x(2) by (simp add: hash_pos_def)
  show ?case
  proof (cases "hash_pos t x < pos_end v1")
    case True
    then have "x \<in> set es" using v1(2) x(1) Cons.prems(2) hp by simp
    moreover obtain v' es' where "scan_run ds v1 = Some (v', es')"
      using scan_run_total [of ds t v1] Cons.prems(1) by auto
    ultimately show ?thesis using v1(1) x(2) by (cases "v1 = 0") auto
  next
    case False
    then have nz: "v1 \<noteq> 0" "pos v1 \<le> pos (hashFunction t k)" using pos_less hp by (auto simp: pos_end_def split: if_splits)
    show ?thesis
    proof (cases "ds = []")
      case True
      then show ?thesis using v1(1) nz by simp
    next
      case False
      then show ?thesis using Cons.IH [OF _ nz(2) False] Cons.prems(1) v1(1) nz(1) by fastforce
    qed
  qed
qed simp

lemma scan_run_ends:
  assumes "\<forall>d \<in> set ds. dict_inv t d \<and> tbl_exp d 0 \<le> E" "E \<le> 64" "2 ^ (64 - E) dvd pos v"
    "2 ^ 64 \<le> length ds * 2 ^ (64 - E) + pos v"
  shows "\<exists>es. scan_run ds v = Some (0, es)"
  using assms
proof (induction ds arbitrary: v)
  case Nil
  then show ?case using pos_less [of v] by simp
next
  case (Cons d ds)
  obtain v1 es where v1: "dictScan d v = Some (v1, es)" "pos v < pos_end v1" "2 ^ (64 - E) dvd pos_end v1"
    using dictScan_ok [of t d v] Cons.prems(1,2) by auto
  show ?case
  proof (cases "v1 = 0")
    case False
    then have p1: "pos_end v1 = pos v1" by (simp add: pos_end_def)
    obtain a b where ab: "pos v = 2 ^ (64 - E) * a" "pos v1 = 2 ^ (64 - E) * b" using v1(3) Cons.prems(3) p1 by (auto simp: dvd_def)
    then have "a + 1 \<le> b" using v1(2) p1 by simp
    then have "2 ^ (64 - E) * (a + 1) \<le> 2 ^ (64 - E) * b" by (rule mult_le_mono2)
    then have "pos v + 2 ^ (64 - E) \<le> pos v1" unfolding ab by (simp only: distrib_left mult_1_right)
    then have "2 ^ 64 \<le> length ds * 2 ^ (64 - E) + pos v1" using Cons.prems(4) by simp
    then obtain es' where "scan_run ds v1 = Some (0, es')" using Cons.IH [of v1] Cons.prems(1,2) v1(3) p1 by auto
    then show ?thesis using v1(1) False by simp
  qed (use v1 in simp)
qed

section \<open>Properties\<close>

text \<open>C1. A complete iteration with \<^verbatim>\<open>dictScan\<close>, from cursor 0 until the cursor is 0 again, reports every key that is in the
  dictionary at each of the calls, even though between the calls the dictionary may have been changed in any way: keys
  added and deleted, tables grown and shrunk, rehashing started, advanced or finished. No call faults.\<close>

theorem dictScan_complete:
  assumes "ds \<noteq> []" "\<forall>d \<in> set ds. dict_inv t d \<and> k \<in> dom (dict_map t d)"
  shows "\<exists>v es. scan_run ds 0 = Some (v, es) \<and> (v = 0 \<longrightarrow> k \<in> ekey t ` set es)"
proof -
  have "\<forall>d \<in> set ds. dict_inv t d \<and> (\<exists>x \<in> set (all_entries d). ekey t x = k)"
    using assms(2) dict_map_iff by (metis domD)
  then show ?thesis using scan_run_covers [of ds t k 0] assms(1) by force
qed

text \<open>The same dictionary before, while and after growing, with its keys 1 and 3.\<close>

definition grown :: "(nat, nat) dict" where
  "grown = \<lparr>ht_table = (\<lambda>i. if i = 0 then [[], [(1, 10)], [], [(3, 30)], [(4, 40)], [(5, 50)], [], []] else []),
     ht_used = (\<lambda>i. if i = 0 then 4 else 0), rehashidx = -1, pauserehash = 0,
     ht_size_exp = (\<lambda>i. if i = 0 then 3 else -1), pauseAutoResize = 0, d_log = []\<rparr>"

lemma grown_inv: "dict_inv numType grown"
  by (simp add: grown_def numType_def dict_inv_def table_ok_def placed_def All_less_Suc DICTHT_SIZE_def DICTHT_SIZE_MASK_def
      dictGetHash_def ekey_def all_entries_def)

lemma demo_keys: "3 \<in> dom (dict_map numType growing)" "3 \<in> dom (dict_map numType grown)"
  by (simp_all add: growing_def grown_def dict_map_def all_entries_def ekey_def numType_def dom_def)

theorem dictScan_complete_witness:
  "\<exists>v es. scan_run (growing # replicate 7 grown) 0 = Some (v, es) \<and> (v = 0 \<longrightarrow> 3 \<in> ekey numType ` set es)"
  using dictScan_complete [of "growing # replicate 7 grown" numType 3] growing_inv grown_inv demo_keys by simp

text \<open>C15. An iteration ends: when the first table never has more than \<open>2 ^ E\<close> buckets at a call, the cursor is back at 0 after
  at most \<open>2 ^ E\<close> calls.\<close>

theorem dictScan_terminates:
  assumes "\<forall>d \<in> set ds. dict_inv t d \<and> DICTHT_SIZE (ht_size_exp d 0) \<le> 2 ^ E" "E \<le> 64" "2 ^ E \<le> length ds"
  shows "\<exists>es. scan_run ds 0 = Some (0, es)"
proof (rule scan_run_ends)
  have "tbl_exp d 0 \<le> E" if "d \<in> set ds" for d
  proof -
    have "DICTHT_SIZE (ht_size_exp d 0) \<le> 2 ^ E" using that assms(1) by blast
    then show ?thesis by (cases "ht_size_exp d 0 = -1") (simp_all add: DICTHT_SIZE_def tbl_exp_def)
  qed
  then show "\<forall>d \<in> set ds. dict_inv t d \<and> tbl_exp d 0 \<le> E" using assms(1) by blast
  have "(2 :: nat) ^ 64 = 2 ^ E * 2 ^ (64 - E)" using assms(2) by (metis le_add_diff_inverse power_add)
  then show "2 ^ 64 \<le> length ds * 2 ^ (64 - E) + pos 0" using assms(3) by (metis mult_le_mono1 trans_le_add1)
qed (use assms in simp_all)

theorem dictScan_terminates_witness: "\<exists>es. scan_run (growing # replicate 7 grown) 0 = Some (0, es)"
  using dictScan_terminates [of "growing # replicate 7 grown" numType 3] growing_inv grown_inv
  by (simp add: growing_def grown_def DICTHT_SIZE_def)

end
