(* ===== verification/Dict_Iter.thy ===== *)
theory Dict_Iter
  imports Dict_Session
begin

unbundle bit_operations_syntax

text \<open>
  Iterators, random sampling, statistics and timed rehashing of \<^verbatim>\<open>src/dict.c\<close>. An iterator holds entries by their stored
  key, which identifies an entry of a dictionary, and reads an entry in the bucket it took it from; an entry that is no
  longer there is a dangling pointer, the result \<open>None\<close>. Random numbers come from a sequence \<open>rnd\<close> of which the functions
  take the next ones, counting them in \<open>k\<close>; the clock is the sequence \<open>elapsed\<close> of its readings.
\<close>

section \<open>Iterators\<close>

record 's dictIterator =
  di_index :: int
  di_table :: nat
  di_safe :: bool
  di_entry :: "'s option"
  di_nextEntry :: "'s option"
  di_fingerprint :: u64

text \<open>The step of Wang's 64-bit integer hash.\<close>

definition fingerprint_step :: "u64 \<Rightarrow> u64" where
  "fingerprint_step hash =
     (let hash = NOT hash + push_bit 21 hash;
          hash = hash XOR drop_bit 24 hash;
          hash = (hash + push_bit 3 hash) + push_bit 8 hash;
          hash = hash XOR drop_bit 14 hash;
          hash = (hash + push_bit 2 hash) + push_bit 4 hash;
          hash = hash XOR drop_bit 28 hash
      in hash + push_bit 31 hash)"

text \<open>\<open>addr\<close> gives the addresses of the two tables.\<close>

definition dictFingerprint :: "(nat \<Rightarrow> u64) \<Rightarrow> ('s, 'v) dict \<Rightarrow> u64" where
  "dictFingerprint addr d =
     foldl (\<lambda>hash x. fingerprint_step (hash + x)) 0
       [addr 0, word_of_int (ht_size_exp d 0), of_nat (ht_used d 0), addr 1, word_of_int (ht_size_exp d 1), of_nat (ht_used d 1)]"

definition dictInitIterator :: "u64 \<Rightarrow> 's dictIterator" where
  "dictInitIterator junk =
     \<lparr>di_index = -1, di_table = 0, di_safe = False, di_entry = None, di_nextEntry = None, di_fingerprint = junk\<rparr>"

definition dictInitSafeIterator :: "u64 \<Rightarrow> 's dictIterator" where
  "dictInitSafeIterator junk = (dictInitIterator junk)\<lparr>di_safe := True\<rparr>"

definition dictResetIterator :: "(nat \<Rightarrow> u64) \<Rightarrow> 's dictIterator \<Rightarrow> ('s, 'v) dict \<Rightarrow> ('s, 'v) dict option" where
  "dictResetIterator addr iter d =
     (if \<not> (di_index iter = -1 \<and> di_table iter = 0) then
        (if di_safe iter then Some (dictResumeRehashing d)
         else do { guard (di_fingerprint iter = dictFingerprint addr d); Some d })
      else Some d)"

definition head_of :: "('s \<times> 'v) list \<Rightarrow> 's option" where
  "head_of b = (case b of [] \<Rightarrow> None | e # _ \<Rightarrow> Some (fst e))"

text \<open>Following the pointer to an entry of a chain: the entry and \<^verbatim>\<open>dictGetNext\<close> of it.\<close>

definition follow :: "'s \<Rightarrow> ('s \<times> 'v) list \<Rightarrow> (('s \<times> 'v) \<times> 's option) option" where
  "follow s b = (case dropWhile (\<lambda>e. fst e \<noteq> s) b of [] \<Rightarrow> None | e # rest \<Rightarrow> Some (e, head_of rest))"

text \<open>The first call: the dictionary is paused or its fingerprint taken, and the rehashed part of table 0 skipped.\<close>

definition begin_iter :: "(nat \<Rightarrow> u64) \<Rightarrow> 's dictIterator \<Rightarrow> ('s, 'v) dict \<Rightarrow> 's dictIterator \<times> ('s, 'v) dict" where
  "begin_iter addr iter d =
     (if di_index iter = -1 \<and> di_table iter = 0 then
        (let (iter, d) = (if di_safe iter then (iter, dictPauseRehashing d)
                          else (iter\<lparr>di_fingerprint := dictFingerprint addr d\<rparr>, d))
         in (if dictIsRehashing d then iter\<lparr>di_index := rehashidx d - 1\<rparr> else iter, d))
      else (iter, d))"

text \<open>The part of the loop body that moves to the next bucket; the flag is set by the \<^verbatim>\<open>break\<close>.\<close>

definition next_bucket :: "'s dictIterator \<Rightarrow> ('s, 'v) dict \<Rightarrow> ('s dictIterator \<times> bool) option" where
  "next_bucket iter d =
     (let iter = iter\<lparr>di_index := di_index iter + 1\<rparr>
      in if di_index iter \<ge> int (DICTHT_SIZE (ht_size_exp d (di_table iter))) then
           (if dictIsRehashing d \<and> di_table iter = 0 then
              (let iter = iter\<lparr>di_table := 1, di_index := 0\<rparr>
               in do { b \<leftarrow> bucket_at d 1 0; Some (iter\<lparr>di_entry := head_of b\<rparr>, False) })
            else Some (iter, True))
         else do { guard (di_index iter \<ge> 0);
                   b \<leftarrow> bucket_at d (di_table iter) (nat (di_index iter));
                   Some (iter\<lparr>di_entry := head_of b\<rparr>, False) })"

partial_function (option) dictNext ::
  "(nat \<Rightarrow> u64) \<Rightarrow> 's dictIterator \<Rightarrow> ('s, 'v) dict \<Rightarrow> (('s \<times> 'v) option \<times> 's dictIterator \<times> ('s, 'v) dict) option" where
  "dictNext addr iter d =
     do { (iter, d, stop) \<leftarrow> (if di_entry iter = None
             then (let (iter, d) = begin_iter addr iter d
                   in do { (iter, stop) \<leftarrow> next_bucket iter d; Some (iter, d, stop) })
             else Some (iter\<lparr>di_entry := di_nextEntry iter\<rparr>, d, False));
          (if stop then Some (None, iter, d)
           else (case di_entry iter of
                   None \<Rightarrow> dictNext addr iter d
                 | Some s \<Rightarrow>
                     do { guard (di_index iter \<ge> 0);
                          b \<leftarrow> bucket_at d (di_table iter) (nat (di_index iter));
                          (e, n) \<leftarrow> follow s b;
                          Some (Some e, iter\<lparr>di_nextEntry := n\<rparr>, d) })) }"

section \<open>Random entries\<close>

partial_function (option) random_bucket_rehashing :: "(nat \<Rightarrow> nat) \<Rightarrow> nat \<Rightarrow> ('s, 'v) dict \<Rightarrow> (('s \<times> 'v) list \<times> nat) option" where
  "random_bucket_rehashing rnd k d =
     do { guard (nat (rehashidx d) < dictBuckets d);
          let n = dictBuckets d - nat (rehashidx d);
          let s0 = DICTHT_SIZE (ht_size_exp d 0);
          let h = nat (rehashidx d) + rnd k mod n;
          he \<leftarrow> (if h \<ge> s0 then bucket_at d 1 (h - s0) else bucket_at d 0 h);
          (if he = [] then random_bucket_rehashing rnd (k + 1) d else Some (he, k + 1)) }"

partial_function (option) random_bucket :: "(nat \<Rightarrow> nat) \<Rightarrow> nat \<Rightarrow> ('s, 'v) dict \<Rightarrow> (('s \<times> 'v) list \<times> nat) option" where
  "random_bucket rnd k d =
     do { he \<leftarrow> bucket_at d 0 (rnd k AND DICTHT_SIZE_MASK (ht_size_exp d 0));
          (if he = [] then random_bucket rnd (k + 1) d else Some (he, k + 1)) }"

text \<open>The two walks along the chain cnt its entries and return the one at a random position.\<close>

definition dictGetRandomKey ::
  "('s, 'k, 'v) dictType \<Rightarrow> dictResizeEnable \<Rightarrow> (nat \<Rightarrow> nat) \<Rightarrow> nat \<Rightarrow> ('s, 'v) dict \<Rightarrow> (('s \<times> 'v) option \<times> nat \<times> ('s, 'v) dict) option" where
  "dictGetRandomKey t can_resize rnd k d =
     (if dictSize d = 0 then Some (None, k, d)
      else do {
        d \<leftarrow> (if dictIsRehashing d then u_dictRehashStep t can_resize d else Some d);
        (he, k) \<leftarrow> (if dictIsRehashing d then random_bucket_rehashing rnd k d else random_bucket rnd k d);
        let listlen = length he;
        let listele = rnd k mod listlen;
        Some (Some (he ! listele), k + 1, d) })"

text \<open>Reservoir sampling along one chain: \<open>stored\<close> entries seen, \<open>des\<close> the array of the results.\<close>

fun sample_chain :: "(nat \<Rightarrow> nat) \<Rightarrow> nat \<Rightarrow> ('s \<times> 'v) list \<Rightarrow> nat \<times> ('s \<times> 'v) list \<times> nat \<Rightarrow> nat \<times> ('s \<times> 'v) list \<times> nat" where
  "sample_chain rnd cnt [] st = st"
| "sample_chain rnd cnt (he # rest) (stored, des, k) =
     sample_chain rnd cnt rest
       (if stored < cnt then (stored + 1, des @ [he], k)
        else (let r = rnd k mod (stored + 1) in (stored + 1, if r < cnt then des[r := he] else des, k + 1)))"

type_synonym ('s, 'v) sampling = "nat \<times> nat \<times> nat \<times> ('s \<times> 'v) list \<times> nat"

text \<open>The body of the loop over the tables; the flag is set by \<^verbatim>\<open>goto end\<close>.\<close>

definition sample_table ::
  "('s, 'v) dict \<Rightarrow> (nat \<Rightarrow> nat) \<Rightarrow> nat \<Rightarrow> nat \<Rightarrow> nat \<Rightarrow> nat \<Rightarrow> ('s, 'v) sampling \<Rightarrow> (('s, 'v) sampling \<times> bool) option" where
  "sample_table d rnd cnt maxsizemask tables j st = (case st of (i, emptylen, stored, des, k) \<Rightarrow>
     (let rehashed = (tables = 2 \<and> j = 0 \<and> int i < rehashidx d)
      in if rehashed \<and> i < DICTHT_SIZE (ht_size_exp d 1) then Some (st, False)
         else (let i = (if rehashed then nat (rehashidx d) else i)
               in if i \<ge> DICTHT_SIZE (ht_size_exp d j) then Some ((i, emptylen, stored, des, k), False)
                  else do {
                    he \<leftarrow> bucket_at d j i;
                    Some (if he = [] then
                            (let emptylen = emptylen + 1
                             in if emptylen \<ge> 5 \<and> emptylen > cnt
                                then ((rnd k AND maxsizemask, 0, stored, des, k + 1), False)
                                else ((i, emptylen, stored, des, k), False))
                          else (let (stored, des, k) = sample_chain rnd cnt he (stored, des, k)
                                in ((i, 0, stored, des, k), stored \<ge> cnt))) })))"

fun sample_loop ::
  "('s, 'v) dict \<Rightarrow> (nat \<Rightarrow> nat) \<Rightarrow> nat \<Rightarrow> nat \<Rightarrow> nat \<Rightarrow> nat \<Rightarrow> ('s, 'v) sampling \<Rightarrow> ('s, 'v) sampling option" where
  "sample_loop d rnd cnt maxsizemask tables 0 st = Some st"
| "sample_loop d rnd cnt maxsizemask tables (Suc maxsteps) st =
     (if fst (snd (snd st)) < cnt then
        do { (st, fin) \<leftarrow> sample_table d rnd cnt maxsizemask tables 0 st;
             (st, fin) \<leftarrow> (if \<not> fin \<and> tables = 2 then sample_table d rnd cnt maxsizemask tables 1 st else Some (st, fin));
             (if fin then Some st
              else (case st of (i, rest) \<Rightarrow>
                sample_loop d rnd cnt maxsizemask tables maxsteps ((i + 1) AND maxsizemask, rest))) }
      else Some st)"

fun sample_rehash :: "('s, 'k, 'v) dictType \<Rightarrow> dictResizeEnable \<Rightarrow> nat \<Rightarrow> ('s, 'v) dict \<Rightarrow> ('s, 'v) dict option" where
  "sample_rehash t can_resize 0 d = Some d"
| "sample_rehash t can_resize (Suc n) d =
     (if dictIsRehashing d then do { d \<leftarrow> u_dictRehashStep t can_resize d; sample_rehash t can_resize n d } else Some d)"

text \<open>The result is the part of \<^verbatim>\<open>des\<close> that was filled; its length is the return value.\<close>

definition dictGetSomeKeys ::
  "('s, 'k, 'v) dictType \<Rightarrow> dictResizeEnable \<Rightarrow> (nat \<Rightarrow> nat) \<Rightarrow> nat \<Rightarrow> ('s, 'v) dict \<Rightarrow> nat \<Rightarrow> (('s \<times> 'v) list \<times> nat \<times> ('s, 'v) dict) option" where
  "dictGetSomeKeys t can_resize rnd k d cnt =
     (let cnt = (if dictSize d < cnt then dictSize d else cnt);
          maxsteps = cnt * 10 mod 2 ^ 32
      in do {
        d \<leftarrow> sample_rehash t can_resize cnt d;
        let tables = (if dictIsRehashing d then 2 else 1);
        let maxsizemask = DICTHT_SIZE_MASK (ht_size_exp d 0);
        let maxsizemask = (if tables > 1 \<and> maxsizemask < DICTHT_SIZE_MASK (ht_size_exp d 1)
                           then DICTHT_SIZE_MASK (ht_size_exp d 1) else maxsizemask);
        (_, _, stored, des, k) \<leftarrow> sample_loop d rnd cnt maxsizemask tables maxsteps (rnd k AND maxsizemask, 0, 0, [], k + 1);
        Some (take (if stored > cnt then cnt else stored) des, k, d) })"

definition GETFAIR_NUM_ENTRIES :: nat where "GETFAIR_NUM_ENTRIES = 15"

definition dictGetFairRandomKey ::
  "('s, 'k, 'v) dictType \<Rightarrow> dictResizeEnable \<Rightarrow> (nat \<Rightarrow> nat) \<Rightarrow> nat \<Rightarrow> ('s, 'v) dict \<Rightarrow> (('s \<times> 'v) option \<times> nat \<times> ('s, 'v) dict) option" where
  "dictGetFairRandomKey t can_resize rnd k d =
     do { (entries, k, d) \<leftarrow> dictGetSomeKeys t can_resize rnd k d GETFAIR_NUM_ENTRIES;
          (if length entries = 0 then dictGetRandomKey t can_resize rnd k d
           else Some (Some (entries ! (rnd k mod length entries)), k + 1, d)) }"

section \<open>Timed rehashing and statistics\<close>

partial_function (option) rehash_until ::
  "('s, 'k, 'v) dictType \<Rightarrow> dictResizeEnable \<Rightarrow> (nat \<Rightarrow> nat) \<Rightarrow> nat \<Rightarrow> nat \<Rightarrow> nat \<Rightarrow> ('s, 'v) dict \<Rightarrow> (nat \<times> ('s, 'v) dict) option" where
  "rehash_until t can_resize elapsed us k rehashes d =
     do { (d, again) \<leftarrow> dictRehash t can_resize d 100;
          (if again then
             (if elapsed k \<ge> us then Some (rehashes + 100, d)
              else rehash_until t can_resize elapsed us (k + 1) (rehashes + 100) d)
           else Some (rehashes, d)) }"

definition dictRehashMicroseconds ::
  "('s, 'k, 'v) dictType \<Rightarrow> dictResizeEnable \<Rightarrow> (nat \<Rightarrow> nat) \<Rightarrow> ('s, 'v) dict \<Rightarrow> nat \<Rightarrow> (nat \<times> ('s, 'v) dict) option" where
  "dictRehashMicroseconds t can_resize elapsed d us =
     (if pauserehash d > 0 then Some (0, d) else rehash_until t can_resize elapsed us 0 0 d)"

definition DICT_STATS_VECTLEN :: nat where "DICT_STATS_VECTLEN = 50"

record dictStats =
  s_htidx :: nat
  s_buckets :: nat
  s_maxChainLen :: nat
  s_totalChainLen :: nat
  s_htSize :: nat
  s_htUsed :: nat
  s_clvector :: "nat list"

definition dictCombineStats :: "dictStats \<Rightarrow> dictStats \<Rightarrow> dictStats" where
  "dictCombineStats src into =
     into\<lparr>s_buckets := s_buckets into + s_buckets src,
          s_maxChainLen := (if s_maxChainLen src > s_maxChainLen into then s_maxChainLen src else s_maxChainLen into),
          s_totalChainLen := s_totalChainLen into + s_totalChainLen src,
          s_htSize := s_htSize into + s_htSize src,
          s_htUsed := s_htUsed into + s_htUsed src,
          s_clvector := map2 (+) (s_clvector into) (s_clvector src)\<rparr>"

definition stats_bucket :: "dictStats \<Rightarrow> ('s \<times> 'v) list \<Rightarrow> dictStats" where
  "stats_bucket stats b =
     (if b = [] then stats\<lparr>s_clvector := (s_clvector stats)[0 := s_clvector stats ! 0 + 1]\<rparr>
      else (let chainlen = length b;
                j = (if chainlen < DICT_STATS_VECTLEN then chainlen else DICT_STATS_VECTLEN - 1)
            in stats\<lparr>s_buckets := s_buckets stats + 1,
                     s_clvector := (s_clvector stats)[j := s_clvector stats ! j + 1],
                     s_maxChainLen := (if chainlen > s_maxChainLen stats then chainlen else s_maxChainLen stats),
                     s_totalChainLen := s_totalChainLen stats + chainlen\<rparr>))"

fun stats_loop :: "('s, 'v) dict \<Rightarrow> nat \<Rightarrow> nat list \<Rightarrow> dictStats \<Rightarrow> dictStats option" where
  "stats_loop d htidx [] stats = Some stats"
| "stats_loop d htidx (i # is) stats = do { b \<leftarrow> bucket_at d htidx i; stats_loop d htidx is (stats_bucket stats b) }"

definition dictGetStatsHt :: "('s, 'v) dict \<Rightarrow> nat \<Rightarrow> bool \<Rightarrow> dictStats option" where
  "dictGetStatsHt d htidx full =
     (let stats = \<lparr>s_htidx = htidx, s_buckets = 0, s_maxChainLen = 0, s_totalChainLen = 0,
                   s_htSize = DICTHT_SIZE (ht_size_exp d htidx), s_htUsed = ht_used d htidx,
                   s_clvector = replicate DICT_STATS_VECTLEN 0\<rparr>
      in if \<not> full then Some stats
         else stats_loop d htidx [0..<DICTHT_SIZE (ht_size_exp d htidx)] stats)"

section \<open>Entries by address\<close>

definition dictSetKey :: "('s, 'k, 'v) dictType \<Rightarrow> ('s, 'v) dict \<Rightarrow> link \<Rightarrow> 's \<Rightarrow> ('s, 'v) dict option" where
  "dictSetKey t d l key = do { guard (\<not> no_value t); (_, v) \<leftarrow> entry_at d l; set_entry d l (keyDup t key, v) }"

definition find_stored :: "'s \<Rightarrow> ('s \<times> 'v) list \<Rightarrow> ('s \<times> 'v) option" where
  "find_stored oldptr b = List.find (\<lambda>e. fst e = oldptr) b"

definition dictFindByHashAndPtr :: "('s, 'v) dict \<Rightarrow> 's \<Rightarrow> nat \<Rightarrow> ('s \<times> 'v) option option" where
  "dictFindByHashAndPtr d oldptr hash =
     (if dictSize d = 0 then Some None
      else (let idx0 = hash AND DICTHT_SIZE_MASK (ht_size_exp d 0);
                idx1 = hash AND DICTHT_SIZE_MASK (ht_size_exp d 1)
            in if int idx0 < rehashidx d
               then do { b \<leftarrow> bucket_at d 1 idx1; Some (find_stored oldptr b) }
               else do { b \<leftarrow> bucket_at d 0 idx0;
                         (if find_stored oldptr b \<noteq> None then Some (find_stored oldptr b)
                          else if \<not> dictIsRehashing d then Some None
                          else do { b \<leftarrow> bucket_at d 1 idx1; Some (find_stored oldptr b) }) }))"

section \<open>Iteration\<close>

text \<open>The entries an iterator has still to return, in order.\<close>

definition pending :: "'s dictIterator \<Rightarrow> ('s, 'v) dict \<Rightarrow> ('s \<times> 'v) list" where
  "pending iter d = (case (di_entry iter, di_nextEntry iter) of
     (Some _, Some s) \<Rightarrow> dropWhile (\<lambda>e. fst e \<noteq> s) (ht_table d (di_table iter) ! nat (di_index iter)) | _ \<Rightarrow> [])"

definition upcoming :: "'s dictIterator \<Rightarrow> ('s, 'v) dict \<Rightarrow> ('s \<times> 'v) list" where
  "upcoming iter d = concat (drop (nat (di_index iter + 1)) (ht_table d (di_table iter))) @
     (if di_table iter = 0 \<and> dictIsRehashing d then concat (ht_table d 1) else [])"

definition iter_ok :: "'s dictIterator \<Rightarrow> ('s, 'v) dict \<Rightarrow> bool" where
  "iter_ok iter d \<longleftrightarrow> -1 \<le> di_index iter \<and> di_table iter \<le> 1 \<and> (di_table iter = 1 \<longrightarrow> dictIsRehashing d \<and> 0 \<le> di_index iter) \<and>
     (di_entry iter \<noteq> None \<longrightarrow> 0 \<le> di_index iter) \<and>
     (\<forall>s. di_entry iter \<noteq> None \<and> di_nextEntry iter = Some s \<longrightarrow>
        nat (di_index iter) < length (ht_table d (di_table iter)) \<and> s \<in> fst ` set (ht_table d (di_table iter) ! nat (di_index iter)))"

definition started :: "'s dictIterator \<Rightarrow> bool" where
  "started iter \<longleftrightarrow> \<not> (di_index iter = -1 \<and> di_table iter = 0)"

text \<open>The body of the loop behind the move to another bucket.\<close>

definition visit :: "(nat \<Rightarrow> u64) \<Rightarrow> 's dictIterator \<Rightarrow> ('s, 'v) dict \<Rightarrow> (('s \<times> 'v) option \<times> 's dictIterator \<times> ('s, 'v) dict) option" where
  "visit addr iter d = (case di_entry iter of
     None \<Rightarrow> dictNext addr iter d
   | Some s \<Rightarrow>
       do { guard (di_index iter \<ge> 0);
            b \<leftarrow> bucket_at d (di_table iter) (nat (di_index iter));
            (e, n) \<leftarrow> follow s b;
            Some (Some e, iter\<lparr>di_nextEntry := n\<rparr>, d) })"

definition advance :: "(nat \<Rightarrow> u64) \<Rightarrow> 's dictIterator \<Rightarrow> ('s, 'v) dict \<Rightarrow> (('s \<times> 'v) option \<times> 's dictIterator \<times> ('s, 'v) dict) option" where
  "advance addr iter d = do { (iter, stop) \<leftarrow> next_bucket iter d; (if stop then Some (None, iter, d) else visit addr iter d) }"

lemma dictNext_advance:
  "di_entry iter = None \<Longrightarrow> dictNext addr iter d = (case begin_iter addr iter d of (iter, d) \<Rightarrow> advance addr iter d)"
  by (subst dictNext.simps) (simp add: advance_def visit_def split: prod.split bind_split option.split)

lemma dictNext_entry:
  "di_entry iter = Some s \<Longrightarrow> dictNext addr iter d = visit addr (iter\<lparr>di_entry := di_nextEntry iter\<rparr>) d"
  by (subst dictNext.simps) (simp add: visit_def)

lemma begin_started: "started iter \<Longrightarrow> begin_iter addr iter d = (iter, d)"
  by (auto simp: begin_iter_def started_def)

lemma follow_Cons: "follow s ((s, v) # b) = Some ((s, v), head_of b)"
  by (simp add: follow_def)

lemma pending_head:
  assumes "ht_table d (di_table iter) ! nat (di_index iter) = pre @ rest" "distinct (map fst (pre @ rest))"
  shows "pending (iter\<lparr>di_entry := Some x, di_nextEntry := head_of rest\<rparr>) d = rest"
proof (cases rest)
  case (Cons e es)
  have "\<forall>z \<in> set pre. fst z \<noteq> fst e" using assms(2) Cons by (auto simp: image_iff)
  then show ?thesis using assms(1) Cons by (simp add: pending_def head_of_def dropWhile_append2)
qed (simp add: pending_def head_of_def)

text \<open>A call returns the first of the entries \<open>R\<close> and leaves the others, or returns \<^verbatim>\<open>NULL\<close> when there is none.\<close>

definition list_head :: "'a list \<Rightarrow> 'a option" where
  "list_head xs = (case xs of [] \<Rightarrow> None | x # _ \<Rightarrow> Some x)"

definition gives ::
  "(('s \<times> 'v) option \<times> 's dictIterator \<times> ('s, 'v) dict) option \<Rightarrow> ('s \<times> 'v) list \<Rightarrow> 's dictIterator \<Rightarrow> ('s, 'v) dict \<Rightarrow> bool" where
  "gives res R iter d \<longleftrightarrow> (\<exists>iter'. res = Some (list_head R, iter', d) \<and> started iter' \<and> iter_ok iter' d \<and>
     di_entry iter' = map_option fst (list_head R) \<and> pending iter' d @ upcoming iter' d = tl R \<and>
     di_safe iter' = di_safe iter \<and> di_fingerprint iter' = di_fingerprint iter)"

lemma inv_chain_distinct:
  assumes "dict_inv t d" "i \<le> 1" "j < length (ht_table d i)"
  shows "distinct (map fst (ht_table d i ! j))"
proof -
  have "distinct (map (ekey t) (ht_table d i ! j))"
  proof -
    have "distinct (map (ekey t) (concat (ht_table d i)))"
      using dict_inv_distinct [OF assms(1)] table_index [OF assms(2)] by (auto simp: all_entries_def)
    then have "distinct (map (ekey t) (concat (take j (ht_table d i) @ ht_table d i ! j # drop (Suc j) (ht_table d i))))"
      using id_take_nth_drop [OF assms(3)] by simp
    then show ?thesis by simp
  qed
  moreover have "map (ekey t) b = map (keyFromStoredKey t) (map fst b)" for b :: "('a \<times> 'c) list" by (simp add: ekey_def comp_def)
  ultimately show ?thesis by (metis distinct_map)
qed

lemma inv_table_length: "dict_inv t d \<Longrightarrow> i \<le> 1 \<Longrightarrow> length (ht_table d i) = DICTHT_SIZE (ht_size_exp d i)"
  by (auto simp: dict_inv_def table_ok_def dest!: table_index)

lemma gives_flags: "gives res R iter d \<Longrightarrow> di_safe iter2 = di_safe iter \<Longrightarrow> di_fingerprint iter2 = di_fingerprint iter \<Longrightarrow> gives res R iter2 d"
  by (simp add: gives_def)

lemma visit_entry:
  assumes inv: "dict_inv t d" and pos: "di_table iter \<le> 1" "0 \<le> di_index iter" "nat (di_index iter) < length (ht_table d (di_table iter))"
    and reh: "di_table iter = 1 \<longrightarrow> dictIsRehashing d"
    and b: "ht_table d (di_table iter) ! nat (di_index iter) = pre @ e # rest" and entry: "di_entry iter = Some (fst e)"
  shows "gives (visit addr iter d) (e # rest @ upcoming iter d) iter d"
proof -
  let ?iter = "iter\<lparr>di_nextEntry := head_of rest\<rparr>"
  have dist: "distinct (map fst (pre @ e # rest))" using inv_chain_distinct [OF inv pos(1,3)] b by simp
  have "dropWhile (\<lambda>x. fst x \<noteq> fst e) (pre @ e # rest) = e # rest"
    using dist by (subst dropWhile_append2) (auto simp: image_iff)
  then have "follow (fst e) (ht_table d (di_table iter) ! nat (di_index iter)) = Some (e, head_of rest)" using b by (simp add: follow_def)
  then have "visit addr iter d = Some (Some e, ?iter, d)" using entry pos by (simp add: visit_def bucket_at_def)
  moreover have "iter\<lparr>di_entry := Some (fst e), di_nextEntry := head_of rest\<rparr> = ?iter" using entry by (cases iter) simp
  then have "pending ?iter d = rest" using pending_head [of d iter "pre @ [e]" rest "fst e"] b dist by simp
  moreover have "iter_ok ?iter d"
    using pos reh b by (auto simp: iter_ok_def head_of_def split: list.splits)
  ultimately show ?thesis using pos(2) entry by (auto simp: gives_def list_head_def started_def upcoming_def)
qed

lemma advance_ok:
  assumes inv: "dict_inv t d"
  shows "iter_ok iter d \<Longrightarrow> di_entry iter = None \<Longrightarrow> gives (advance addr iter d) (upcoming iter d) iter d"
proof (induction "(if di_table iter = 0 then Suc (length (ht_table d 1)) + (length (ht_table d 0) - nat (di_index iter + 1))
      else length (ht_table d 1) - nat (di_index iter + 1))" arbitrary: iter rule: less_induct)
  case less
  let ?i = "di_table iter"
  let ?j = "nat (di_index iter + 1)"
  have bounds: "?i \<le> 1" "-1 \<le> di_index iter" "?i = 1 \<longrightarrow> dictIsRehashing d" using less.prems(1) by (auto simp: iter_ok_def)
  note len = inv_table_length [OF inv]
  have go: "gives (visit addr iter1 d) (ht_table d i1 ! nat j1 @ upcoming iter1 d) iter d"
    if it: "iter1 = iter\<lparr>di_table := i1, di_index := j1, di_entry := head_of (ht_table d i1 ! nat j1)\<rparr>" and pos: "i1 \<le> 1" "0 \<le> j1" "nat j1 < length (ht_table d i1)"
      "i1 = 1 \<longrightarrow> dictIsRehashing d" "i1 = ?i \<and> j1 = di_index iter + 1 \<or> ?i = 0 \<and> i1 = 1" for iter1 i1 j1
  proof (cases "ht_table d i1 ! nat j1")
    case Nil
    have ok: "iter_ok iter1 d" "di_entry iter1 = None" "started iter1" "di_table iter1 = i1" "di_index iter1 = j1"
      "di_safe iter1 = di_safe iter" "di_fingerprint iter1 = di_fingerprint iter"
      using it pos Nil by (auto simp: iter_ok_def started_def head_of_def)
    have j: "nat (j1 + 1) = Suc (nat j1)" using pos(2) by simp
    have "?i = 0 \<or> ?i = 1" using bounds(1) by auto
    then have "gives (advance addr iter1 d) (upcoming iter1 d) iter1 d"
      using pos(3,5) j by (intro less.hyps [OF _ ok(1,2)]) (auto simp: ok(4,5))
    then have "gives (advance addr iter1 d) (upcoming iter1 d) iter d" by (rule gives_flags) (simp_all add: ok)
    moreover have "visit addr iter1 d = advance addr iter1 d"
      using dictNext_advance [OF ok(2), of addr d] begin_started [OF ok(3), of addr d] ok(2) by (simp add: visit_def)
    ultimately show ?thesis using Nil by simp
  next
    case (Cons e rest)
    have "gives (visit addr iter1 d) (e # rest @ upcoming iter1 d) iter1 d"
      using Cons it pos by (intro visit_entry [OF inv, where pre = "[]"]) (simp_all add: head_of_def)
    then show ?thesis using Cons it by (auto intro: gives_flags)
  qed
  show ?case
  proof (cases "?j < length (ht_table d ?i)")
    case True
    define iter1 where "iter1 = iter\<lparr>di_table := ?i, di_index := di_index iter + 1, di_entry := head_of (ht_table d ?i ! ?j)\<rparr>"
    have "next_bucket iter d = Some (iter1, False)"
    proof -
      have "\<not> int (DICTHT_SIZE (ht_size_exp d ?i)) \<le> di_index iter + 1" using True bounds len [of ?i] by linarith
      then show ?thesis using True bounds by (simp add: next_bucket_def bucket_at_def iter1_def Let_def)
    qed
    then have "advance addr iter d = visit addr iter1 d" by (simp add: advance_def)
    moreover have "nat (di_index iter + 1 + 1) = Suc ?j" using bounds by simp
    then have "upcoming iter d = ht_table d ?i ! ?j @ upcoming iter1 d"
      unfolding upcoming_def iter1_def by (simp add: Cons_nth_drop_Suc [OF True, symmetric])
    ultimately show ?thesis using go [OF iter1_def] True bounds by simp
  next
    case False
    then have stop: "int (DICTHT_SIZE (ht_size_exp d ?i)) \<le> di_index iter + 1" using len [OF bounds(1)] bounds by simp
    show ?thesis
    proof (cases "dictIsRehashing d \<and> ?i = 0")
      case True
      define iter1 where "iter1 = iter\<lparr>di_table := 1, di_index := 0, di_entry := head_of (ht_table d 1 ! nat 0)\<rparr>"
      have l1: "0 < length (ht_table d 1)" using True inv len [of 1] by (auto simp: dict_inv_def dictIsRehashing_def DICTHT_SIZE_def)
      then have "next_bucket iter d = Some (iter1, False)"
        using stop True by (simp add: next_bucket_def bucket_at_def iter1_def Let_def)
      then have "advance addr iter d = visit addr iter1 d" by (simp add: advance_def)
      moreover have "upcoming iter d = ht_table d 1 ! nat 0 @ upcoming iter1 d"
        using False True l1 by (cases "ht_table d 1") (simp_all add: upcoming_def iter1_def)
      ultimately show ?thesis using go [OF iter1_def] l1 True by simp
    next
      case nr: False
      then have "next_bucket iter d = Some (iter\<lparr>di_index := di_index iter + 1\<rparr>, True)" using stop by (auto simp: next_bucket_def Let_def)
      then have "advance addr iter d = Some (None, iter\<lparr>di_index := di_index iter + 1\<rparr>, d)" by (simp add: advance_def)
      moreover have "upcoming iter d = []" "upcoming (iter\<lparr>di_index := di_index iter + 1\<rparr>) d = []"
        using False nr bounds by (auto simp: upcoming_def)
      ultimately show ?thesis using less.prems bounds
        by (auto simp: gives_def list_head_def started_def iter_ok_def pending_def)
    qed
  qed
qed

lemma split_at_stored: "s \<in> fst ` set b \<Longrightarrow> \<exists>pre e rest. b = pre @ e # rest \<and> fst e = s \<and> dropWhile (\<lambda>e. fst e \<noteq> s) b = e # rest"
proof (induction b)
  case (Cons x b)
  then show ?case
  proof (cases "fst x = s")
    case False
    then obtain pre e rest where "b = pre @ e # rest" "fst e = s" "dropWhile (\<lambda>e. fst e \<noteq> s) b = e # rest" using Cons by auto
    then show ?thesis using False by (intro exI [of _ "x # pre"]) auto
  qed (auto intro: exI [of _ "[]"])
qed simp

lemma dictNext_ok:
  assumes inv: "dict_inv t d" and ok: "iter_ok iter d" and st: "started iter"
  shows "gives (dictNext addr iter d) (pending iter d @ upcoming iter d) iter d"
proof (cases "di_entry iter")
  case None
  then show ?thesis using advance_ok [OF inv ok None, of addr] dictNext_advance [OF None, of addr d] begin_started [OF st, of addr d]
    by (simp add: pending_def)
next
  case (Some x)
  let ?iter = "iter\<lparr>di_entry := di_nextEntry iter\<rparr>"
  have run: "dictNext addr iter d = visit addr ?iter d" using dictNext_entry [OF Some] .
  have up: "upcoming ?iter d = upcoming iter d" by (simp add: upcoming_def)
  show ?thesis
  proof (cases "di_nextEntry iter")
    case None
    have ok': "iter_ok ?iter d" "di_entry ?iter = None" "started ?iter" using ok st None by (auto simp: iter_ok_def started_def)
    have "visit addr ?iter d = advance addr ?iter d"
      using dictNext_advance [OF ok'(2), of addr d] begin_started [OF ok'(3), of addr d] ok'(2) by (simp add: visit_def)
    moreover have "gives (advance addr ?iter d) (upcoming ?iter d) iter d" by (rule gives_flags [OF advance_ok [OF inv ok'(1,2)]]) simp_all
    ultimately show ?thesis using run up None by (simp add: pending_def split: option.splits)
  next
    case s: (Some s)
    let ?b = "ht_table d (di_table iter) ! nat (di_index iter)"
    have pos: "nat (di_index iter) < length (ht_table d (di_table iter))" "s \<in> fst ` set ?b" "di_table iter \<le> 1" "0 \<le> di_index iter"
      "di_table iter = 1 \<longrightarrow> dictIsRehashing d" using ok Some s by (auto simp: iter_ok_def)
    obtain pre e rest where e: "?b = pre @ e # rest" "fst e = s" "dropWhile (\<lambda>e. fst e \<noteq> s) ?b = e # rest" using split_at_stored [OF pos(2)] by blast
    have "gives (visit addr ?iter d) (e # rest @ upcoming ?iter d) ?iter d"
      using pos e s by (intro visit_entry [OF inv, where pre = pre]) simp_all
    then have "gives (visit addr ?iter d) (e # rest @ upcoming iter d) iter d" unfolding up by (rule gives_flags) simp_all
    moreover have "pending iter d = e # rest" using Some s e(3) by (simp add: pending_def)
    ultimately show ?thesis using run by simp
  qed
qed

lemma skip_rehashed: "\<forall>j < n. xs ! j = [] \<Longrightarrow> n \<le> length xs \<Longrightarrow> concat (drop n xs) = concat xs"
proof (induction n arbitrary: xs)
  case (Suc n)
  then obtain x ys where xs: "xs = x # ys" by (cases xs) auto
  have "x = []" using Suc.prems(1) xs by auto
  moreover have "\<forall>j < n. ys ! j = []" using Suc.prems(1) xs by auto
  ultimately show ?case using Suc.IH [of ys] Suc.prems(2) xs by simp
qed simp

text \<open>The first call sees all entries, in a dictionary that is paused when the iterator is safe.\<close>

lemma dictNext_first:
  assumes inv: "dict_inv t d" and it: "iter = (if safe then dictInitSafeIterator junk else dictInitIterator junk)"
  defines "d1 \<equiv> (if safe then dictPauseRehashing d else d)"
  shows "gives (dictNext addr iter d) (all_entries d) (iter\<lparr>di_fingerprint := if safe then junk else dictFingerprint addr d\<rparr>) d1"
proof -
  let ?fp = "if safe then junk else dictFingerprint addr d"
  define iter1 where "iter1 = iter\<lparr>di_fingerprint := ?fp, di_index := (if dictIsRehashing d then rehashidx d - 1 else -1)\<rparr>"
  have entry: "di_entry iter = None" "di_index iter = -1" "di_table iter = 0" "di_safe iter = safe" "di_fingerprint iter = junk"
    by (simp_all add: it dictInitSafeIterator_def dictInitIterator_def)
  have reh: "dictIsRehashing d1 = dictIsRehashing d" "rehashidx d1 = rehashidx d" "ht_table d1 = ht_table d"
    by (simp_all add: d1_def dictPauseRehashing_def dictIsRehashing_def)
  have b: "begin_iter addr iter d = (iter1, d1)"
    using entry reh by (auto simp: begin_iter_def iter1_def d1_def)
  have inv1: "dict_inv t d1" using inv by (simp add: d1_def)
  have ridx: "dictIsRehashing d \<Longrightarrow> 0 \<le> rehashidx d \<and> rehashidx d \<le> int (length (ht_table d 0)) \<and> (\<forall>j < nat (rehashidx d). ht_table d 0 ! j = [])"
    "\<not> dictIsRehashing d \<Longrightarrow> ht_table d 1 = []"
    using inv by (auto simp: dict_inv_def dictIsRehashing_def table_ok_def DICTHT_SIZE_def split: if_splits)
  have ok: "iter_ok iter1 d1" "di_entry iter1 = None" using entry ridx by (auto simp: iter_ok_def iter1_def)
  have "upcoming iter1 d1 = all_entries d"
    using ridx skip_rehashed [of "nat (rehashidx d)" "ht_table d 0"] entry by (auto simp: upcoming_def all_entries_def iter1_def reh)
  then have "gives (advance addr iter1 d1) (all_entries d) iter1 d1" using advance_ok [OF inv1 ok, of addr] by simp
  then have "gives (advance addr iter1 d1) (all_entries d) (iter\<lparr>di_fingerprint := ?fp\<rparr>) d1" by (rule gives_flags) (simp_all add: iter1_def)
  then show ?thesis using dictNext_advance [OF entry(1), of addr d] b by simp
qed

end
