(* ===== verification/Dict_Log.thy ===== *)
theory Dict_Log
  imports Dict_Session
begin

text \<open>
  What the callbacks of \<^verbatim>\<open>dictType\<close> tell an observer of a dictionary: replaying the events that an operation adds to the
  log follows the number of buckets and the rehashing that is going on. The key-value store keeps its counters in this way.
\<close>

section \<open>Replaying events\<close>

text \<open>The observer's state: the number of buckets and, while a rehashing is going on, the size of the table it leaves.\<close>

fun log_step :: "('s, 'v) dictEvent \<Rightarrow> int \<times> nat option \<Rightarrow> (int \<times> nat option) option" where
  "log_step (RehashingStarted a b) (n, r) = (if r = None then Some (n, Some a) else None)"
| "log_step (RehashingCompleted a b) (n, r) = (if r = Some a then Some (n, None) else None)"
| "log_step (BucketChanged k) (n, r) = Some (n + k, r)"
| "log_step _ (n, r) = Some (n, r)"

fun log_run :: "('s, 'v) dictEvent list \<Rightarrow> int \<times> nat option \<Rightarrow> (int \<times> nat option) option" where
  "log_run [] x = Some x"
| "log_run (e # es) x = do { x \<leftarrow> log_step e x; log_run es x }"

definition log_state :: "('s, 'v) dict \<Rightarrow> int \<times> nat option" where
  "log_state d = (int (dictBuckets d), if dictIsRehashing d then Some (DICTHT_SIZE (ht_size_exp d 0)) else None)"

definition idle_ok :: "('s, 'v) dict \<Rightarrow> bool" where
  "idle_ok d \<longleftrightarrow> (\<not> dictIsRehashing d \<longrightarrow> ht_size_exp d 1 = -1)"

definition logs :: "('s, 'v) dict \<Rightarrow> ('s, 'v) dict \<Rightarrow> bool" where
  "logs d d' \<longleftrightarrow> idle_ok d' \<and> (\<exists>es. d_log d' = d_log d @ es \<and> log_run es (log_state d) = Some (log_state d'))"

lemma log_run_append: "log_run (xs @ ys) x = do { x \<leftarrow> log_run xs x; log_run ys x }"
proof (induction xs arbitrary: x)
  case (Cons e xs)
  then show ?case by (cases "log_step e x") simp_all
qed simp

lemma inv_idle: "dict_inv t d \<Longrightarrow> idle_ok d"
  by (auto simp: dict_inv_def idle_ok_def dictIsRehashing_def split: if_splits)

lemma logs_trans: "logs d d' \<Longrightarrow> logs d' d'' \<Longrightarrow> logs d d''"
  by (auto simp: logs_def log_run_append)

lemma logs_idle: "logs d d' \<Longrightarrow> idle_ok d'"
  by (simp add: logs_def)

lemma logs_events: "logs d d' \<Longrightarrow> log_run (drop (length (d_log d)) (d_log d')) (log_state d) = Some (log_state d')"
  by (auto simp: logs_def)

definition same_shape :: "('s, 'v) dict \<Rightarrow> ('s, 'v) dict \<Rightarrow> bool" where
  "same_shape d d' \<longleftrightarrow> ht_size_exp d' = ht_size_exp d \<and> rehashidx d' = rehashidx d \<and> d_log d' = d_log d"

lemma shape_logs: "idle_ok d \<Longrightarrow> same_shape d d' \<Longrightarrow> logs d d'"
  by (auto simp: logs_def same_shape_def idle_ok_def log_state_def dictBuckets_def dictIsRehashing_def)

lemma logs_refl: "idle_ok d \<Longrightarrow> logs d d"
  by (rule shape_logs) (simp_all add: same_shape_def)

lemma shape_trans: "same_shape d d' \<Longrightarrow> same_shape d' d'' \<Longrightarrow> same_shape d d''"
  by (simp add: same_shape_def)

lemma shape_idle: "same_shape d d' \<Longrightarrow> idle_ok d' = idle_ok d"
  by (simp add: same_shape_def idle_ok_def dictIsRehashing_def)

text \<open>Operations that leave the sizes of the tables alone.\<close>

lemma set_bucket_shape: "set_bucket d i j b = Some d' \<Longrightarrow> same_shape d d'"
  by (auto simp: set_bucket_def same_shape_def dictIsRehashing_def split: if_splits)

lemma used_shape [simp]: "same_shape d (d'\<lparr>ht_used := u\<rparr>) = same_shape d d'" "same_shape (d\<lparr>ht_used := u\<rparr>) d' = same_shape d d'"
  by (simp_all add: same_shape_def)

lemma rehash_chain_shape: "rehash_chain t idx b d = Some d' \<Longrightarrow> same_shape d d'"
proof (induction b arbitrary: d)
  case Nil
  then show ?case by (simp add: same_shape_def)
next
  case (Cons e b)
  then show ?case by (auto simp: Let_def bind_eq_Some_conv dest!: set_bucket_shape Cons.IH elim: shape_trans)
qed

lemma rehashEntries_shape: "rehashEntriesInBucketAtIndex t d idx = Some d' \<Longrightarrow> same_shape d d'"
  by (auto simp: rehashEntriesInBucketAtIndex_def bind_eq_Some_conv dest!: set_bucket_shape rehash_chain_shape elim: shape_trans)

lemma set_entry_shape: "set_entry d l e = Some d' \<Longrightarrow> same_shape d d'"
  by (auto simp: set_entry_def bind_eq_Some_conv dest!: set_bucket_shape split: prod.splits if_splits)

lemma unlink_at_shape: "unlink_at d l = Some d' \<Longrightarrow> same_shape d d'"
  by (auto simp: unlink_at_def bind_eq_Some_conv dest!: set_bucket_shape split: prod.splits)

lemma insertKey_shape: "dictInsertKeyAtLink junk d key b = Some (d', l) \<Longrightarrow> same_shape d d'"
  by (auto simp: dictInsertKeyAtLink_def Let_def bind_eq_Some_conv dest!: set_bucket_shape split: prod.splits)

lemma setVal_shape: "dictSetVal t d l v = Some d' \<Longrightarrow> same_shape d d'"
  by (auto simp: dictSetVal_def bind_eq_Some_conv dest!: set_entry_shape)

section \<open>Rehashing and resizing\<close>

lemma checkCompleted_logs: "dictIsRehashing d \<Longrightarrow> idle_ok d \<Longrightarrow> logs d (fst (dictCheckRehashingCompleted d))"
  by (auto simp: dictCheckRehashingCompleted_def logs_def idle_ok_def emit_def u_dictReset_def Let_def log_state_def
      dictIsRehashing_def dictBuckets_def DICTHT_SIZE_def)

lemma rehash_loop_shape:
  "dictRehash_loop t n ev d = Some (d', stop) \<Longrightarrow> dictIsRehashing d \<Longrightarrow>
   ht_size_exp d' = ht_size_exp d \<and> dictIsRehashing d' \<and> d_log d' = d_log d"
proof (induction n arbitrary: ev d)
  case (Suc n)
  show ?case
  proof (cases "ht_used d 0 = 0")
    case False
    then obtain i ev' st where sk: "skip_empty (ht_table d 0) (nat (rehashidx d)) ev = Some (i, ev', st)"
      using Suc.prems(1) by (auto simp: bind_eq_Some_conv)
    show ?thesis
    proof (cases st)
      case True
      then show ?thesis using Suc.prems sk False by (auto simp: bind_eq_Some_conv Let_def dictIsRehashing_def)
    next
      case st: False
      then obtain d2 where d2: "rehashEntriesInBucketAtIndex t (d\<lparr>rehashidx := int i\<rparr>) i = Some d2"
        "dictRehash_loop t n ev' (d2\<lparr>rehashidx := rehashidx d2 + 1\<rparr>) = Some (d', stop)"
        using Suc.prems(1) sk False by (auto simp: bind_eq_Some_conv Let_def)
      have "ht_size_exp d2 = ht_size_exp d" "rehashidx d2 = int i" "d_log d2 = d_log d"
        using rehashEntries_shape [OF d2(1)] by (simp_all add: same_shape_def)
      then show ?thesis using Suc.IH [OF d2(2)] by (simp add: dictIsRehashing_def)
    qed
  qed (use Suc.prems in simp)
qed simp

lemma dictRehash_logs: "dictRehash t cr d n = Some (d', again) \<Longrightarrow> idle_ok d \<Longrightarrow> logs d d'"
proof (cases "rehash_blocked cr d")
  case False
  assume r: "dictRehash t cr d n = Some (d', again)" and i: "idle_ok d"
  have reh: "dictIsRehashing d" using False by (auto simp: rehash_blocked_def Let_def)
  obtain d1 stop where l: "dictRehash_loop t n (n * 10) d = Some (d1, stop)"
    "if stop then d' = d1 else d' = fst (dictCheckRehashingCompleted d1)"
    using r False by (auto simp: dictRehash_def bind_eq_Some_conv split: prod.splits if_splits)
  have s: "ht_size_exp d1 = ht_size_exp d" "dictIsRehashing d1" "d_log d1 = d_log d" using rehash_loop_shape [OF l(1) reh] by auto
  then have 1: "logs d d1" using i reh by (auto simp: logs_def idle_ok_def log_state_def dictBuckets_def)
  then show "logs d d'" using l(2) logs_trans [OF 1 checkCompleted_logs [OF s(2) logs_idle [OF 1]]] by (auto split: if_splits)
qed (auto simp: dictRehash_def bind_eq_Some_conv logs_refl)

lemma full_rehash_logs:
  fixes t :: "('s, 'k, 'v) dictType"
  assumes "full_rehash t cr d = Some d'" "idle_ok d"
  shows "logs d d'"
proof -
  have "idle_ok d \<longrightarrow> logs d d'"
  proof (rule full_rehash.raw_induct [OF _ assms(1), where P = "\<lambda>t cr d y. idle_ok d \<longrightarrow> logs d y"], rule impI)
    fix f and t :: "('s, 'k, 'v) dictType" and cr d d'
    assume ih: "\<And>t cr d y. f t cr d = Some y \<Longrightarrow> idle_ok d \<longrightarrow> logs d y" and "idle_ok d"
      "do { (d, again) \<leftarrow> dictRehash t cr d 1000; (if again then f t cr d else Some d) } = Some d'"
    then obtain d1 again where r: "dictRehash t cr d 1000 = Some (d1, again)" "if again then f t cr d1 = Some d' else d' = d1"
      by (auto simp: bind_eq_Some_conv split: if_splits)
    note l = dictRehash_logs [OF r(1) \<open>idle_ok d\<close>]
    show "logs d d'" using r(2) ih l logs_trans [OF l] logs_idle [OF l] by (cases again) auto
  qed
  then show ?thesis using assms(2) by simp
qed

lemma logs_shape_trans: "logs d d' \<Longrightarrow> same_shape d' d'' \<Longrightarrow> logs d d''"
  using logs_trans shape_logs logs_idle by blast

text \<open>The dictionary after the callbacks of a new rehashing, and after an empty table has been replaced.\<close>

definition resize_started :: "int \<Rightarrow> ('s, 'v) dict \<Rightarrow> ('s, 'v) dict" where
  "resize_started e d = emit (BucketChanged (int (DICTHT_SIZE (ht_size_exp (start_rehash e d) 1)))) (rehashing_started (start_rehash e d))"

definition resize_replaced :: "int \<Rightarrow> ('s, 'v) dict \<Rightarrow> ('s, 'v) dict" where
  "resize_replaced e d =
     (let d = emit (BucketChanged (- int (DICTHT_SIZE (ht_size_exp d 0)))) (rehashing_completed d)
      in (u_dictReset (d\<lparr>ht_size_exp := (ht_size_exp d)(0 := e), ht_used := (ht_used d)(0 := 0),
            ht_table := (ht_table d)(0 := replicate (DICTHT_SIZE e) [])\<rparr>) 1)\<lparr>rehashidx := -1\<rparr>)"

lemma resize_cases:
  assumes "u_dictResize t cr ok d sz = Some (d', r)"
  obtains "d' = d" | "ht_table d 0 = [] \<or> ht_used d 0 = 0" "d' = resize_replaced (dictNextExpForSize sz) (resize_started (dictNextExpForSize sz) d)"
    | "force_full_rehash t" "full_rehash t cr (resize_started (dictNextExpForSize sz) d) = Some d'"
    | "d' = resize_started (dictNextExpForSize sz) d"
proof -
  have "ht_table (resize_started e d) 0 = ht_table d 0" "ht_used (resize_started e d) 0 = ht_used d 0" for e
    by (simp_all add: resize_started_def start_rehash_def emit_def)
  then have "d' = d \<or> ((ht_table d 0 = [] \<or> ht_used d 0 = 0) \<and> d' = resize_replaced (dictNextExpForSize sz) (resize_started (dictNextExpForSize sz) d)) \<or>
      (force_full_rehash t \<and> full_rehash t cr (resize_started (dictNextExpForSize sz) d) = Some d') \<or> d' = resize_started (dictNextExpForSize sz) d"
    using assms unfolding u_dictResize_def Let_def start_rehash_def [symmetric] resize_started_def [symmetric] resize_replaced_def
    by (auto simp: bind_eq_Some_conv split: if_splits)
  then show thesis using that by blast
qed

lemma u_dictResize_logs:
  assumes "u_dictResize t cr ok d sz = Some (d', r)" "idle_ok d"
  shows "logs d d'"
proof -
  let ?s = "resize_started (dictNextExpForSize sz) d"
  have idle: "\<not> dictIsRehashing d" "ht_size_exp d 1 = -1" using assms by (auto simp: u_dictResize_def idle_ok_def)
  have l: "logs d ?s" using idle
    by (auto simp: resize_started_def start_rehash_def logs_def idle_ok_def emit_def log_state_def dictIsRehashing_def dictBuckets_def DICTHT_SIZE_def)
  have reh: "dictIsRehashing ?s" by (simp add: resize_started_def start_rehash_def emit_def dictIsRehashing_def)
  from assms(1) show ?thesis
  proof (cases rule: resize_cases)
    case 2
    have "logs ?s d'"
      unfolding 2(2) using reh
      by (auto simp: resize_replaced_def Let_def logs_def idle_ok_def emit_def u_dictReset_def log_state_def dictIsRehashing_def dictBuckets_def
          resize_started_def start_rehash_def DICTHT_SIZE_def)
    then show ?thesis using l logs_trans by blast
  next
    case 3
    then show ?thesis using full_rehash_logs logs_trans l logs_idle by blast
  qed (use l assms(2) logs_refl in auto)
qed

section \<open>Operations\<close>

lemma u_dictExpand_logs: "u_dictExpand t cr ok d sz = Some (d', r) \<Longrightarrow> idle_ok d \<Longrightarrow> logs d d'"
  by (auto simp: u_dictExpand_def logs_refl u_dictResize_logs split: if_splits)

lemma dictExpand_logs: "dictExpand t cr d sz = Some (d', r) \<Longrightarrow> idle_ok d \<Longrightarrow> logs d d'"
  by (auto simp: dictExpand_def bind_eq_Some_conv u_dictExpand_logs)

lemma dictTryExpand_logs: "dictTryExpand t cr ok d sz = Some (d', r) \<Longrightarrow> idle_ok d \<Longrightarrow> logs d d'"
  by (auto simp: dictTryExpand_def bind_eq_Some_conv u_dictExpand_logs)

lemma dictShrink_logs: "dictShrink t cr d sz = Some (d', r) \<Longrightarrow> idle_ok d \<Longrightarrow> logs d d'"
  by (auto simp: dictShrink_def bind_eq_Some_conv logs_refl u_dictResize_logs split: if_splits)

lemma dictExpandIfNeeded_logs: "dictExpandIfNeeded t cr d = Some (d', r) \<Longrightarrow> idle_ok d \<Longrightarrow> logs d d'"
  by (auto simp: dictExpandIfNeeded_def bind_eq_Some_conv logs_refl dictExpand_logs split: if_splits)

lemma u_dictExpandIfNeeded_logs: "u_dictExpandIfNeeded t cr d = Some (d', r) \<Longrightarrow> idle_ok d \<Longrightarrow> logs d d'"
  by (auto simp: u_dictExpandIfNeeded_def logs_refl dictExpandIfNeeded_logs split: if_splits)

lemma dictShrinkIfNeeded_logs: "dictShrinkIfNeeded t cr d = Some (d', r) \<Longrightarrow> idle_ok d \<Longrightarrow> logs d d'"
  by (auto simp: dictShrinkIfNeeded_def bind_eq_Some_conv logs_refl dictShrink_logs split: if_splits)

lemma u_dictShrinkIfNeeded_logs: "u_dictShrinkIfNeeded t cr d = Some d' \<Longrightarrow> idle_ok d \<Longrightarrow> logs d d'"
  by (auto simp: u_dictShrinkIfNeeded_def bind_eq_Some_conv logs_refl dictShrinkIfNeeded_logs split: if_splits)

lemma u_dictRehashStep_logs: "u_dictRehashStep t cr d = Some d' \<Longrightarrow> idle_ok d \<Longrightarrow> logs d d'"
  by (auto simp: u_dictRehashStep_def bind_eq_Some_conv logs_refl dictRehash_logs split: if_splits)

lemma u_dictBucketRehash_logs:
  assumes "u_dictBucketRehash t cr d idx = Some d'" "idle_ok d"
  shows "logs d d'"
proof (cases "pauserehash d \<noteq> 0 \<or> rehash_blocked cr d")
  case False
  then obtain d1 where d1: "rehashEntriesInBucketAtIndex t d idx = Some d1" "d' = fst (dictCheckRehashingCompleted d1)"
    using assms(1) by (auto simp: u_dictBucketRehash_def bind_eq_Some_conv)
  note s = rehashEntries_shape [OF d1(1)]
  have "dictIsRehashing d1" using s False by (auto simp: rehash_blocked_def Let_def same_shape_def dictIsRehashing_def)
  then show ?thesis using checkCompleted_logs [of d1] shape_logs [OF assms(2) s] shape_idle [OF s] assms(2) d1(2) logs_trans by blast
qed (use assms in \<open>simp add: u_dictBucketRehash_def logs_refl\<close>)

lemma stepIfNeeded_logs: "u_dictRehashStepIfNeeded t cr d idx = Some d' \<Longrightarrow> idle_ok d \<Longrightarrow> logs d d'"
  by (auto simp: u_dictRehashStepIfNeeded_def bind_eq_Some_conv logs_refl dictRehash_logs u_dictBucketRehash_logs split: if_splits)

lemma findLinkForInsert_logs: "dictFindLinkForInsert t cr d key = Some (d', r) \<Longrightarrow> idle_ok d \<Longrightarrow> logs d d'"
  by (auto simp: dictFindLinkForInsert_def Let_def bind_eq_Some_conv)
    (metis stepIfNeeded_logs u_dictExpandIfNeeded_logs logs_trans logs_idle)

lemma dictAddRaw_logs:
  assumes "dictAddRaw t cr junk d key = Some (d', r)" "idle_ok d"
  shows "logs d d'"
proof -
  obtain d1 p where 1: "dictFindLinkForInsert t cr d (keyFromStoredKey t key) = Some (d1, p)"
    using assms(1) by (auto simp: dictAddRaw_def bind_eq_Some_conv)
  note l = findLinkForInsert_logs [OF 1 assms(2)]
  show ?thesis
  proof (cases p)
    case (Inr b)
    then obtain q where "dictInsertKeyAtLink junk d1 (keyDup t key) b = Some (d', q)"
      using assms(1) 1 by (auto simp: dictAddRaw_def bind_eq_Some_conv)
    then show ?thesis using logs_shape_trans [OF l insertKey_shape] by blast
  qed (use assms(1) 1 l in \<open>auto simp: dictAddRaw_def\<close>)
qed

lemma dictFindLinkInternal_logs: "dictFindLinkInternal t cr d key b = Some (d', r) \<Longrightarrow> idle_ok d \<Longrightarrow> logs d d'"
  by (auto simp: dictFindLinkInternal_def Let_def bind_eq_Some_conv logs_refl stepIfNeeded_logs split: if_splits)

lemma dictFindLink_logs: "dictFindLink t cr d key b = Some (d', r) \<Longrightarrow> idle_ok d \<Longrightarrow> logs d d'"
  by (auto simp: dictFindLink_def logs_refl dictFindLinkInternal_logs split: if_splits)

lemma dictFind_logs: "dictFind t cr d key = Some (d', r) \<Longrightarrow> idle_ok d \<Longrightarrow> logs d d'"
  by (auto simp: dictFind_def bind_eq_Some_conv dictFindLink_logs split: option.splits)

lemma dictFetchValue_logs: "dictFetchValue t cr d key = Some (d', r) \<Longrightarrow> idle_ok d \<Longrightarrow> logs d d'"
  by (auto simp: dictFetchValue_def bind_eq_Some_conv dictFind_logs)

lemma free_logs: "idle_ok d \<Longrightarrow> logs d (dictFreeUnlinkedEntry d he)"
  by (auto simp: dictFreeUnlinkedEntry_def emit_def logs_def idle_ok_def log_state_def dictIsRehashing_def dictBuckets_def split: option.splits prod.splits)

lemma dictGenericDelete_logs:
  assumes "dictGenericDelete t cr d key nofree = Some (d', r)" "idle_ok d"
  shows "logs d d'"
proof (cases "dictSize d = 0")
  case False
  let ?h = "dictGetHash t key"
  let ?idx = "?h AND DICTHT_SIZE_MASK (ht_size_exp d 0)"
  obtain d1 where 1: "u_dictRehashStepIfNeeded t cr d ?idx = Some d1"
    using assms(1) False by (auto simp: dictGenericDelete_def Let_def bind_eq_Some_conv)
  note l1 = stepIfNeeded_logs [OF 1 assms(2)]
  obtain q j where s: "search_tables t d1 ?h ?idx key = Some (q, j)"
    using assms(1) False 1 by (auto simp: dictGenericDelete_def Let_def bind_eq_Some_conv)
  show ?thesis
  proof (cases q)
    case None
    then show ?thesis using assms(1) False 1 s l1 by (auto simp: dictGenericDelete_def Let_def)
  next
    case (Some l)
    then obtain he d2 where 2: "unlink_at d1 l = Some d2"
      "u_dictShrinkIfNeeded t cr ((if \<not> nofree then dictFreeUnlinkedEntry d2 (Some he) else d2)
         \<lparr>ht_used := (ht_used (if \<not> nofree then dictFreeUnlinkedEntry d2 (Some he) else d2))
            (fst l := ht_used (if \<not> nofree then dictFreeUnlinkedEntry d2 (Some he) else d2) (fst l) - 1)\<rparr>) = Some d'"
      using assms(1) False 1 s by (auto simp: dictGenericDelete_def Let_def bind_eq_Some_conv)
    define d3 where "d3 = (if \<not> nofree then dictFreeUnlinkedEntry d2 (Some he) else d2)"
    have "logs d d2" using logs_shape_trans [OF l1 unlink_at_shape [OF 2(1)]] .
    then have "logs d d3" unfolding d3_def using logs_trans [OF _ free_logs [OF logs_idle], of d d2 d] by (simp add: logs_trans)
    then have "logs d (d3\<lparr>ht_used := (ht_used d3)(fst l := ht_used d3 (fst l) - 1)\<rparr>)" by (rule logs_shape_trans) (simp add: same_shape_def)
    then show ?thesis using u_dictShrinkIfNeeded_logs [OF 2(2)] logs_trans logs_idle unfolding d3_def by blast
  qed
qed (use assms in \<open>simp add: dictGenericDelete_def logs_refl\<close>)

lemma dictDelete_logs: "dictDelete t cr d key = Some (d', r) \<Longrightarrow> idle_ok d \<Longrightarrow> logs d d'"
  by (auto simp: dictDelete_def bind_eq_Some_conv dictGenericDelete_logs)

lemma pause_logs: "idle_ok d \<Longrightarrow> logs d (d\<lparr>pauserehash := n\<rparr>)"
  by (rule shape_logs) (simp_all add: same_shape_def)

lemma twoPhaseFind_logs:
  assumes "dictTwoPhaseUnlinkFind t cr d key = Some (d', r)" "idle_ok d"
  shows "logs d d'"
proof (cases "dictSize d = 0")
  case False
  then obtain d1 where 1: "(if dictIsRehashing d then u_dictRehashStep t cr d else Some d) = Some d1"
    "d' = d1 \<or> d' = dictPauseRehashing d1"
    using assms(1) by (auto simp: dictTwoPhaseUnlinkFind_def Let_def bind_eq_Some_conv split: if_splits)
  have l: "logs d d1" using 1(1) u_dictRehashStep_logs [of t cr d d1] assms(2) logs_refl by (auto split: if_splits)
  then show ?thesis using 1(2) logs_trans [OF l pause_logs [OF logs_idle [OF l]]] by (auto simp: dictPauseRehashing_def)
qed (use assms in \<open>simp add: dictTwoPhaseUnlinkFind_def logs_refl\<close>)

lemma twoPhaseFree_logs:
  assumes "dictTwoPhaseUnlinkFree t cr d link = Some d'" "idle_ok d"
  shows "logs d d'"
proof (cases link)
  case None
  then show ?thesis using assms by (simp add: dictTwoPhaseUnlinkFree_def logs_refl)
next
  case (Some l)
  let ?d = "d\<lparr>ht_used := (ht_used d)(fst l := ht_used d (fst l) - 1)\<rparr>"
  obtain de d2 d3 where 2: "unlink_at ?d l = Some d2" "u_dictShrinkIfNeeded t cr (dictFreeUnlinkedEntry d2 (Some de)) = Some d3"
    "d' = dictResumeRehashing d3"
    using assms(1) Some by (auto simp: dictTwoPhaseUnlinkFree_def Let_def bind_eq_Some_conv)
  have "same_shape d ?d" by (simp add: same_shape_def)
  then have l2: "logs d d2" using shape_logs [OF assms(2)] shape_trans unlink_at_shape [OF 2(1)] by blast
  then have l3: "logs d (dictFreeUnlinkedEntry d2 (Some de))" by (rule logs_trans) (rule free_logs [OF logs_idle [OF l2]])
  have l4: "logs d d3" by (rule logs_trans [OF l3 u_dictShrinkIfNeeded_logs [OF 2(2) logs_idle [OF l3]]])
  then show ?thesis unfolding 2(3) dictResumeRehashing_def by (rule logs_trans) (rule pause_logs [OF logs_idle [OF l4]])
qed

lemma setKeyAtLink_new_logs:
  assumes "dictSetKeyAtLink_new t cr junk d key link = Some d'" "idle_ok d"
  shows "logs d d'"
proof -
  obtain d1 r where 1: "dictExpandIfNeeded t cr d = Some (d1, r)"
    using assms(1) by (auto simp: dictSetKeyAtLink_new_def Let_def bind_eq_Some_conv)
  note l1 = dictExpandIfNeeded_logs [OF 1 assms(2)]
  obtain d2 l2 b q where 2: "(if ht_size_exp d 0 \<noteq> ht_size_exp d1 0 \<or> ht_size_exp d 1 \<noteq> ht_size_exp d1 1 \<or> link = None
      then do { (d, found, bucket) \<leftarrow> dictFindLinkInternal t cr d1 (keyFromStoredKey t key) True;
                guard (bucket \<noteq> None); guard (found = None); Some (d, bucket) } else Some (d1, link)) = Some (d2, l2)"
    "dictInsertKeyAtLink junk d2 (keyDup t key) b = Some (d', q)"
    using assms(1) 1 unfolding dictSetKeyAtLink_new_def Let_def by (auto simp: bind_eq_Some_conv simp del: split_paired_Ex)
  have "logs d d2" using 2(1) l1 logs_trans [OF l1 dictFindLinkInternal_logs [OF _ logs_idle [OF l1]]]
    by (auto simp: bind_eq_Some_conv split: if_splits)
  then show ?thesis using insertKey_shape [OF 2(2)] logs_shape_trans by blast
qed

lemma setKeyAtLink_existing_logs:
  assumes "dictSetKeyAtLink_existing t as_key cr d key link = Some d'" "idle_ok d"
  shows "logs d d'"
proof -
  obtain d1 l1 q e where 1: "(if link = None then do { (d, found, _) \<leftarrow> dictFindLink t cr d (as_key key) False; guard (found \<noteq> None); Some (d, found) }
      else Some (d, link)) = Some (d1, l1)" "set_entry d1 q e = Some d'"
    using assms(1) unfolding dictSetKeyAtLink_existing_def by (auto simp: bind_eq_Some_conv simp del: split_paired_Ex)
  have "logs d d1" using 1(1) logs_refl [OF assms(2)] dictFindLink_logs [OF _ assms(2)]
    by (auto simp: bind_eq_Some_conv split: if_splits)
  then show ?thesis using set_entry_shape [OF 1(2)] logs_shape_trans by blast
qed

section \<open>Emptying\<close>

fun quiet :: "('s, 'v) dictEvent \<Rightarrow> bool" where
  "quiet (RehashingStarted _ _) = False"
| "quiet (RehashingCompleted _ _) = False"
| "quiet (BucketChanged _) = False"
| "quiet _ = True"

lemma quiet_run: "list_all quiet es \<Longrightarrow> log_run es x = Some x"
proof (induction es)
  case (Cons e es)
  then show ?case by (cases e; cases x) auto
qed simp

definition clears :: "('s, 'v) dict \<Rightarrow> ('s, 'v) dict \<Rightarrow> bool" where
  "clears d d' \<longleftrightarrow> ht_size_exp d' = ht_size_exp d \<and> rehashidx d' = rehashidx d \<and> (\<exists>es. list_all quiet es \<and> d_log d' = d_log d @ es)"

lemma clears_refl: "clears d d"
  by (simp add: clears_def)

lemma clears_trans: "clears d d' \<Longrightarrow> clears d' d'' \<Longrightarrow> clears d d''"
  unfolding clears_def by (metis append.assoc list_all_append)

lemma clear_chain_clears: "clears d (clear_chain h b d)"
proof (induction h b d rule: clear_chain.induct)
  case (2 h k v rest d)
  have "clears d ((emit (FreeVal v) (emit (FreeKey k) d))\<lparr>ht_used := u\<rparr>)" for u by (auto simp: clears_def emit_def)
  then show ?case using 2 clears_trans by auto
qed (simp add: clears_refl)

lemma clear_loop_clears: "clear_loop h cb n d i = Some d' \<Longrightarrow> clears d d'"
proof (induction h cb n d i rule: clear_loop.induct)
  case (1 h cb n d i)
  show ?case
  proof (cases "i < n \<and> ht_used d h > 0")
    case True
    let ?d = "if cb \<and> i \<noteq> 0 \<and> i AND 65535 = 0 then emit ClearCallback d else d"
    obtain b where b: "bucket_at ?d h i = Some b" "clear_loop h cb n (clear_chain h b ?d) (i + 1) = Some d'"
      using "1.prems" True by (subst (asm) clear_loop.simps) (auto simp: Let_def bind_eq_Some_conv)
    have "clears d ?d" by (auto simp: clears_def emit_def)
    then show ?thesis using "1.IH" [OF True refl b] clear_chain_clears [of ?d h b] clears_trans by blast
  next
    case False
    then have "clear_loop h cb n d i = Some d" by (subst clear_loop.simps) (simp only: if_False)
    then show ?thesis using "1.prems" by (simp add: clears_refl)
  qed
qed

definition with_completion :: "('s, 'v) dict \<Rightarrow> ('s, 'v) dict" where
  "with_completion d = (let d = (if dictIsRehashing d then rehashing_completed d else d) in emit (BucketChanged (- int (dictBuckets d))) d)"

lemma with_completion_run:
  "\<exists>es. d_log (with_completion d) = d_log d @ es \<and> log_run es (log_state d) = Some (0, None)"
  "ht_size_exp (with_completion d) = ht_size_exp d"
  by (auto simp: with_completion_def emit_def log_state_def dictBuckets_def)

lemma clear_both:
  assumes "u_dictClear d 0 cb = Some d1" "u_dictClear d1 1 cb = Some d2"
  shows "ht_size_exp d2 0 = -1" "ht_size_exp d2 1 = -1" "\<exists>es. list_all quiet es \<and> d_log d2 = d_log d @ es"
proof -
  obtain c where c: "clear_loop 0 cb (DICTHT_SIZE (ht_size_exp d 0)) d 0 = Some c" "d1 = u_dictReset c 0"
    using assms(1) by (auto simp: u_dictClear_def bind_eq_Some_conv)
  obtain c' where c': "clear_loop 1 cb (DICTHT_SIZE (ht_size_exp d1 1)) d1 0 = Some c'" "d2 = u_dictReset c' 1"
    using assms(2) by (auto simp: u_dictClear_def bind_eq_Some_conv)
  obtain es where es: "list_all quiet es" "d_log c = d_log d @ es" using clear_loop_clears [OF c(1)] by (auto simp: clears_def)
  obtain fs where fs: "list_all quiet fs" "d_log c' = d_log d1 @ fs" "ht_size_exp c' = ht_size_exp d1"
    using clear_loop_clears [OF c'(1)] by (auto simp: clears_def)
  show "ht_size_exp d2 0 = -1" "ht_size_exp d2 1 = -1" using fs(3) by (simp_all add: c(2) c'(2) u_dictReset_def)
  have "d_log d2 = d_log d @ (es @ fs)" using es fs by (simp add: c(2) c'(2) u_dictReset_def)
  then show "\<exists>es. list_all quiet es \<and> d_log d2 = d_log d @ es" using es(1) fs(1) by (intro exI [of _ "es @ fs"]) simp
qed

lemma dictEmpty_logs:
  assumes "dictEmpty d cb = Some d'"
  shows "logs d d'"
proof -
  obtain d1 d2 where c: "u_dictClear (with_completion d) 0 cb = Some d1" "u_dictClear d1 1 cb = Some d2"
    "d' = d2\<lparr>rehashidx := -1, pauserehash := 0, pauseAutoResize := 0\<rparr>"
    using assms by (auto simp: dictEmpty_def with_completion_def Let_def bind_eq_Some_conv)
  obtain es where es: "d_log (with_completion d) = d_log d @ es" "log_run es (log_state d) = Some (0, None)"
    using with_completion_run(1) by blast
  obtain fs where fs: "list_all quiet fs" "d_log d2 = d_log (with_completion d) @ fs" using clear_both(3) [OF c(1,2)] by blast
  have "log_state d' = (0, None)" using clear_both(1,2) [OF c(1,2)]
    by (simp add: c(3) log_state_def dictBuckets_def dictIsRehashing_def DICTHT_SIZE_def)
  moreover have "idle_ok d'" using clear_both(2) [OF c(1,2)] by (simp add: c(3) idle_ok_def)
  ultimately show ?thesis using es fs quiet_run [OF fs(1)] by (auto simp: logs_def c(3) log_run_append)
qed

lemma dictRelease_run:
  assumes "dictRelease d = Some l"
  shows "\<exists>es. l = d_log d @ es \<and> log_run es (log_state d) = Some (0, None)"
proof -
  obtain d1 d2 where c: "u_dictClear (emit OnDictRelease (with_completion d)) 0 False = Some d1" "u_dictClear d1 1 False = Some d2" "l = d_log d2"
    using assms by (auto simp: dictRelease_def with_completion_def Let_def bind_eq_Some_conv)
  obtain es where es: "d_log (with_completion d) = d_log d @ es" "log_run es (log_state d) = Some (0, None)"
    using with_completion_run(1) by blast
  obtain fs where fs: "list_all quiet fs" "d_log d2 = d_log (emit OnDictRelease (with_completion d)) @ fs" using clear_both(3) [OF c(1,2)] by blast
  have "l = d_log d @ (es @ OnDictRelease # fs)" using es fs c(3) by (simp add: emit_def)
  then show ?thesis using es(2) quiet_run [OF fs(1)] by (auto simp: log_run_append)
qed

end
