(* ===== verification/Dict_Sweep.thy ===== *)
theory Dict_Sweep
  imports Dict_Iter Dict_Log
begin

text \<open>
  Iterating over a dictionary while deleting from it: a safe iterator pauses the incremental rehashing, so that deleting the
  entry it has just returned leaves the entries still to come where they are.
\<close>

section \<open>Deletion under a paused rehashing\<close>

lemma filter_absent: "e \<notin> set xs \<Longrightarrow> filter (\<lambda>x. x \<noteq> e) xs = xs"
  by (auto simp: filter_id_conv)

lemma map_filter_absent: "e \<notin> set (concat tbl) \<Longrightarrow> map (filter (\<lambda>x. x \<noteq> e)) tbl = tbl"
  by (rule map_idI) (auto intro: filter_absent)

lemma remove_at:
  assumes "distinct b" "p < length b"
  shows "filter (\<lambda>x. x \<noteq> b ! p) b = take p b @ drop (Suc p) b"
proof -
  have split: "b = take p b @ b ! p # drop (Suc p) b" using id_take_nth_drop [OF assms(2)] .
  have "distinct (take p b @ b ! p # drop (Suc p) b)" using assms(1) split by simp
  then have "b ! p \<notin> set (take p b)" "b ! p \<notin> set (drop (Suc p) b)" by auto
  then have "filter (\<lambda>x. x \<noteq> b ! p) (take p b @ b ! p # drop (Suc p) b) = take p b @ drop (Suc p) b"
    by (simp add: filter_absent)
  then show ?thesis using split by simp
qed

lemma remove_one:
  "distinct (concat tbl) \<Longrightarrow> j < length tbl \<Longrightarrow> p < length (tbl ! j) \<Longrightarrow>
   tbl[j := take p (tbl ! j) @ drop (Suc p) (tbl ! j)] = map (filter (\<lambda>x. x \<noteq> tbl ! j ! p)) tbl"
proof (induction tbl arbitrary: j)
  case (Cons b tbl)
  show ?case
  proof (cases j)
    case 0
    then have "b ! p \<in> set b" using Cons.prems(3) by simp
    then have "b ! p \<notin> set (concat tbl)" using Cons.prems(1) by auto
    then show ?thesis using Cons.prems 0 map_filter_absent [of "b ! p" tbl] by (simp add: remove_at)
  next
    case (Suc i)
    have "tbl ! i ! p \<in> set (tbl ! i)" "i < length tbl" using Cons.prems(2,3) Suc by simp_all
    then have "tbl ! i ! p \<in> set (concat tbl)" by auto
    then have "tbl ! i ! p \<notin> set b" using Cons.prems(1) by (auto simp del: set_concat)
    then show ?thesis using Cons Suc by (simp add: filter_absent)
  qed
qed simp

text \<open>What the deletion of an entry under a paused rehashing does to the tables: it takes the entry out of its chain, and may
  start a rehashing into an empty table, or replace the table when it was the last entry.\<close>

definition removed :: "'s \<times> 'v \<Rightarrow> ('s, 'v) dict \<Rightarrow> ('s, 'v) dict \<Rightarrow> bool" where
  "removed e d d' \<longleftrightarrow>
     ht_table d' 0 = map (filter (\<lambda>x. x \<noteq> e)) (ht_table d 0) \<and>
     (if dictIsRehashing d then dictIsRehashing d' \<and> ht_table d' 1 = map (filter (\<lambda>x. x \<noteq> e)) (ht_table d 1)
      else dictIsRehashing d' \<longrightarrow> concat (ht_table d' 1) = []) \<or>
     \<not> dictIsRehashing d \<and> \<not> dictIsRehashing d' \<and> all_entries d' = [] \<and> set (all_entries d) \<subseteq> {e}"

lemma idle_table1: "dict_inv t d \<Longrightarrow> \<not> dictIsRehashing d \<Longrightarrow> ht_table d 1 = []"
  by (auto simp: dict_inv_def dictIsRehashing_def table_ok_def DICTHT_SIZE_def split: if_splits)

lemma unused_empty:
  assumes "dict_inv t d" "\<not> dictIsRehashing d" "ht_used d 0 = 0"
  shows "all_entries d = []"
proof -
  have "length (concat (ht_table d 0)) = 0" using assms(1,3) by (simp add: dict_inv_def table_ok_def)
  then show ?thesis using idle_table1 [OF assms(1,2)] by (simp only: length_0_conv all_entries_def) simp
qed

lemma resize_shape:
  assumes inv: "dict_inv t d" and nf: "\<not> force_full_rehash t" and run: "u_dictResize t cr ok d sz = Some (d', r)"
  shows "d' = d \<or> \<not> dictIsRehashing d \<and> (dictIsRehashing d' \<and> ht_table d' 0 = ht_table d 0 \<and> concat (ht_table d' 1) = [] \<or>
     \<not> dictIsRehashing d' \<and> all_entries d = [] \<and> all_entries d' = [])"
proof -
  have idle: "\<not> dictIsRehashing d" using run by (auto simp: u_dictResize_def)
  have c: "concat (replicate n []) = []" for n :: nat by (induction n) simp_all
  note defs = resize_started_def start_rehash_def resize_replaced_def Let_def emit_def u_dictReset_def dictIsRehashing_def
  from run show ?thesis
  proof (cases rule: resize_cases)
    case 2
    have "all_entries d = []"
      using 2(1) unused_empty [OF inv idle] idle_table1 [OF inv idle] by (auto simp: all_entries_def)
    moreover have "all_entries d' = []" "\<not> dictIsRehashing d'" using c by (simp_all add: 2(2) defs all_entries_def)
    ultimately show ?thesis using idle by simp
  next
    case 4
    then have "dictIsRehashing d'" "ht_table d' 0 = ht_table d 0" "concat (ht_table d' 1) = []" using c by (simp_all add: defs)
    then show ?thesis using idle by simp
  qed (use nf in auto)
qed

lemma shrink_shape:
  assumes inv: "dict_inv t d" and nf: "\<not> force_full_rehash t" and run: "u_dictShrinkIfNeeded t cr d = Some d'"
  shows "d' = d \<or> \<not> dictIsRehashing d \<and> (dictIsRehashing d' \<and> ht_table d' 0 = ht_table d 0 \<and> concat (ht_table d' 1) = [] \<or>
     \<not> dictIsRehashing d' \<and> all_entries d = [] \<and> all_entries d' = [])"
proof -
  have "d' = d \<or> (\<exists>r. u_dictResize t cr True d (ht_used d 0) = Some (d', r))"
    using run by (auto simp: u_dictShrinkIfNeeded_def dictShrinkIfNeeded_def dictShrink_def bind_eq_Some_conv split: if_splits)
  then show ?thesis using resize_shape [OF inv nf] by blast
qed

lemma put_chain_removed:
  assumes inv: "dict_inv t d" and l: "link_ok d (i, j, p)"
    and pc: "put_chain d i j (take p (ht_table d i ! j) @ drop (Suc p) (ht_table d i ! j)) d'" and i': "i' \<le> 1"
  shows "ht_table d' i' = map (filter (\<lambda>x. x \<noteq> link_entry d (i, j, p))) (ht_table d i')"
proof -
  let ?e = "link_entry d (i, j, p)"
  have lt: "i \<le> 1" "j < length (ht_table d i)" "p < length (ht_table d i ! j)" using l by (auto simp: link_ok_def)
  have dist: "distinct (concat (ht_table d 0) @ concat (ht_table d 1))"
    using dict_inv_distinct [OF inv] by (simp only: all_entries_def distinct_map)
  have e: "?e \<in> set (concat (ht_table d i))" using lt by (auto simp: link_entry_def intro!: bexI [of _ "ht_table d i ! j"])
  show ?thesis
  proof (cases "i' = i")
    case True
    have "distinct (concat (ht_table d i))" using dist table_index [OF lt(1)] by auto
    then show ?thesis using remove_one [OF _ lt(2,3)] pc True by (simp add: put_chain_def link_entry_def)
  next
    case False
    then have "?e \<notin> set (concat (ht_table d i'))" using dist e table_index [OF lt(1)] table_index [OF i'] by (auto simp del: set_concat)
    then show ?thesis using map_filter_absent [of ?e "ht_table d i'"] pc False by (simp add: put_chain_def del: set_concat)
  qed
qed

text \<open>A deletion under a paused rehashing unlinks the entry, frees it, and then lets the table shrink.\<close>

lemma paused_unlink:
  assumes ty: "type_ok t" and inv: "dict_inv t d" and pause: "pauserehash d \<noteq> 0"
    and e: "e \<in> set (all_entries d)" and run: "dictGenericDelete t cr d (ekey t e) False = Some (d', Some e)"
  shows "\<exists>d4. u_dictShrinkIfNeeded t cr d4 = Some d' \<and> dict_inv t d4 \<and> dictIsRehashing d4 = dictIsRehashing d \<and>
    (\<forall>i \<le> 1. ht_table d4 i = map (filter (\<lambda>x. x \<noteq> e)) (ht_table d i))"
proof -
  let ?k = "ekey t e"
  have m: "dict_map t d ?k = Some e" using dict_map_iff [OF inv] e by auto
  have size: "dictSize d \<noteq> 0"
  proof
    assume "dictSize d = 0"
    then show False using dictSize_0_map [OF inv] m by simp
  qed
  have step: "u_dictRehashStepIfNeeded t cr d idx = Some d" for idx using pause by (simp add: u_dictRehashStepIfNeeded_def)
  obtain r j0 where s: "search_tables t d (dictGetHash t ?k) (dictGetHash t ?k AND DICTHT_SIZE_MASK (ht_size_exp d 0)) ?k = Some (r, j0)"
    "search_result t d ?k r j0"
    using search_tables_ok [OF ty inv nonempty_exp [OF inv size] refl] by blast
  obtain l where l: "r = Some l" "link_ok d l" "link_entry d l = e"
  proof (cases r)
    case None
    then have "dict_map t d ?k = None" using s(2) unfolding search_result_def by (simp only: option.case)
    then show thesis using m by (metis option.distinct(1))
  next
    case (Some l)
    then have "link_ok d l" "dict_map t d ?k = Some (link_entry d l)" using s(2) unfolding search_result_def by (simp_all only: option.case)
    then show thesis using that Some m by (metis option.inject)
  qed
  obtain i j p where "l = (i, j, p)" by (cases l)
  then have r: "r = Some (i, j, p)" "link_ok d (i, j, p)" "link_entry d (i, j, p) = e" using l by simp_all
  obtain d2 where u: "unlink_at d (i, j, p) = Some d2" "d2 = d\<lparr>ht_table := ht_table d2\<rparr>" using unlink_at_put [OF inv r(2)] by blast
  define lg where "lg = d_log (dictFreeUnlinkedEntry d2 (Some e))"
  let ?d3 = "dictFreeUnlinkedEntry d2 (Some e)"
  let ?d4 = "?d3\<lparr>ht_used := (ht_used ?d3)(i := ht_used ?d3 i - 1)\<rparr>"
  have "?d3 = d2\<lparr>d_log := lg\<rparr>" using freed_log [of d2 "Some e"] by (simp add: lg_def)
  moreover have "ht_used d2 = ht_used d" using arg_cong [OF u(2), of ht_used] by simp
  ultimately have "?d4 = d2\<lparr>d_log := lg, ht_used := (ht_used d)(i := ht_used d i - 1)\<rparr>" by simp
  then have pc: "put_chain d i j (take p (ht_table d i ! j) @ drop (Suc p) (ht_table d i ! j)) ?d4"
    using unlink_at_put [OF inv r(2), of lg] u(1) by auto
  have inv4: "dict_inv t ?d4" using unlink_ok [OF inv r(2) pc] by blast
  have "same_frame d ?d4" using pc unfolding put_chain_def by blast
  then have reh: "dictIsRehashing ?d4 = dictIsRehashing d" unfolding same_frame_def dictIsRehashing_def by metis
  obtain d5 where d5: "u_dictShrinkIfNeeded t cr ?d4 = Some d5" using u_dictShrinkIfNeeded_ok [OF inv4] by blast
  then have "dictGenericDelete t cr d ?k False = Some (d5, Some e)"
    using size step s(1) r(1) entry_at_ok [OF r(2)] r(3) u(1) by (simp add: dictGenericDelete_def Let_def)
  then have "u_dictShrinkIfNeeded t cr ?d4 = Some d'" using d5 run by simp
  then show ?thesis using inv4 reh put_chain_removed [OF inv r(2) pc, unfolded r(3)] by blast
qed

lemma paused_delete:
  assumes ty: "type_ok t" and inv: "dict_inv t d" and pause: "pauserehash d \<noteq> 0" and nf: "\<not> force_full_rehash t"
    and e: "e \<in> set (all_entries d)"
  shows "\<exists>d'. dictDelete t cr d (ekey t e) = Some (d', True) \<and> calm t d d' \<and>
    dict_map t d' = (dict_map t d)(ekey t e := None) \<and> removed e d d'"
proof -
  have m: "dict_map t d (ekey t e) = Some e" using dict_map_iff [OF inv] e by auto
  obtain d' where d': "dictGenericDelete t cr d (ekey t e) False = Some (d', Some e)" "calm t d d'" "dict_map t d' = (dict_map t d)(ekey t e := None)"
    using dictGenericDelete_ok [OF ty inv, of cr "ekey t e" False] unfolding m by blast
  obtain d4 where d4: "u_dictShrinkIfNeeded t cr d4 = Some d'" "dict_inv t d4" "dictIsRehashing d4 = dictIsRehashing d"
    "\<forall>i \<le> 1. ht_table d4 i = map (filter (\<lambda>x. x \<noteq> e)) (ht_table d i)"
    using paused_unlink [OF ty inv pause e d'(1)] by blast
  have t0: "ht_table d4 0 = map (filter (\<lambda>x. x \<noteq> e)) (ht_table d 0)" and t1: "ht_table d4 1 = map (filter (\<lambda>x. x \<noteq> e)) (ht_table d 1)"
    using d4(4) by simp_all
  have ents: "all_entries d4 = filter (\<lambda>x. x \<noteq> e) (all_entries d)" using t0 t1 by (simp add: all_entries_def filter_concat)
  have "removed e d d'"
    using shrink_shape [OF d4(2) nf d4(1)]
  proof (elim disjE conjE)
    assume "d' = d4"
    then show ?thesis using t0 t1 d4(3) idle_table1 [OF d4(2)] unfolding removed_def by (cases "dictIsRehashing d") simp_all
  next
    assume "\<not> dictIsRehashing d4" "dictIsRehashing d'" "ht_table d' 0 = ht_table d4 0" "concat (ht_table d' 1) = []"
    then show ?thesis using t0 d4(3) unfolding removed_def by simp
  next
    assume a: "\<not> dictIsRehashing d4" "\<not> dictIsRehashing d'" "all_entries d4 = []" "all_entries d' = []"
    have "\<forall>x \<in> set (all_entries d). x = e" using a(3) unfolding ents filter_empty_conv by simp
    then show ?thesis using a d4(3) unfolding removed_def by blast
  qed
  moreover have "dictDelete t cr d (ekey t e) = Some (d', True)" using d'(1) by (simp add: dictDelete_def)
  ultimately show ?thesis using d'(2,3) by blast
qed

section \<open>Deleting while iterating\<close>

lemma pending_in:
  assumes "iter_ok iter d"
  shows "set (pending iter d) \<subseteq> set (all_entries d)" "set (upcoming iter d) \<subseteq> set (all_entries d)"
proof -
  have i: "di_table iter = 0 \<or> di_table iter = 1" using assms by (auto simp: iter_ok_def)
  have tbl: "set (concat (ht_table d (di_table iter))) \<subseteq> set (all_entries d)" "set (concat (ht_table d 1)) \<subseteq> set (all_entries d)"
    using i by (auto simp: all_entries_def)
  have drop: "set (concat (drop n tbl)) \<subseteq> set (concat tbl)" for n and tbl :: "('a \<times> 'b) list list" by (auto dest: in_set_dropD)
  show "set (upcoming iter d) \<subseteq> set (all_entries d)"
    using tbl subset_trans [OF drop tbl(1)] unfolding upcoming_def by (auto simp del: set_concat)
  show "set (pending iter d) \<subseteq> set (all_entries d)"
  proof (cases "di_entry iter = None \<or> di_nextEntry iter = None")
    case False
    then obtain x s where s: "di_entry iter = Some x" "di_nextEntry iter = Some s" by auto
    let ?b = "ht_table d (di_table iter) ! nat (di_index iter)"
    have "nat (di_index iter) < length (ht_table d (di_table iter))" using assms s by (auto simp: iter_ok_def)
    then have "?b \<in> set (ht_table d (di_table iter))" by (rule nth_mem)
    then have "set ?b \<subseteq> set (concat (ht_table d (di_table iter)))" by auto
    moreover have "set (dropWhile (\<lambda>e. fst e \<noteq> s) ?b) \<subseteq> set ?b" by (auto dest: set_dropWhileD)
    ultimately show ?thesis using tbl(1) s unfolding pending_def by (simp del: set_concat)
  qed (auto simp: pending_def split: option.splits)
qed

lemma dropWhile_removed:
  assumes "s \<in> fst ` set b" "e \<notin> set (dropWhile (\<lambda>x. fst x \<noteq> s) b)"
  shows "dropWhile (\<lambda>x. fst x \<noteq> s) (filter (\<lambda>x. x \<noteq> e) b) = dropWhile (\<lambda>x. fst x \<noteq> s) b" "s \<in> fst ` set (filter (\<lambda>x. x \<noteq> e) b)"
proof -
  obtain pre a rest where b: "b = pre @ a # rest" "fst a = s" "dropWhile (\<lambda>x. fst x \<noteq> s) b = a # rest" using split_at_stored [OF assms(1)] by blast
  have pre: "\<forall>x \<in> set pre. fst x \<noteq> s"
  proof (rule ballI, rule ccontr)
    fix x
    assume "x \<in> set pre" "\<not> fst x \<noteq> s"
    then have "dropWhile (\<lambda>x. fst x \<noteq> s) b = dropWhile (\<lambda>x. fst x \<noteq> s) pre @ a # rest" using b(1) dropWhile_append1 [of x pre] by simp
    then have "dropWhile (\<lambda>x. fst x \<noteq> s) pre = []" using b(3) by simp
    then show False using \<open>x \<in> set pre\<close> \<open>\<not> fst x \<noteq> s\<close> by (simp add: dropWhile_eq_Nil_conv)
  qed
  have ne: "filter (\<lambda>x. x \<noteq> e) (a # rest) = a # rest" using assms(2) b(3) filter_absent [of e "a # rest"] by simp
  then have f: "filter (\<lambda>x. x \<noteq> e) b = filter (\<lambda>x. x \<noteq> e) pre @ a # rest" using b(1) by simp
  show "dropWhile (\<lambda>x. fst x \<noteq> s) (filter (\<lambda>x. x \<noteq> e) b) = dropWhile (\<lambda>x. fst x \<noteq> s) b"
    unfolding f b(3) using pre b(2) by (subst dropWhile_append2) auto
  show "s \<in> fst ` set (filter (\<lambda>x. x \<noteq> e) b)" unfolding f using b(2) by auto
qed

text \<open>Deleting an entry the iterator has passed keeps what it has still to return.\<close>

lemma removed_keeps:
  assumes r: "removed e d d'" and ok: "iter_ok iter d" and e: "e \<notin> set (pending iter d @ upcoming iter d)"
  shows "iter_ok iter d' \<and> pending iter d' = pending iter d \<and> upcoming iter d' = upcoming iter d"
  using r unfolding removed_def
proof (elim disjE conjE)
  let ?f = "filter (\<lambda>x. x \<noteq> e)" and ?i = "di_table iter" and ?j = "nat (di_index iter)"
  assume t0: "ht_table d' 0 = map ?f (ht_table d 0)"
    and t1: "if dictIsRehashing d then dictIsRehashing d' \<and> ht_table d' 1 = map ?f (ht_table d 1) else dictIsRehashing d' \<longrightarrow> concat (ht_table d' 1) = []"
  have i: "?i = 0 \<or> ?i = 1 \<and> dictIsRehashing d" using ok by (auto simp: iter_ok_def)
  then have ti: "ht_table d' ?i = map ?f (ht_table d ?i)" using t0 t1 by auto
  have cut: "e \<notin> set (concat tbl) \<Longrightarrow> concat (map ?f tbl) = concat tbl" for tbl using map_filter_absent [of e tbl] by simp
  have "concat (drop (nat (di_index iter + 1)) (ht_table d' ?i)) = concat (drop (nat (di_index iter + 1)) (ht_table d ?i))"
    unfolding ti drop_map using e by (intro cut) (simp add: upcoming_def)
  moreover have "(if ?i = 0 \<and> dictIsRehashing d' then concat (ht_table d' 1) else []) = (if ?i = 0 \<and> dictIsRehashing d then concat (ht_table d 1) else [])"
    using t1 e cut [of "ht_table d 1"] by (cases "dictIsRehashing d") (auto simp: upcoming_def simp del: set_concat)
  ultimately have up: "upcoming iter d' = upcoming iter d" by (simp add: upcoming_def)
  have next_ok: "s \<in> fst ` set (ht_table d' ?i ! ?j) \<and> ?j < length (ht_table d' ?i) \<and> pending iter d' = pending iter d"
    if s: "di_entry iter = Some x" "di_nextEntry iter = Some s" for x s
  proof -
    have j: "?j < length (ht_table d ?i)" "s \<in> fst ` set (ht_table d ?i ! ?j)" using ok s by (auto simp: iter_ok_def)
    have "e \<notin> set (dropWhile (\<lambda>x. fst x \<noteq> s) (ht_table d ?i ! ?j))" using e s by (simp add: pending_def)
    then show ?thesis using dropWhile_removed [OF j(2)] j(1) s by (simp add: pending_def ti)
  qed
  have "pending iter d' = pending iter d"
  proof (cases "di_entry iter = None \<or> di_nextEntry iter = None")
    case True
    then show ?thesis by (auto simp: pending_def split: option.splits)
  next
    case False
    then obtain x s where "di_entry iter = Some x" "di_nextEntry iter = Some s" by auto
    then show ?thesis using next_ok by blast
  qed
  moreover have "di_table iter = 1 \<longrightarrow> dictIsRehashing d'" using t1 i by (metis zero_neq_one)
  then have "iter_ok iter d'" using ok next_ok unfolding iter_ok_def by (metis not_None_eq)
  ultimately show ?thesis using up by blast
next
  assume idle: "\<not> dictIsRehashing d" "\<not> dictIsRehashing d'" and none: "all_entries d' = []" and only: "set (all_entries d) \<subseteq> {e}"
  have "set xs \<subseteq> set (all_entries d) \<Longrightarrow> e \<notin> set xs \<Longrightarrow> xs = []" for xs using only by (cases xs) auto
  then have nil: "pending iter d = []" "upcoming iter d = []" using pending_in [OF ok] e by simp_all
  have next_none: "di_entry iter = None \<or> di_nextEntry iter = None"
  proof (rule ccontr)
    assume "\<not> ?thesis"
    then obtain x s where s: "di_entry iter = Some x" "di_nextEntry iter = Some s" by auto
    then have "s \<in> fst ` set (ht_table d (di_table iter) ! nat (di_index iter))" using ok by (auto simp: iter_ok_def)
    from split_at_stored [OF this]
    obtain a rest where "dropWhile (\<lambda>e. fst e \<noteq> s) (ht_table d (di_table iter) ! nat (di_index iter)) = a # rest" by (elim exE conjE)
    then show False using nil(1) s by (simp add: pending_def)
  qed
  have i: "di_table iter = 0" using ok idle by (auto simp: iter_ok_def)
  have "concat (ht_table d' 0) = []" using none unfolding all_entries_def by (simp only: append_is_Nil_conv)
  then have "concat (drop n (ht_table d' 0)) = []" for n by (metis concat_append append_is_Nil_conv append_take_drop_id)
  then have "upcoming iter d' = []" using i idle unfolding upcoming_def by simp
  moreover have "pending iter d' = []" using next_none by (auto simp: pending_def split: option.splits)
  moreover have "iter_ok iter d'" using ok next_none i by (auto simp: iter_ok_def)
  ultimately show ?thesis using nil by simp
qed

text \<open>The idiom \<^verbatim>\<open>while ((de = dictNext(iter))) if (P(de)) dictDelete(d, key)\<close> with the entries it sees.\<close>

partial_function (option) sweep ::
  "('s, 'k, 'v) dictType \<Rightarrow> dictResizeEnable \<Rightarrow> (nat \<Rightarrow> u64) \<Rightarrow> ('s \<times> 'v \<Rightarrow> bool) \<Rightarrow> 's dictIterator \<Rightarrow> ('s, 'v) dict \<Rightarrow>
    (('s \<times> 'v) list \<times> 's dictIterator \<times> ('s, 'v) dict) option" where
  "sweep t cr addr P iter d =
     do { (de, iter, d) \<leftarrow> dictNext addr iter d;
          (case de of None \<Rightarrow> Some ([], iter, d)
           | Some e \<Rightarrow>
               do { d \<leftarrow> (if P e then do { (d, _) \<leftarrow> dictDelete t cr d (ekey t e); Some d } else Some d);
                    (es, iter, d) \<leftarrow> sweep t cr addr P iter d;
                    Some (e # es, iter, d) }) }"

definition without :: "('s \<times> 'v \<Rightarrow> bool) \<Rightarrow> ('k \<Rightarrow> ('s \<times> 'v) option) \<Rightarrow> 'k \<Rightarrow> ('s \<times> 'v) option" where
  "without P m k = (case m k of None \<Rightarrow> None | Some e \<Rightarrow> if P e then None else Some e)"

lemma without_none: "(\<And>k e. m k = Some e \<Longrightarrow> \<not> P e) \<Longrightarrow> without P m = m"
  by (rule ext) (auto simp: without_def split: option.splits)

lemma map_ekey: "dict_inv t d \<Longrightarrow> dict_map t d k = Some e \<Longrightarrow> ekey t e = k"
  by (simp add: dict_map_iff)

lemma without_insert:
  assumes "dict_inv t d" "e \<in> set (all_entries d)" "P e"
  shows "without (\<lambda>x. x \<in> set es \<and> P x) ((dict_map t d)(ekey t e := None)) = without (\<lambda>x. x \<in> set (e # es) \<and> P x) (dict_map t d)"
proof (rule ext)
  fix k
  have e: "dict_map t d (ekey t e) = Some e" using dict_map_iff [OF assms(1)] assms(2) by blast
  show "without (\<lambda>x. x \<in> set es \<and> P x) ((dict_map t d)(ekey t e := None)) k = without (\<lambda>x. x \<in> set (e # es) \<and> P x) (dict_map t d) k"
  proof (cases "k = ekey t e")
    case True
    then show ?thesis using e assms(3) by (simp add: without_def)
  next
    case False
    then have "dict_map t d k \<noteq> Some e" using map_ekey [OF assms(1)] by blast
    then show ?thesis using False by (auto simp: without_def split: option.splits)
  qed
qed

lemma without_skip: "\<not> P e \<Longrightarrow> without (\<lambda>x. x \<in> set es \<and> P x) m = without (\<lambda>x. x \<in> set (e # es) \<and> P x) m"
  by (rule ext) (auto simp: without_def split: option.splits)

lemma deleted_entries:
  assumes "dict_inv t d'" "dict_inv t d" "dict_map t d' = (dict_map t d)(ekey t e := None)" "distinct (e # es)" "set (e # es) \<subseteq> set (all_entries d)"
  shows "set es \<subseteq> set (all_entries d')"
proof
  fix x
  assume x: "x \<in> set es"
  then have m: "dict_map t d (ekey t x) = Some x" "dict_map t d (ekey t e) = Some e" using dict_map_iff [OF assms(2)] assms(5) by auto
  have "x \<noteq> e" using x assms(4) by auto
  then have "ekey t x \<noteq> ekey t e" using m by auto
  then have "dict_map t d' (ekey t x) = Some x" using m(1) assms(3) by simp
  then show "x \<in> set (all_entries d')" using dict_map_iff [OF assms(1)] by blast
qed

lemma sweep_gives:
  assumes ty: "type_ok t"
  shows "gives (dictNext addr iter d) R iter0 d1 \<Longrightarrow> dict_inv t d1 \<Longrightarrow> distinct R \<Longrightarrow> set R \<subseteq> set (all_entries d1) \<Longrightarrow>
    (\<forall>e \<in> set R. \<not> P e) \<or> pauserehash d1 \<noteq> 0 \<and> \<not> force_full_rehash t \<Longrightarrow>
    \<exists>iter' d'. sweep t cr addr P iter d = Some (R, iter', d') \<and> started iter' \<and> dict_inv t d' \<and> pauserehash d' = pauserehash d1 \<and>
      dict_map t d' = without (\<lambda>e. e \<in> set R \<and> P e) (dict_map t d1) \<and> ((\<forall>e \<in> set R. \<not> P e) \<longrightarrow> d' = d1) \<and>
      di_safe iter' = di_safe iter0 \<and> di_fingerprint iter' = di_fingerprint iter0"
proof (induction R arbitrary: iter iter0 d d1)
  case Nil
  then show ?case by (subst sweep.simps) (auto simp: gives_def list_head_def without_none)
next
  case (Cons e es)
  obtain iter1 where n: "dictNext addr iter d = Some (Some e, iter1, d1)" "started iter1" "iter_ok iter1 d1"
    "pending iter1 d1 @ upcoming iter1 d1 = es" "di_safe iter1 = di_safe iter0" "di_fingerprint iter1 = di_fingerprint iter0"
    using Cons.prems(1) by (auto simp: gives_def list_head_def)
  have e: "e \<in> set (all_entries d1)" "e \<notin> set es" using Cons.prems(3,4) by simp_all
  obtain d2 where d2: "(if P e then do { (d, _) \<leftarrow> dictDelete t cr d1 (ekey t e); Some d } else Some d1) = Some d2"
    "dict_inv t d2" "pauserehash d2 = pauserehash d1" "iter_ok iter1 d2" "pending iter1 d2 @ upcoming iter1 d2 = es"
    "set es \<subseteq> set (all_entries d2)" "\<not> P e \<longrightarrow> d2 = d1"
    "without (\<lambda>x. x \<in> set es \<and> P x) (dict_map t d2) = without (\<lambda>x. x \<in> set (e # es) \<and> P x) (dict_map t d1)"
  proof (cases "P e")
    case True
    then have p: "pauserehash d1 \<noteq> 0" "\<not> force_full_rehash t" using Cons.prems(5) by auto
    obtain d2 where del: "dictDelete t cr d1 (ekey t e) = Some (d2, True)" "calm t d1 d2"
      "dict_map t d2 = (dict_map t d1)(ekey t e := None)" "removed e d1 d2"
      using paused_delete [OF ty Cons.prems(2) p e(1)] by blast
    have run: "(if P e then do { (d, _) \<leftarrow> dictDelete t cr d1 (ekey t e); Some d } else Some d1) = Some d2" using del(1) True by simp
    have keep: "iter_ok iter1 d2" "pending iter1 d2 @ upcoming iter1 d2 = es"
      using removed_keeps [OF del(4) n(3)] e(2) unfolding n(4) by (simp_all add: n(4))
    have pause: "pauserehash d2 = pauserehash d1" using del(2) unfolding calm_def by (elim conjE)
    have sub: "set es \<subseteq> set (all_entries d2)" by (rule deleted_entries [OF calm_inv [OF del(2)] Cons.prems(2) del(3) Cons.prems(3,4)])
    have wo: "without (\<lambda>x. x \<in> set es \<and> P x) (dict_map t d2) = without (\<lambda>x. x \<in> set (e # es) \<and> P x) (dict_map t d1)"
      unfolding del(3) by (rule without_insert [where P = P, OF Cons.prems(2) e(1) True])
    show thesis by (rule that [OF run calm_inv [OF del(2)] pause keep sub _ wo]) (use True in simp)
  next
    case False
    then show thesis using that [of d1] Cons.prems n without_skip [of P e es "dict_map t d1"] by simp
  qed
  have g: "gives (dictNext addr iter1 d2) es iter1 d2" using dictNext_ok [OF d2(2,4) n(2), of addr] unfolding d2(5) .
  have c: "(\<forall>e \<in> set es. \<not> P e) \<or> pauserehash d2 \<noteq> 0 \<and> \<not> force_full_rehash t" using Cons.prems(5) unfolding d2(3) by auto
  have "distinct es" using Cons.prems(3) by simp
  then obtain iter' d' where r: "sweep t cr addr P iter1 d2 = Some (es, iter', d')" "started iter'" "dict_inv t d'" "pauserehash d' = pauserehash d2"
    "dict_map t d' = without (\<lambda>e. e \<in> set es \<and> P e) (dict_map t d2)" "(\<forall>e \<in> set es. \<not> P e) \<longrightarrow> d' = d2"
    "di_safe iter' = di_safe iter1" "di_fingerprint iter' = di_fingerprint iter1"
    using Cons.IH [OF g d2(2) _ d2(6) c] by blast
  have "sweep t cr addr P iter d = Some (e # es, iter', d')" using n(1) d2(1) r(1) by (subst sweep.simps) simp
  moreover have "dict_map t d' = without (\<lambda>x. x \<in> set (e # es) \<and> P x) (dict_map t d1)" using r(5) d2(8) by (rule trans)
  moreover have "(\<forall>x \<in> set (e # es). \<not> P x) \<longrightarrow> d' = d1" using r(6) d2(7) by auto
  ultimately show ?case using r(2,3,4,7,8) unfolding d2(3) n(5,6) by blast
qed

lemma safe_sweep:
  assumes "type_ok t" "dict_inv t d" "\<not> force_full_rehash t" "pauserehash d < 2 ^ 32 - 1"
  shows "\<exists>iter d1 d'. sweep t cr addr P (dictInitSafeIterator junk) d = Some (all_entries d, iter, d1) \<and>
      dictResetIterator addr iter d1 = Some d' \<and> dict_inv t d' \<and> dict_map t d' = without P (dict_map t d) \<and> pauserehash d' = pauserehash d"
proof -
  let ?p = "dictPauseRehashing d"
  have dist: "distinct (all_entries d)" using dict_inv_distinct [OF assms(2)] by (simp only: distinct_map)
  have inv: "dict_inv t ?p" "dict_map t ?p = dict_map t d" using assms(2) by simp_all
  have p: "all_entries ?p = all_entries d" "pauserehash ?p = Suc (pauserehash d)" using assms(4) by (simp_all add: dictPauseRehashing_def all_entries_def)
  have g: "gives (dictNext addr (dictInitSafeIterator junk) d) (all_entries d) ((dictInitSafeIterator junk)\<lparr>di_fingerprint := junk\<rparr>) ?p"
    using dictNext_first [OF assms(2), of _ True junk addr] by simp
  obtain iter d1 where s: "sweep t cr addr P (dictInitSafeIterator junk) d = Some (all_entries d, iter, d1)" "started iter" "dict_inv t d1"
    "pauserehash d1 = pauserehash ?p" "dict_map t d1 = without (\<lambda>e. e \<in> set (all_entries d) \<and> P e) (dict_map t ?p)" "di_safe iter"
    using sweep_gives [OF assms(1) g inv(1) dist, of P cr] p assms(3) by (auto simp: dictInitSafeIterator_def)
  have "without (\<lambda>e. e \<in> set (all_entries d) \<and> P e) (dict_map t d) k = without P (dict_map t d) k" for k
  proof (cases "dict_map t d k")
    case (Some e)
    then have "e \<in> set (all_entries d)" using dict_map_iff [OF assms(2)] by blast
    then show ?thesis using Some by (simp add: without_def)
  qed (simp add: without_def)
  then have "dict_map t d1 = without P (dict_map t d)" unfolding s(5) inv(2) by (rule ext)
  moreover have "pauserehash (dictResumeRehashing d1) = pauserehash d" using s(4) p(2) by (simp add: dictResumeRehashing_def)
  moreover have "dictResetIterator addr iter d1 = Some (dictResumeRehashing d1)" using s(2,6) by (simp add: dictResetIterator_def started_def)
  ultimately show ?thesis using s(1,3) by (intro exI [of _ iter] exI [of _ d1] exI [of _ "dictResumeRehashing d1"]) simp
qed

lemma unsafe_sweep:
  assumes "type_ok t" "dict_inv t d"
  shows "\<exists>iter. sweep t cr addr (\<lambda>_. False) (dictInitIterator junk) d = Some (all_entries d, iter, d) \<and> dictResetIterator addr iter d = Some d"
proof -
  have dist: "distinct (all_entries d)" using dict_inv_distinct [OF assms(2)] by (simp only: distinct_map)
  have g: "gives (dictNext addr (dictInitIterator junk) d) (all_entries d) ((dictInitIterator junk)\<lparr>di_fingerprint := dictFingerprint addr d\<rparr>) d"
    using dictNext_first [OF assms(2), of _ False junk addr] by simp
  obtain iter where "sweep t cr addr (\<lambda>_. False) (dictInitIterator junk) d = Some (all_entries d, iter, d)" "started iter"
    "\<not> di_safe iter" "di_fingerprint iter = dictFingerprint addr d"
    using sweep_gives [OF assms(1) g assms(2) dist, of "\<lambda>_. False" cr] by (auto simp: dictInitIterator_def)
  then show ?thesis by (auto simp: dictResetIterator_def started_def)
qed

section \<open>Properties\<close>

text \<open>C17. Iterating over a dictionary, in whatever state of rehashing it is, returns every entry exactly once, provided its
  type does not ask for complete rehashing and the pause counter does not wrap. With a safe iterator the
  entries it returns may be deleted on the way: the loop still sees every entry of the beginning exactly once, afterwards
  exactly the others are left, and resetting the iterator restores the pause counter. An unsafe iterator leaves the
  dictionary alone and its fingerprint check passes.\<close>

theorem iteration_visits_each_once:
  assumes "type_ok t" "dict_inv t d" "\<not> force_full_rehash t" "pauserehash d < 2 ^ 32 - 1"
  shows "(\<exists>iter d1 d'. sweep t cr addr P (dictInitSafeIterator junk) d = Some (all_entries d, iter, d1) \<and>
      dictResetIterator addr iter d1 = Some d' \<and> dict_inv t d' \<and> dict_map t d' = without P (dict_map t d) \<and> pauserehash d' = pauserehash d) \<and>
    (\<exists>iter. sweep t cr addr (\<lambda>_. False) (dictInitIterator junk) d = Some (all_entries d, iter, d) \<and> dictResetIterator addr iter d = Some d)"
  using safe_sweep [OF assms] unsafe_sweep [OF assms(1,2)] by blast

theorem iteration_visits_each_once_witness:
  "\<exists>iter d1 d'. sweep numType DICT_RESIZE_ENABLE (\<lambda>_. 0) (\<lambda>e. fst e = 3) (dictInitSafeIterator 0) growing = Some (all_entries growing, iter, d1) \<and>
      dictResetIterator (\<lambda>_. 0) iter d1 = Some d' \<and> 3 \<notin> dom (dict_map numType d')"
proof -
  have f: "\<not> force_full_rehash numType" by (simp add: numType_def)
  have "3 \<notin> dom (without (\<lambda>e. fst e = 3) (dict_map numType growing))"
    using map_ekey [OF growing_inv, of 3] by (auto simp: without_def ekey_def numType_def split: option.splits if_splits)
  moreover have "pauserehash growing < 2 ^ 32 - 1" by (simp add: growing_def)
  ultimately show ?thesis using iteration_visits_each_once [OF numType_ok growing_inv f, of DICT_RESIZE_ENABLE "\<lambda>_. 0" "\<lambda>e. fst e = 3" 0] by metis
qed

text \<open>The command table's type rehashes at once; two keys in a table of eight buckets.\<close>

definition forceType :: "(nat, nat, nat) dictType" where
  "forceType = numType\<lparr>force_full_rehash := True\<rparr>"

definition two_keys :: "(nat, nat) dict" where
  "two_keys = \<lparr>ht_table = (\<lambda>i. if i = 0 then [[], [], [], [], [], [(5, 50)], [(6, 60)], []] else []),
     ht_used = (\<lambda>i. if i = 0 then 2 else 0), rehashidx = -1, pauserehash = 0,
     ht_size_exp = (\<lambda>i. if i = 0 then 3 else -1), pauseAutoResize = 0, d_log = []\<rparr>"

lemma two_keys_inv: "dict_inv forceType two_keys"
  by (simp add: two_keys_def forceType_def numType_def dict_inv_def table_ok_def placed_def All_less_Suc DICTHT_SIZE_def DICTHT_SIZE_MASK_def
      dictGetHash_def ekey_def all_entries_def)

lemma next_two_keys:
  "dictNext addr (dictInitSafeIterator junk) two_keys =
     Some (Some (5, 50), \<lparr>di_index = 5, di_table = 0, di_safe = True, di_entry = Some 5, di_nextEntry = None, di_fingerprint = junk\<rparr>,
       two_keys\<lparr>pauserehash := 1\<rparr>)"
  by (simp add: dictNext.simps dictInitSafeIterator_def dictInitIterator_def begin_iter_def next_bucket_def two_keys_def dictPauseRehashing_def
      dictIsRehashing_def DICTHT_SIZE_def bucket_at_def head_of_def follow_def)

lemma rehash_last_entry:
  assumes "ht_table d 0 = [[], [], [], [], [], [], [(6, 60)], []]" "ht_used d 0 = 1" "ht_size_exp d 0 = 3" "rehashidx d = 0"
    "ht_table d 1 = [[], [], [], []]" "ht_used d 1 = 0" "ht_size_exp d 1 = 2"
  obtains d' where "full_rehash forceType DICT_RESIZE_ENABLE d = Some d'" "ht_table d' 0 = [[], [], [(6, 60)], []]" "ht_table d' 1 = []"
    "ht_size_exp d' 0 = 2" "rehashidx d' = -1" "pauserehash d' = pauserehash d"
proof -
  let ?d = "d\<lparr>rehashidx := 6\<rparr>"
  have r: "\<not> rehash_blocked DICT_RESIZE_ENABLE d" using assms(4) by (simp add: rehash_blocked_def dictIsRehashing_def Let_def)
  have sk: "skip_empty (ht_table d 0) (nat (rehashidx d)) 10000 = Some (6, 9994, False)"
    unfolding assms by (simp add: skip_empty.simps)
  obtain d1 where d1: "rehashEntriesInBucketAtIndex forceType ?d 6 = Some d1" "ht_used d1 0 = 0" "ht_table d1 1 = [[], [], [(6, 60)], []]"
    "ht_size_exp d1 1 = 2" "pauserehash d1 = pauserehash d"
    using assms by (simp add: rehashEntriesInBucketAtIndex_def bucket_at_def set_bucket_def DICTHT_SIZE_MASK_def DICTHT_SIZE_def numeral_2_eq_2)
  have "dictRehash_loop forceType (Suc 998) e (d1\<lparr>rehashidx := i\<rparr>) = Some (d1\<lparr>rehashidx := i\<rparr>, False)" for e i
    unfolding dictRehash_loop.simps(2) using d1(2) by simp
  then have s: "dictRehash_loop forceType 999 e (d1\<lparr>rehashidx := i\<rparr>) = Some (d1\<lparr>rehashidx := i\<rparr>, False)" for e i by simp
  have "dictRehash_loop forceType (Suc (Suc 998)) 10000 d = Some (d1\<lparr>rehashidx := rehashidx d1 + 1\<rparr>, False)"
    unfolding dictRehash_loop.simps(2) [of _ "Suc 998"] sk using assms(2,3,4) d1(1) s by (simp add: DICTHT_SIZE_def)
  then have "dictRehash_loop forceType 1000 (1000 * 10) d = Some (d1\<lparr>rehashidx := rehashidx d1 + 1\<rparr>, False)" by simp
  then have "full_rehash forceType DICT_RESIZE_ENABLE d = Some (fst (dictCheckRehashingCompleted (d1\<lparr>rehashidx := rehashidx d1 + 1\<rparr>)))"
    using r d1(2) by (subst full_rehash.simps) (simp add: dictRehash_def dictCheckRehashingCompleted_def Let_def)
  then show thesis by (rule that) (use d1 in \<open>simp_all add: dictCheckRehashingCompleted_def u_dictReset_def emit_def Let_def\<close>)
qed

lemma shrink_last_entry:
  assumes "ht_table d 0 = [[], [], [], [], [], [], [(6, 60)], []]" "ht_used d 0 = 1" "ht_size_exp d 0 = 3" "rehashidx d = -1" "pauseAutoResize d = 0"
  obtains d' where "u_dictShrinkIfNeeded forceType DICT_RESIZE_ENABLE d = Some d'" "all_entries d' = [(6, 60)]"
    "ht_size_exp d' 0 = 2" "rehashidx d' = -1" "pauserehash d' = pauserehash d"
proof -
  have sz: "replicate (DICTHT_SIZE 2) [] = [[], [], [], []]" by (simp add: DICTHT_SIZE_def numeral_eq_Suc)
  obtain d' where d': "full_rehash forceType DICT_RESIZE_ENABLE (resize_started 2 d) = Some d'" "ht_table d' 0 = [[], [], [(6, 60)], []]"
    "ht_table d' 1 = []" "ht_size_exp d' 0 = 2" "rehashidx d' = -1" "pauserehash d' = pauserehash (resize_started 2 d)"
    by (rule rehash_last_entry [of "resize_started 2 d"]) (use assms sz in \<open>simp_all add: resize_started_def emit_def start_rehash_def\<close>)
  have e: "dictNextExpForSize 1 = 2" "dictNextExpForSize (Suc 0) = 2" by (simp_all add: dictNextExpForSize_def DICT_HT_INITIAL_SIZE_def DICT_HT_INITIAL_EXP_def)
  have "u_dictShrinkIfNeeded forceType DICT_RESIZE_ENABLE d = Some d'"
    using assms d'(1) e
    by (simp add: u_dictShrinkIfNeeded_def dictShrinkIfNeeded_def dictTypeResizeAllowed_def dictShrink_def u_dictResize_def Let_def
        dictIsRehashing_def DICTHT_SIZE_def DICT_HT_INITIAL_SIZE_def HASHTABLE_MIN_FILL_def forceType_def numType_def
        resize_started_def emit_def start_rehash_def)
  then show thesis by (rule that) (use d' in \<open>simp_all add: all_entries_def resize_started_def emit_def start_rehash_def\<close>)
qed

lemma delete_two_keys:
  obtains d' where "dictDelete forceType DICT_RESIZE_ENABLE (two_keys\<lparr>pauserehash := 1\<rparr>) 5 = Some (d', True)"
    "all_entries d' = [(6, 60)]" "ht_size_exp d' 0 = 2" "rehashidx d' = -1" "pauserehash d' = 1"
proof -
  let ?d = "two_keys\<lparr>ht_table := (ht_table two_keys)(0 := [[], [], [], [], [], [], [(6, 60)], []]), ht_used := (ht_used two_keys)(0 := 1),
    pauserehash := 1, d_log := [FreeKey 5, FreeVal 50]\<rparr>"
  obtain d' where d': "u_dictShrinkIfNeeded forceType DICT_RESIZE_ENABLE ?d = Some d'" "all_entries d' = [(6, 60)]"
    "ht_size_exp d' 0 = 2" "rehashidx d' = -1" "pauserehash d' = pauserehash ?d"
    by (rule shrink_last_entry [of ?d]) (simp_all add: two_keys_def)
  have u: "[[], [], [], [], [], [(5 :: nat, 50 :: nat)], [(6, 60)], []][5 := []] = [[], [], [], [], [], [], [(6, 60)], []]" by (simp add: numeral_eq_Suc)
  have "dictGenericDelete forceType DICT_RESIZE_ENABLE (two_keys\<lparr>pauserehash := 1\<rparr>) 5 False = Some (d', Some (5, 50))"
    using d'(1) u
    by (simp add: dictGenericDelete_def dictSize_def two_keys_def Let_def dictGetHash_def DICTHT_SIZE_MASK_def DICTHT_SIZE_def
      u_dictRehashStepIfNeeded_def dictIsRehashing_def search_tables_def bucket_at_def key_matches_def forceType_def numType_def
      entry_at_def unlink_at_def set_bucket_def dictFreeUnlinkedEntry_def emit_def One_nat_def del: list_update.simps)
  then have "dictDelete forceType DICT_RESIZE_ENABLE (two_keys\<lparr>pauserehash := 1\<rparr>) 5 = Some (d', True)" by (simp add: dictDelete_def)
  then show thesis by (rule that) (use d' in simp_all)
qed

text \<open>C40. A safe iterator does not protect a dictionary whose type asks for complete rehashing, as the one of the command table
  does. In a table of eight buckets with two keys the deletion of the first key returned shrinks the table and moves the
  other although rehashing is paused: the loop that deletes everything it sees ends there and leaves the second
  key in the dictionary.\<close>

theorem full_rehash_breaks_safe_iteration:
  "dict_inv forceType two_keys \<and> all_entries two_keys = [(5, 50), (6, 60)] \<and>
   (\<exists>iter d'. sweep forceType DICT_RESIZE_ENABLE addr (\<lambda>_. True) (dictInitSafeIterator junk) two_keys = Some ([(5, 50)], iter, d') \<and>
      all_entries d' = [(6, 60)])"
proof -
  let ?it = "\<lparr>di_index = 5, di_table = 0, di_safe = True, di_entry = Some 5, di_nextEntry = None, di_fingerprint = junk\<rparr> :: nat dictIterator"
  obtain d' where d': "dictDelete forceType DICT_RESIZE_ENABLE (two_keys\<lparr>pauserehash := 1\<rparr>) 5 = Some (d', True)"
    "all_entries d' = [(6, 60)]" "ht_size_exp d' 0 = 2" "rehashidx d' = -1" by (rule delete_two_keys)
  have "dictNext addr ?it d' = dictNext addr (?it\<lparr>di_entry := None\<rparr>) d'" by (subst (1) dictNext.simps) simp
  moreover have "dictNext addr (?it\<lparr>di_entry := None\<rparr>) d' = Some (None, ?it\<lparr>di_entry := None, di_index := 6\<rparr>, d')"
    using d'(3,4) by (subst dictNext.simps) (simp add: begin_iter_def next_bucket_def DICTHT_SIZE_def dictIsRehashing_def)
  ultimately have n: "dictNext addr ?it d' = Some (None, ?it\<lparr>di_entry := None, di_index := 6\<rparr>, d')" by simp
  have s: "sweep forceType DICT_RESIZE_ENABLE addr (\<lambda>_. True) ?it d' = Some ([], ?it\<lparr>di_entry := None, di_index := 6\<rparr>, d')"
    by (subst sweep.simps) (simp add: n)
  have k: "ekey forceType (5, 50) = 5" by (simp add: ekey_def forceType_def numType_def)
  have "sweep forceType DICT_RESIZE_ENABLE addr (\<lambda>_. True) (dictInitSafeIterator junk) two_keys =
      Some ([(5, 50)], ?it\<lparr>di_entry := None, di_index := 6\<rparr>, d')"
    by (subst sweep.simps) (simp add: next_two_keys k d'(1) s del: dictIterator.update_convs)
  moreover have "all_entries two_keys = [(5, 50), (6, 60)]" by (simp add: two_keys_def all_entries_def)
  ultimately show ?thesis using two_keys_inv d'(2) by blast
qed

end
