(* ===== verification/Listpack.thy ===== *)
theory Listpack
  imports Util
begin

unbundle bit_operations_syntax

text \<open>
  The listpack of \<^verbatim>\<open>src/listpack.c\<close>: a byte buffer that holds a list of strings and integers, each with its encoding and
  the length of the entry repeated behind it so that the list can be walked in both directions. A buffer is the list of
  the bytes of its allocation, which may be longer than the listpack in it; a pointer into it is an offset, \<open>None\<close> for
  \<^verbatim>\<open>NULL\<close>. Every access is checked: \<open>None\<close> as a result stands for an access outside the allocation or a failed
  \<^verbatim>\<open>assert\<close>. Allocation does not fail, and the size of an allocation is the size asked for.
\<close>

section \<open>Header and encodings\<close>

definition LP_HDR_SIZE :: nat where "LP_HDR_SIZE = 6"
definition LP_HDR_NUMELE_UNKNOWN :: nat where "LP_HDR_NUMELE_UNKNOWN = 65535"
definition LP_EOF :: byte where "LP_EOF = 0xFF"
definition LP_INTBUF_SIZE :: nat where "LP_INTBUF_SIZE = 21"
definition LISTPACK_MAX_SAFETY_SIZE :: nat where "LISTPACK_MAX_SAFETY_SIZE = 2 ^ 30"

definition LP_ENCODING_IS_7BIT_UINT :: "byte \<Rightarrow> bool" where "LP_ENCODING_IS_7BIT_UINT b \<longleftrightarrow> b AND 0x80 = 0"
definition LP_ENCODING_IS_6BIT_STR :: "byte \<Rightarrow> bool" where "LP_ENCODING_IS_6BIT_STR b \<longleftrightarrow> b AND 0xC0 = 0x80"
definition LP_ENCODING_IS_13BIT_INT :: "byte \<Rightarrow> bool" where "LP_ENCODING_IS_13BIT_INT b \<longleftrightarrow> b AND 0xE0 = 0xC0"
definition LP_ENCODING_IS_12BIT_STR :: "byte \<Rightarrow> bool" where "LP_ENCODING_IS_12BIT_STR b \<longleftrightarrow> b AND 0xF0 = 0xE0"
definition LP_ENCODING_IS_16BIT_INT :: "byte \<Rightarrow> bool" where "LP_ENCODING_IS_16BIT_INT b \<longleftrightarrow> b = 0xF1"
definition LP_ENCODING_IS_24BIT_INT :: "byte \<Rightarrow> bool" where "LP_ENCODING_IS_24BIT_INT b \<longleftrightarrow> b = 0xF2"
definition LP_ENCODING_IS_32BIT_INT :: "byte \<Rightarrow> bool" where "LP_ENCODING_IS_32BIT_INT b \<longleftrightarrow> b = 0xF3"
definition LP_ENCODING_IS_64BIT_INT :: "byte \<Rightarrow> bool" where "LP_ENCODING_IS_64BIT_INT b \<longleftrightarrow> b = 0xF4"
definition LP_ENCODING_IS_32BIT_STR :: "byte \<Rightarrow> bool" where "LP_ENCODING_IS_32BIT_STR b \<longleftrightarrow> b = 0xF0"

definition rdb :: "bytes \<Rightarrow> nat \<Rightarrow> byte option" where
  "rdb lp p = (if p < length lp then Some (lp ! p) else None)"

text \<open>An unsigned little-endian number of \<open>n\<close> bytes at \<open>p\<close>.\<close>

definition rd_le :: "bytes \<Rightarrow> nat \<Rightarrow> nat \<Rightarrow> nat option" where
  "rd_le lp p n = do { xs \<leftarrow> mem_rd lp p n; Some (nat (le_uint xs)) }"

definition LP_ENCODING_6BIT_STR_LEN :: "bytes \<Rightarrow> nat \<Rightarrow> nat option" where
  "LP_ENCODING_6BIT_STR_LEN lp p = do { b \<leftarrow> rdb lp p; Some (unat (b AND 0x3F)) }"

definition LP_ENCODING_12BIT_STR_LEN :: "bytes \<Rightarrow> nat \<Rightarrow> nat option" where
  "LP_ENCODING_12BIT_STR_LEN lp p = do { b \<leftarrow> rdb lp p; c \<leftarrow> rdb lp (p + 1); Some (unat (b AND 0xF) * 256 + unat c) }"

definition LP_ENCODING_32BIT_STR_LEN :: "bytes \<Rightarrow> nat \<Rightarrow> nat option" where
  "LP_ENCODING_32BIT_STR_LEN lp p = rd_le lp (p + 1) 4"

definition lpGetTotalBytes :: "bytes \<Rightarrow> nat option" where
  "lpGetTotalBytes lp = rd_le lp 0 4"

definition lpGetNumElements :: "bytes \<Rightarrow> nat option" where
  "lpGetNumElements lp = rd_le lp 4 2"

definition lpSetTotalBytes :: "bytes \<Rightarrow> nat \<Rightarrow> bytes option" where
  "lpSetTotalBytes lp v = mem_wr lp 0 (le_bytes 4 (int v))"

definition lpSetNumElements :: "bytes \<Rightarrow> nat \<Rightarrow> bytes option" where
  "lpSetNumElements lp v = mem_wr lp 4 (le_bytes 2 (int v))"

definition lpBytes :: "bytes \<Rightarrow> nat option" where
  "lpBytes lp = lpGetTotalBytes lp"

definition lpSafeToAdd :: "bytes option \<Rightarrow> nat \<Rightarrow> bool option" where
  "lpSafeToAdd lp add =
     do { len \<leftarrow> (case lp of None \<Rightarrow> Some 0 | Some lp \<Rightarrow> lpGetTotalBytes lp);
          Some (\<not> (add > LISTPACK_MAX_SAFETY_SIZE \<or> len > LISTPACK_MAX_SAFETY_SIZE - add)) }"

text \<open>The loop over the digits; \<open>None\<close> on overflow.\<close>

fun lpStringToInt64_loop :: "nat \<Rightarrow> bytes \<Rightarrow> (nat \<times> bytes) option" where
  "lpStringToInt64_loop v [] = Some (v, [])"
| "lpStringToInt64_loop v (c # p) =
     (if 48 \<le> c \<and> c \<le> 57 then
        (if v > (2 ^ 64 - 1) div 10 then None
         else if v * 10 > 2 ^ 64 - 1 - unat (c - 48) then None
         else lpStringToInt64_loop (v * 10 + unat (c - 48)) p)
      else Some (v, c # p))"

definition lpStringToInt64 :: "bytes \<Rightarrow> int option" where
  "lpStringToInt64 s =
     (if length s = 0 \<or> length s \<ge> LONG_STR_SIZE then None
      else if length s = 1 \<and> hd s = 48 then Some 0
      else (let negative = (hd s = 45); p = (if negative then tl s else s)
            in if negative \<and> p = [] then None
               else if \<not> (49 \<le> hd p \<and> hd p \<le> 57) then None
               else do {
                 (v, rest) \<leftarrow> lpStringToInt64_loop (unat (hd p - 48)) (tl p);
                 (if rest \<noteq> [] then None
                  else if negative then (if v > 2 ^ 63 then None else Some (- int v))
                  else if v > 2 ^ 63 - 1 then None else Some (int v)) }))"

definition lpNew :: "(nat \<Rightarrow> byte) \<Rightarrow> nat \<Rightarrow> bytes option" where
  "lpNew junk capacity =
     (let lp = zrealloc junk [] (if capacity > LP_HDR_SIZE + 1 then capacity else LP_HDR_SIZE + 1)
      in do { lp \<leftarrow> lpSetTotalBytes lp (LP_HDR_SIZE + 1);
              lp \<leftarrow> lpSetNumElements lp 0;
              mem_wr lp LP_HDR_SIZE [LP_EOF] })"

definition lpShrinkToFit :: "(nat \<Rightarrow> byte) \<Rightarrow> bytes \<Rightarrow> bytes option" where
  "lpShrinkToFit junk lp =
     do { sz \<leftarrow> lpGetTotalBytes lp;
          Some (if sz < length lp then zrealloc junk lp sz else lp) }"

section \<open>Encoding\<close>

text \<open>The bytes written to \<^verbatim>\<open>intenc\<close>; \<^verbatim>\<open>*enclen\<close> is their number.\<close>

definition lpEncodeIntegerGetType :: "int \<Rightarrow> bytes" where
  "lpEncodeIntegerGetType v =
     (if v \<ge> 0 \<and> v \<le> 127 then [word_of_int v]
      else if v \<ge> -4096 \<and> v \<le> 4095 then
        (let v = (if v < 0 then 2 ^ 13 + v else v)
         in [word_of_int (v div 256) OR 0xC0, word_of_int (v mod 256)])
      else if v \<ge> -32768 \<and> v \<le> 32767 then
        (let v = (if v < 0 then 2 ^ 16 + v else v) in 0xF1 # le_bytes 2 v)
      else if v \<ge> -8388608 \<and> v \<le> 8388607 then
        (let v = (if v < 0 then 2 ^ 24 + v else v) in 0xF2 # le_bytes 3 v)
      else if v \<ge> -2147483648 \<and> v \<le> 2147483647 then
        (let v = (if v < 0 then 2 ^ 32 + v else v) in 0xF3 # le_bytes 4 v)
      else 0xF4 # le_bytes 8 (v mod 2 ^ 64))"

text \<open>The kind of encoding with the integer's bytes, or with \<^verbatim>\<open>*enclen\<close> for a string.\<close>

datatype lpEncType = LP_ENCODING_INT bytes | LP_ENCODING_STRING nat

definition lpEncodeGetType :: "bytes \<Rightarrow> lpEncType" where
  "lpEncodeGetType ele =
     (case lpStringToInt64 ele of
        Some v \<Rightarrow> LP_ENCODING_INT (lpEncodeIntegerGetType v)
      | None \<Rightarrow>
          (let sz = length ele
           in LP_ENCODING_STRING (if sz < 64 then 1 + sz else if sz < 4096 then 2 + sz else 5 + sz)))"

text \<open>The bytes written to \<^verbatim>\<open>buf\<close>; the return value is their number.\<close>

definition lpEncodeBacklen :: "nat \<Rightarrow> bytes" where
  "lpEncodeBacklen l =
     (if l \<le> 127 then [of_nat l]
      else if l \<le> 16383 then [of_nat (l div 2 ^ 7), of_nat (l mod 128) OR 128]
      else if l \<le> 2097151 then
        [of_nat (l div 2 ^ 14), of_nat (l div 2 ^ 7 mod 128) OR 128, of_nat (l mod 128) OR 128]
      else if l \<le> 268435455 then
        [of_nat (l div 2 ^ 21), of_nat (l div 2 ^ 14 mod 128) OR 128, of_nat (l div 2 ^ 7 mod 128) OR 128,
         of_nat (l mod 128) OR 128]
      else
        [of_nat (l div 2 ^ 28), of_nat (l div 2 ^ 21 mod 128) OR 128, of_nat (l div 2 ^ 14 mod 128) OR 128,
         of_nat (l div 2 ^ 7 mod 128) OR 128, of_nat (l mod 128) OR 128])"

definition lpEncodeBacklenBytes :: "nat \<Rightarrow> nat" where
  "lpEncodeBacklenBytes l =
     (if l \<le> 127 then 1 else if l \<le> 16383 then 2 else if l \<le> 2097151 then 3 else if l \<le> 268435455 then 4 else 5)"

text \<open>A byte in front of \<open>p\<close>.\<close>

definition rd_back :: "bytes \<Rightarrow> nat \<Rightarrow> nat \<Rightarrow> byte option" where
  "rd_back lp p k = (if k \<le> p then rdb lp (p - k) else None)"

definition lpDecodeBacklen :: "bytes \<Rightarrow> nat \<Rightarrow> nat option" where
  "lpDecodeBacklen lp p =
     do { b0 \<leftarrow> rd_back lp p 0;
          (if b0 AND 128 = 0 then Some (unat (b0 AND 127))
           else do {
             let val = unat (b0 AND 127);
             b1 \<leftarrow> rd_back lp p 1;
             let val = val + unat (b1 AND 127) * 2 ^ 7;
             (if b1 AND 128 = 0 then Some val
              else do {
                b2 \<leftarrow> rd_back lp p 2;
                let val = val + unat (b2 AND 127) * 2 ^ 14;
                (if b2 AND 128 = 0 then Some val
                 else do {
                   b3 \<leftarrow> rd_back lp p 3;
                   let val = val + unat (b3 AND 127) * 2 ^ 21;
                   (if b3 AND 128 = 0 then Some val
                    else do {
                      b4 \<leftarrow> rd_back lp p 4;
                      let val = val + unat (b4 AND 127) * 2 ^ 28;
                      Some (if b4 AND 128 = 0 then val else 2 ^ 64 - 1) }) }) }) }) }"

definition lpEncodeString :: "bytes \<Rightarrow> bytes" where
  "lpEncodeString s =
     (let len = length s
      in if len < 64 then (of_nat len OR 0x80) # s
         else if len < 4096 then [of_nat (len div 256) OR 0xE0, of_nat (len mod 256)] @ s
         else 0xF0 # le_bytes 4 (int len) @ s)"

text \<open>The results are \<^verbatim>\<open>uint32_t\<close>; only the length of a 32 bit string can exceed it.\<close>

definition lpCurrentEncodedSizeUnsafe :: "bytes \<Rightarrow> nat \<Rightarrow> nat option" where
  "lpCurrentEncodedSizeUnsafe lp p =
     do { b \<leftarrow> rdb lp p;
          (if LP_ENCODING_IS_7BIT_UINT b then Some 1
           else if LP_ENCODING_IS_6BIT_STR b then do { n \<leftarrow> LP_ENCODING_6BIT_STR_LEN lp p; Some (1 + n) }
           else if LP_ENCODING_IS_13BIT_INT b then Some 2
           else if LP_ENCODING_IS_16BIT_INT b then Some 3
           else if LP_ENCODING_IS_24BIT_INT b then Some 4
           else if LP_ENCODING_IS_32BIT_INT b then Some 5
           else if LP_ENCODING_IS_64BIT_INT b then Some 9
           else if LP_ENCODING_IS_12BIT_STR b then do { n \<leftarrow> LP_ENCODING_12BIT_STR_LEN lp p; Some (2 + n) }
           else if LP_ENCODING_IS_32BIT_STR b then do { n \<leftarrow> LP_ENCODING_32BIT_STR_LEN lp p; Some ((5 + n) mod 2 ^ 32) }
           else if b = LP_EOF then Some 1
           else Some 0) }"

definition lpCurrentEncodedSizeBytes :: "byte \<Rightarrow> nat" where
  "lpCurrentEncodedSizeBytes b =
     (if LP_ENCODING_IS_7BIT_UINT b then 1
      else if LP_ENCODING_IS_6BIT_STR b then 1
      else if LP_ENCODING_IS_13BIT_INT b then 1
      else if LP_ENCODING_IS_16BIT_INT b then 1
      else if LP_ENCODING_IS_24BIT_INT b then 1
      else if LP_ENCODING_IS_32BIT_INT b then 1
      else if LP_ENCODING_IS_64BIT_INT b then 1
      else if LP_ENCODING_IS_12BIT_STR b then 2
      else if LP_ENCODING_IS_32BIT_STR b then 5
      else if b = LP_EOF then 1
      else 0)"

definition lpSkip :: "bytes \<Rightarrow> nat \<Rightarrow> nat option" where
  "lpSkip lp p = do { entrylen \<leftarrow> lpCurrentEncodedSizeUnsafe lp p; Some (p + (entrylen + lpEncodeBacklenBytes entrylen)) }"

section \<open>Validation of one entry\<close>

text \<open>The result is \<open>None\<close> inside for the return value 0, otherwise the new \<^verbatim>\<open>*pp\<close>.\<close>

definition OUT_OF_RANGE :: "nat \<Rightarrow> nat \<Rightarrow> bool" where
  "OUT_OF_RANGE lpbytes p \<longleftrightarrow> p < LP_HDR_SIZE \<or> p \<ge> lpbytes"

definition lpValidateNext :: "bytes \<Rightarrow> nat option \<Rightarrow> nat \<Rightarrow> nat option option option" where
  "lpValidateNext lp pp lpbytes = (case pp of None \<Rightarrow> Some None | Some p \<Rightarrow>
     (if OUT_OF_RANGE lpbytes p then Some None
      else do {
        b \<leftarrow> rdb lp p;
        (if b = LP_EOF then Some (Some None)
         else (let lenbytes = lpCurrentEncodedSizeBytes b
               in if lenbytes = 0 then Some None
                  else if OUT_OF_RANGE lpbytes (p + lenbytes) then Some None
                  else do {
                    entrylen \<leftarrow> lpCurrentEncodedSizeUnsafe lp p;
                    let encodedBacklen = lpEncodeBacklenBytes entrylen;
                    let entrylen = entrylen + encodedBacklen;
                    (if OUT_OF_RANGE lpbytes (p + entrylen) then Some None
                     else do {
                       prevlen \<leftarrow> lpDecodeBacklen lp (p + entrylen - 1);
                       Some (if (prevlen + encodedBacklen) mod 2 ^ 64 \<noteq> entrylen then None
                             else Some (Some (p + entrylen))) }) })) }))"

definition lpAssertValidEntry :: "bytes \<Rightarrow> nat \<Rightarrow> nat \<Rightarrow> unit option" where
  "lpAssertValidEntry lp lpbytes p = do { r \<leftarrow> lpValidateNext lp (Some p) lpbytes; guard (r \<noteq> None) }"

section \<open>Navigation\<close>

definition lpNextWithBytes :: "bytes \<Rightarrow> nat \<Rightarrow> nat \<Rightarrow> nat option option" where
  "lpNextWithBytes lp p lpbytes =
     do { p \<leftarrow> lpSkip lp p;
          b \<leftarrow> rdb lp p;
          (if b = LP_EOF then Some None
           else do { lpAssertValidEntry lp lpbytes p; Some (Some p) }) }"

definition lpNext :: "bytes \<Rightarrow> nat \<Rightarrow> nat option option" where
  "lpNext lp p =
     do { p \<leftarrow> lpSkip lp p;
          b \<leftarrow> rdb lp p;
          (if b = LP_EOF then Some None
           else do { lpbytes \<leftarrow> lpBytes lp; lpAssertValidEntry lp lpbytes p; Some (Some p) }) }"

text \<open>The loop, with the flag \<^verbatim>\<open>validated\<close> as an argument.\<close>

fun lpNextN_loop :: "bytes \<Rightarrow> nat \<Rightarrow> bool \<Rightarrow> nat \<Rightarrow> nat \<Rightarrow> nat option option" where
  "lpNextN_loop lp lpbytes validated p 0 =
     (if \<not> validated then do { lpAssertValidEntry lp lpbytes p; Some (Some p) } else Some (Some p))"
| "lpNextN_loop lp lpbytes validated p (Suc n) =
     do { p \<leftarrow> lpSkip lp p;
          validated \<leftarrow> (if p + 5 \<ge> lpbytes
             then do { lpAssertValidEntry lp lpbytes p; Some True }
             else do { guard (p \<ge> LP_HDR_SIZE \<and> p < lpbytes); Some False });
          b \<leftarrow> rdb lp p;
          (if b = LP_EOF then Some None else lpNextN_loop lp lpbytes validated p n) }"

definition lpNextN :: "bytes \<Rightarrow> nat option \<Rightarrow> nat \<Rightarrow> nat option option" where
  "lpNextN lp p n =
     do { lpbytes \<leftarrow> lpBytes lp;
          (case p of None \<Rightarrow> Some None | Some p \<Rightarrow> lpNextN_loop lp lpbytes True p n) }"

text \<open>Unsigned 64-bit arithmetic; a result below the start of the buffer is caught by the callers' assertions.\<close>

definition lpSkipPrev :: "bytes \<Rightarrow> nat \<Rightarrow> nat option" where
  "lpSkipPrev lp p =
     do { guard (p \<ge> 1);
          prevlen \<leftarrow> lpDecodeBacklen lp (p - 1);
          let prevlen = (prevlen + lpEncodeBacklenBytes prevlen) mod 2 ^ 64;
          guard (prevlen \<le> p);
          Some (p - prevlen) }"

definition lpPrev :: "bytes \<Rightarrow> nat \<Rightarrow> nat option option" where
  "lpPrev lp p =
     (if p = LP_HDR_SIZE then Some None
      else do { p \<leftarrow> lpSkipPrev lp p;
                lpbytes \<leftarrow> lpBytes lp;
                lpAssertValidEntry lp lpbytes p;
                Some (Some p) })"

fun lpPrevN_loop :: "bytes \<Rightarrow> nat \<Rightarrow> bool \<Rightarrow> nat \<Rightarrow> nat \<Rightarrow> nat option option" where
  "lpPrevN_loop lp lpbytes validated p 0 =
     (if \<not> validated then do { lpAssertValidEntry lp lpbytes p; Some (Some p) } else Some (Some p))"
| "lpPrevN_loop lp lpbytes validated p (Suc n) =
     (if p = LP_HDR_SIZE then Some None
      else do { p \<leftarrow> lpSkipPrev lp p;
                guard (p \<ge> LP_HDR_SIZE \<and> p < lpbytes);
                lpPrevN_loop lp lpbytes False p n })"

definition lpPrevN :: "bytes \<Rightarrow> nat option \<Rightarrow> nat \<Rightarrow> nat option option" where
  "lpPrevN lp p n =
     do { lpbytes \<leftarrow> lpBytes lp;
          (case p of None \<Rightarrow> Some None | Some p \<Rightarrow> lpPrevN_loop lp lpbytes True p n) }"

definition lpFirst :: "bytes \<Rightarrow> nat option option" where
  "lpFirst lp =
     do { b \<leftarrow> rdb lp LP_HDR_SIZE;
          (if b = LP_EOF then Some None
           else do { lpbytes \<leftarrow> lpBytes lp; lpAssertValidEntry lp lpbytes LP_HDR_SIZE; Some (Some LP_HDR_SIZE) }) }"

definition lpLast :: "bytes \<Rightarrow> nat option option" where
  "lpLast lp = do { n \<leftarrow> lpGetTotalBytes lp; guard (n \<ge> 1); lpPrev lp (n - 1) }"

text \<open>The loop that counts the entries from \<open>p\<close> on.\<close>

partial_function (option) lpLength_loop :: "bytes \<Rightarrow> nat option \<Rightarrow> nat \<Rightarrow> nat option" where
  "lpLength_loop lp p count = (case p of None \<Rightarrow> Some count
     | Some p \<Rightarrow> do { p \<leftarrow> lpNext lp p; lpLength_loop lp p (count + 1) })"

definition lpLength :: "bytes \<Rightarrow> (bytes \<times> nat) option" where
  "lpLength lp =
     do { numele \<leftarrow> lpGetNumElements lp;
          (if numele \<noteq> LP_HDR_NUMELE_UNKNOWN then Some (lp, numele)
           else do {
             p \<leftarrow> lpFirst lp;
             count \<leftarrow> lpLength_loop lp p 0;
             (if count < LP_HDR_NUMELE_UNKNOWN
              then do { lp \<leftarrow> lpSetNumElements lp count; Some (lp, count) }
              else Some (lp, count)) }) }"

definition lpSeek :: "bytes \<Rightarrow> int \<Rightarrow> nat option option" where
  "lpSeek lp index =
     do { numele \<leftarrow> lpGetNumElements lp;
          (if numele \<noteq> LP_HDR_NUMELE_UNKNOWN then
             (let index = (if index < 0 then int numele + index else index)
              in if index < 0 then Some None
                 else if index \<ge> int numele then Some None
                 else if index > int (numele div 2)
                 then do { p \<leftarrow> lpLast lp; lpPrevN lp p (nat (int numele - index - 1)) }
                 else do { p \<leftarrow> lpFirst lp; lpNextN lp p (nat index) })
           else if index < 0 then do { p \<leftarrow> lpLast lp; lpPrevN lp p (nat (- index - 1)) }
           else do { p \<leftarrow> lpFirst lp; lpNextN lp p (nat index) }) }"

definition lpValidateFirst :: "bytes \<Rightarrow> nat option option" where
  "lpValidateFirst lp = do { b \<leftarrow> rdb lp LP_HDR_SIZE; Some (if b = LP_EOF then None else Some LP_HDR_SIZE) }"

section \<open>Reading an entry\<close>

text \<open>A string inside the listpack as offset and length, an integer, or the integer's string in the caller's buffer.\<close>

datatype lpGot = GotStr nat nat | GotInt int | GotBuf bytes nat

text \<open>The value from the raw bits by the two's complement rule.\<close>

definition lp_signed :: "nat \<Rightarrow> nat \<Rightarrow> nat \<Rightarrow> int" where
  "lp_signed uval negstart negmax = (if uval \<ge> negstart then - int (negmax - uval) - 1 else int uval)"

definition lp_got_int :: "int \<Rightarrow> bytes option \<Rightarrow> lpGot option" where
  "lp_got_int val intbuf = (case intbuf of
     Some buf \<Rightarrow> do { (buf, count) \<leftarrow> ll2string buf LP_INTBUF_SIZE val; Some (GotBuf buf count) }
   | None \<Rightarrow> Some (GotInt val))"

text \<open>With the entry's size when it is stored through \<^verbatim>\<open>entry_size\<close>; an unknown encoding stores none.\<close>

definition lpGetWithSize :: "bytes \<Rightarrow> nat \<Rightarrow> bytes option \<Rightarrow> (lpGot \<times> nat option) option" where
  "lpGetWithSize lp p intbuf =
     (let int_result = (\<lambda>uval negstart negmax sz.
            do { g \<leftarrow> lp_got_int (lp_signed uval negstart negmax) intbuf; Some (g, sz) })
      in do {
        b \<leftarrow> rdb lp p;
        (if LP_ENCODING_IS_7BIT_UINT b then int_result (unat (b AND 0x7F)) (2 ^ 64 - 1) 0 (Some 2)
         else if LP_ENCODING_IS_6BIT_STR b then
           do { n \<leftarrow> LP_ENCODING_6BIT_STR_LEN lp p;
                Some (GotStr (p + 1) n, Some (1 + n + lpEncodeBacklenBytes (n + 1))) }
         else if LP_ENCODING_IS_13BIT_INT b then
           do { c \<leftarrow> rdb lp (p + 1); int_result (unat (b AND 0x1F) * 256 + unat c) (2 ^ 12) 8191 (Some 3) }
         else if LP_ENCODING_IS_16BIT_INT b then
           do { u \<leftarrow> rd_le lp (p + 1) 2; int_result u (2 ^ 15) (2 ^ 16 - 1) (Some 4) }
         else if LP_ENCODING_IS_24BIT_INT b then
           do { u \<leftarrow> rd_le lp (p + 1) 3; int_result u (2 ^ 23) (2 ^ 24 - 1) (Some 5) }
         else if LP_ENCODING_IS_32BIT_INT b then
           do { u \<leftarrow> rd_le lp (p + 1) 4; int_result u (2 ^ 31) (2 ^ 32 - 1) (Some 6) }
         else if LP_ENCODING_IS_64BIT_INT b then
           do { u \<leftarrow> rd_le lp (p + 1) 8; int_result u (2 ^ 63) (2 ^ 64 - 1) (Some 10) }
         else if LP_ENCODING_IS_12BIT_STR b then
           do { n \<leftarrow> LP_ENCODING_12BIT_STR_LEN lp p;
                Some (GotStr (p + 2) n, Some (2 + n + lpEncodeBacklenBytes (n + 2))) }
         else if LP_ENCODING_IS_32BIT_STR b then
           do { n \<leftarrow> LP_ENCODING_32BIT_STR_LEN lp p;
                Some (GotStr (p + 5) n, Some (5 + n + lpEncodeBacklenBytes (n + 5))) }
         else int_result (12345678900000000 + unat b) (2 ^ 64 - 1) 0 None) })"

definition lpGetWithBuf :: "bytes \<Rightarrow> nat \<Rightarrow> bytes option \<Rightarrow> lpGot option" where
  "lpGetWithBuf lp p intbuf =
     (let int_result = (\<lambda>uval negstart negmax. lp_got_int (lp_signed uval negstart negmax) intbuf)
      in do {
        b \<leftarrow> rdb lp p;
        (if LP_ENCODING_IS_6BIT_STR b then do { n \<leftarrow> LP_ENCODING_6BIT_STR_LEN lp p; Some (GotStr (p + 1) n) }
         else if LP_ENCODING_IS_12BIT_STR b then do { n \<leftarrow> LP_ENCODING_12BIT_STR_LEN lp p; Some (GotStr (p + 2) n) }
         else if LP_ENCODING_IS_32BIT_STR b then do { n \<leftarrow> LP_ENCODING_32BIT_STR_LEN lp p; Some (GotStr (p + 5) n) }
         else if LP_ENCODING_IS_7BIT_UINT b then int_result (unat (b AND 0x7F)) (2 ^ 64 - 1) 0
         else if LP_ENCODING_IS_13BIT_INT b then
           do { c \<leftarrow> rdb lp (p + 1); int_result (unat (b AND 0x1F) * 256 + unat c) (2 ^ 12) 8191 }
         else if LP_ENCODING_IS_16BIT_INT b then do { u \<leftarrow> rd_le lp (p + 1) 2; int_result u (2 ^ 15) (2 ^ 16 - 1) }
         else if LP_ENCODING_IS_24BIT_INT b then do { u \<leftarrow> rd_le lp (p + 1) 3; int_result u (2 ^ 23) (2 ^ 24 - 1) }
         else if LP_ENCODING_IS_32BIT_INT b then do { u \<leftarrow> rd_le lp (p + 1) 4; int_result u (2 ^ 31) (2 ^ 32 - 1) }
         else if LP_ENCODING_IS_64BIT_INT b then do { u \<leftarrow> rd_le lp (p + 1) 8; int_result u (2 ^ 63) (2 ^ 64 - 1) }
         else int_result (12345678900000000 + unat b) (2 ^ 64 - 1) 0) })"

definition lpGet :: "bytes \<Rightarrow> nat \<Rightarrow> bytes option \<Rightarrow> lpGot option" where
  "lpGet lp p intbuf = lpGetWithBuf lp p intbuf"

definition lpGetValue :: "bytes \<Rightarrow> nat \<Rightarrow> lpGot option" where
  "lpGetValue lp p =
     do { g \<leftarrow> lpGet lp p None;
          Some (case g of GotStr q n \<Rightarrow> GotStr q (n mod 2 ^ 32) | _ \<Rightarrow> g) }"

definition lpGetIntegerValue :: "bytes \<Rightarrow> nat \<Rightarrow> int option option" where
  "lpGetIntegerValue lp p =
     do { g \<leftarrow> lpGet lp p None; Some (case g of GotInt v \<Rightarrow> Some v | _ \<Rightarrow> None) }"

section \<open>Searching\<close>

text \<open>The comparator gets the value, may read the listpack, and passes its argument on; \<open>True\<close> stands for the
  return value 0. \<open>entry_size\<close> keeps its value when \<^verbatim>\<open>lpGetWithSize\<close> stores none.\<close>

partial_function (option) lpFindCbInternal_loop ::
  "bytes \<Rightarrow> nat \<Rightarrow> (bytes \<Rightarrow> nat \<Rightarrow> 'u \<Rightarrow> lpGot \<Rightarrow> ('u \<times> bool) option) \<Rightarrow> nat \<Rightarrow> 'u \<Rightarrow> nat \<Rightarrow> nat \<Rightarrow> nat \<Rightarrow> ('u \<times> nat option) option" where
  "lpFindCbInternal_loop lp lp_bytes cmp skip user skipcnt entry_size p =
     do { (user, found, skipcnt, entry_size, q) \<leftarrow>
            (if skipcnt = 0 then
               do { (v, sz) \<leftarrow> lpGetWithSize lp p None;
                    let entry_size = (case sz of Some n \<Rightarrow> n | None \<Rightarrow> entry_size);
                    guard (case v of GotStr _ _ \<Rightarrow> p \<ge> LP_HDR_SIZE \<and> p + entry_size < lp_bytes | _ \<Rightarrow> True);
                    (user, eq) \<leftarrow> cmp lp p user v;
                    Some (user, eq, skip, entry_size, p + entry_size) }
             else do { q \<leftarrow> lpSkip lp p; Some (user, False, skipcnt - 1, entry_size, q) });
          (if found then Some (user, Some p)
           else do {
             (if q + 8 \<ge> lp_bytes then lpAssertValidEntry lp lp_bytes q
              else guard (q \<ge> LP_HDR_SIZE \<and> q < lp_bytes));
             b \<leftarrow> rdb lp q;
             (if b = LP_EOF then Some (user, None)
              else lpFindCbInternal_loop lp lp_bytes cmp skip user skipcnt entry_size q) }) }"

definition lpFindCbInternal ::
  "bytes \<Rightarrow> nat option \<Rightarrow> 'u \<Rightarrow> (bytes \<Rightarrow> nat \<Rightarrow> 'u \<Rightarrow> lpGot \<Rightarrow> ('u \<times> bool) option) \<Rightarrow> nat \<Rightarrow> ('u \<times> nat option) option" where
  "lpFindCbInternal lp p user cmp skip =
     do { lp_bytes \<leftarrow> lpBytes lp;
          p \<leftarrow> (case p of None \<Rightarrow> lpFirst lp | Some p \<Rightarrow> Some (Some p));
          (case p of None \<Rightarrow> Some (user, None)
           | Some p \<Rightarrow> lpFindCbInternal_loop lp lp_bytes cmp skip user 0 123456789 p) }"

definition lpFindCb ::
  "bytes \<Rightarrow> nat option \<Rightarrow> 'u \<Rightarrow> (bytes \<Rightarrow> nat \<Rightarrow> 'u \<Rightarrow> lpGot \<Rightarrow> ('u \<times> bool) option) \<Rightarrow> nat \<Rightarrow> ('u \<times> nat option) option" where
  "lpFindCb lp p user cmp skip = lpFindCbInternal lp p user cmp skip"

text \<open>\<open>vencoding\<close> is 0, 1 or 255.\<close>

record lpFindArg =
  fa_s :: bytes
  fa_vencoding :: nat
  fa_vll :: int

definition lpFindCmp :: "bytes \<Rightarrow> nat \<Rightarrow> lpFindArg \<Rightarrow> lpGot \<Rightarrow> (lpFindArg \<times> bool) option" where
  "lpFindCmp lp p arg v = (case v of
     GotStr q n \<Rightarrow>
       (if n = length (fa_s arg) then do { s \<leftarrow> mem_rd lp q n; Some (arg, s = fa_s arg) }
        else Some (arg, False))
   | GotInt i \<Rightarrow>
       (let arg = (if fa_vencoding arg = 0 then
              (if length (fa_s arg) \<ge> 32 \<or> length (fa_s arg) = 0 then arg\<lparr>fa_vencoding := 255\<rparr>
               else (case lpStringToInt64 (fa_s arg) of
                       None \<Rightarrow> arg\<lparr>fa_vencoding := 255\<rparr>
                     | Some vll \<Rightarrow> arg\<lparr>fa_vencoding := 1, fa_vll := vll\<rparr>))
              else arg)
        in Some (arg, fa_vencoding arg \<noteq> 255 \<and> i = fa_vll arg))
   | GotBuf _ _ \<Rightarrow> None)"

definition lpFind :: "bytes \<Rightarrow> nat option \<Rightarrow> bytes \<Rightarrow> nat \<Rightarrow> nat option option" where
  "lpFind lp p s skip =
     do { (_, r) \<leftarrow> lpFindCbInternal lp p \<lparr>fa_s = s, fa_vencoding = 0, fa_vll = 0\<rparr> lpFindCmp skip; Some r }"

text \<open>The cached value and its validity (0, 1 or -1) when the caller passes them.\<close>

definition lpCompare :: "bytes \<Rightarrow> nat \<Rightarrow> bytes \<Rightarrow> (int \<times> int) option \<Rightarrow> (bool \<times> (int \<times> int) option) option" where
  "lpCompare lp p s cache =
     do { b \<leftarrow> rdb lp p;
          (if b = LP_EOF then Some (False, cache)
           else do {
             v \<leftarrow> lpGet lp p None;
             (case v of
                GotStr q n \<Rightarrow>
                  (if length s = n then do { t \<leftarrow> mem_rd lp q n; Some (t = s, cache) } else Some (False, cache))
              | GotInt i \<Rightarrow>
                  (case cache of
                     Some (longval, valid) \<Rightarrow>
                       (let (longval, valid) = (if valid = 0 then
                              (case lpStringToInt64 s of Some x \<Rightarrow> (x, 1) | None \<Rightarrow> (longval, -1))
                              else (longval, valid))
                        in Some (valid = 1 \<and> i = longval, Some (longval, valid)))
                   | None \<Rightarrow> Some (lpStringToInt64 s = Some i, None))
              | GotBuf _ _ \<Rightarrow> None) }) }"

section \<open>Modification\<close>

datatype lpWhere = LP_BEFORE | LP_AFTER | LP_REPLACE

text \<open>What \<^verbatim>\<open>lpInsert\<close> stores: a string, the encoding of an integer, or nothing for a deletion.\<close>

datatype lpEle = EleStr bytes | EleInt bytes | EleNone

definition ASSERT_INTEGRITY :: "bytes \<Rightarrow> nat \<Rightarrow> unit option" where
  "ASSERT_INTEGRITY lp p = do { n \<leftarrow> lpGetTotalBytes lp; guard (p \<ge> LP_HDR_SIZE \<and> p < n) }"

definition ASSERT_INTEGRITY_LEN :: "bytes \<Rightarrow> nat \<Rightarrow> nat \<Rightarrow> unit option" where
  "ASSERT_INTEGRITY_LEN lp p len = do { n \<leftarrow> lpGetTotalBytes lp; guard (p \<ge> LP_HDR_SIZE \<and> p + len < n) }"

text \<open>An unsigned difference used as a length: where it would wrap around the access faults.\<close>

definition diff_len :: "nat \<Rightarrow> nat \<Rightarrow> nat option" where
  "diff_len a b = (if b \<le> a then Some (a - b) else None)"

text \<open>\<open>None\<close> inside is the return value \<^verbatim>\<open>NULL\<close>; otherwise the listpack and \<^verbatim>\<open>*newp\<close>.\<close>

definition lpInsert ::
  "(nat \<Rightarrow> byte) \<Rightarrow> bytes \<Rightarrow> lpEle \<Rightarrow> nat \<Rightarrow> lpWhere \<Rightarrow> (bytes \<times> nat option) option option" where
  "lpInsert junk lp ele p wh =
     (let del = (ele = EleNone);
          wh = (if del then LP_REPLACE else wh)
      in do {
        (p, wh) \<leftarrow> (if wh = LP_AFTER
           then do { p \<leftarrow> lpSkip lp p; ASSERT_INTEGRITY lp p; Some (p, LP_BEFORE) }
           else Some (p, wh));
        let poff = p;
        let (encoded, enclen) = (case ele of
              EleStr s \<Rightarrow> (case lpEncodeGetType s of
                 LP_ENCODING_INT e \<Rightarrow> (e, length e) | LP_ENCODING_STRING n \<Rightarrow> (lpEncodeString s, n))
            | EleInt e \<Rightarrow> (e, length e)
            | EleNone \<Rightarrow> ([], 0));
        let backlen = (if \<not> del then lpEncodeBacklen enclen else []);
        let backlen_size = length backlen;
        old_listpack_bytes \<leftarrow> lpGetTotalBytes lp;
        replaced_len \<leftarrow> (if wh = LP_REPLACE
           then do { n \<leftarrow> lpCurrentEncodedSizeUnsafe lp p;
                     let n = (n + lpEncodeBacklenBytes n) mod 2 ^ 32;
                     ASSERT_INTEGRITY_LEN lp p n;
                     Some n }
           else Some 0);
        let new_listpack_bytes = old_listpack_bytes + enclen + backlen_size - replaced_len;
        (if new_listpack_bytes > 2 ^ 32 - 1 then Some None
         else do {
           let dst = poff;
           let lp = (if new_listpack_bytes > old_listpack_bytes \<and> new_listpack_bytes > length lp
              then zrealloc junk lp new_listpack_bytes else lp);
           lp \<leftarrow> (if wh = LP_BEFORE
              then do { n \<leftarrow> diff_len old_listpack_bytes poff; mem_move lp (dst + enclen + backlen_size) dst n }
              else do { n \<leftarrow> diff_len old_listpack_bytes (poff + replaced_len);
                        mem_move lp (dst + enclen + backlen_size) (dst + replaced_len) n });
           let lp = (if new_listpack_bytes < old_listpack_bytes then zrealloc junk lp new_listpack_bytes else lp);
           newp \<leftarrow> (if del then do { b \<leftarrow> rdb lp dst; Some (if b = LP_EOF then None else Some dst) } else Some (Some dst));
           lp \<leftarrow> (if \<not> del
              then do { lp \<leftarrow> mem_wr lp dst encoded; mem_wr lp (dst + enclen) backlen }
              else Some lp);
           lp \<leftarrow> (if wh \<noteq> LP_REPLACE \<or> del
              then do { num_elements \<leftarrow> lpGetNumElements lp;
                        (if num_elements \<noteq> LP_HDR_NUMELE_UNKNOWN
                         then lpSetNumElements lp (if \<not> del then num_elements + 1
                                else nat ((int num_elements - 1) mod 2 ^ 32))
                         else Some lp) }
              else Some lp);
           lp \<leftarrow> lpSetTotalBytes lp new_listpack_bytes;
           Some (Some (lp, newp)) }) })"

text \<open>The entries of a batch: strings or integers.\<close>

datatype listpackEntry = SVal bytes | LVal int

text \<open>The encoded entry with its length field, as \<^verbatim>\<open>listpackInsertEntry\<close> holds them.\<close>

definition lpEncodeEntry :: "listpackEntry \<Rightarrow> bytes \<times> bytes" where
  "lpEncodeEntry e =
     (let enc = (case e of
            SVal s \<Rightarrow> (case lpEncodeGetType s of LP_ENCODING_INT e \<Rightarrow> e | LP_ENCODING_STRING _ \<Rightarrow> lpEncodeString s)
          | LVal v \<Rightarrow> lpEncodeIntegerGetType v)
      in (enc, lpEncodeBacklen (length enc)))"

fun lpEncodeEntries :: "listpackEntry list \<Rightarrow> (bytes \<times> bytes) list \<times> nat" where
  "lpEncodeEntries [] = ([], 0)"
| "lpEncodeEntries (e # es) =
     (let enc = lpEncodeEntry e; (encs, addedlen) = lpEncodeEntries es
      in (enc # encs, length (fst enc) + length (snd enc) + addedlen))"

text \<open>The result has the pointer behind the last entry and the last \<^verbatim>\<open>*newp\<close>.\<close>

fun lpWriteEntries :: "bytes \<Rightarrow> nat \<Rightarrow> (bytes \<times> bytes) list \<Rightarrow> nat option \<Rightarrow> (bytes \<times> nat \<times> nat option) option" where
  "lpWriteEntries lp dst [] newp = Some (lp, dst, newp)"
| "lpWriteEntries lp dst ((enc, backlen) # encs) newp =
     do { lp \<leftarrow> mem_wr lp dst enc;
          lp \<leftarrow> mem_wr lp (dst + length enc) backlen;
          lpWriteEntries lp (dst + length enc + length backlen) encs (Some dst) }"

definition lpBatchInsert ::
  "(nat \<Rightarrow> byte) \<Rightarrow> bytes \<Rightarrow> nat \<Rightarrow> lpWhere \<Rightarrow> listpackEntry list \<Rightarrow> (bytes \<times> nat option) option option" where
  "lpBatchInsert junk lp p wh entries =
     do { guard (wh = LP_BEFORE \<or> wh = LP_AFTER);
          guard (entries \<noteq> []);
          p \<leftarrow> (if wh = LP_AFTER then do { p \<leftarrow> lpSkip lp p; ASSERT_INTEGRITY lp p; Some p } else Some p);
          let (encs, addedlen) = lpEncodeEntries entries;
          old_listpack_bytes \<leftarrow> lpGetTotalBytes lp;
          let new_listpack_bytes = old_listpack_bytes + addedlen;
          (if new_listpack_bytes > 2 ^ 32 - 1 then Some None
           else do {
             let lp = (if new_listpack_bytes > old_listpack_bytes \<and> new_listpack_bytes > length lp
                then zrealloc junk lp new_listpack_bytes else lp);
             n \<leftarrow> diff_len old_listpack_bytes p;
             lp \<leftarrow> mem_move lp (p + addedlen) p n;
             (lp, _, newp) \<leftarrow> lpWriteEntries lp p encs None;
             num_elements \<leftarrow> lpGetNumElements lp;
             lp \<leftarrow> (if num_elements \<noteq> LP_HDR_NUMELE_UNKNOWN
                then lpSetNumElements lp
                  (if int (length entries) > int LP_HDR_NUMELE_UNKNOWN - int num_elements
                   then LP_HDR_NUMELE_UNKNOWN else num_elements + length entries)
                else Some lp);
             lp \<leftarrow> lpSetTotalBytes lp new_listpack_bytes;
             Some (Some (lp, newp)) }) }"

definition lpNewWithEntries :: "(nat \<Rightarrow> byte) \<Rightarrow> listpackEntry list \<Rightarrow> bytes option option" where
  "lpNewWithEntries junk entries =
     do { guard (entries \<noteq> []);
          let (encs, entries_len) = lpEncodeEntries entries;
          let listpack_bytes = LP_HDR_SIZE + entries_len + 1;
          (if listpack_bytes > 2 ^ 32 - 1 then Some None
           else do {
             (lp, tail, _) \<leftarrow> lpWriteEntries (zrealloc junk [] listpack_bytes) LP_HDR_SIZE encs None;
             lp \<leftarrow> mem_wr lp tail [LP_EOF];
             lp \<leftarrow> lpSetNumElements lp
               (if length entries \<ge> LP_HDR_NUMELE_UNKNOWN then LP_HDR_NUMELE_UNKNOWN else length entries);
             lp \<leftarrow> lpSetTotalBytes lp listpack_bytes;
             Some (Some lp) }) }"

definition lpInsertString ::
  "(nat \<Rightarrow> byte) \<Rightarrow> bytes \<Rightarrow> bytes \<Rightarrow> nat \<Rightarrow> lpWhere \<Rightarrow> (bytes \<times> nat option) option option" where
  "lpInsertString junk lp s p wh = lpInsert junk lp (EleStr s) p wh"

definition lpInsertInteger ::
  "(nat \<Rightarrow> byte) \<Rightarrow> bytes \<Rightarrow> int \<Rightarrow> nat \<Rightarrow> lpWhere \<Rightarrow> (bytes \<times> nat option) option option" where
  "lpInsertInteger junk lp lval p wh = lpInsert junk lp (EleInt (lpEncodeIntegerGetType lval)) p wh"

definition lpAppend :: "(nat \<Rightarrow> byte) \<Rightarrow> bytes \<Rightarrow> bytes \<Rightarrow> (bytes \<times> nat option) option option" where
  "lpAppend junk lp ele =
     do { n \<leftarrow> lpGetTotalBytes lp; eofptr \<leftarrow> diff_len n 1; lpInsert junk lp (EleStr ele) eofptr LP_BEFORE }"

definition lpAppendInteger :: "(nat \<Rightarrow> byte) \<Rightarrow> bytes \<Rightarrow> int \<Rightarrow> (bytes \<times> nat option) option option" where
  "lpAppendInteger junk lp lval =
     do { n \<leftarrow> lpGetTotalBytes lp; eofptr \<leftarrow> diff_len n 1; lpInsertInteger junk lp lval eofptr LP_BEFORE }"

definition lpPrepend :: "(nat \<Rightarrow> byte) \<Rightarrow> bytes \<Rightarrow> bytes \<Rightarrow> (bytes \<times> nat option) option option" where
  "lpPrepend junk lp s =
     do { p \<leftarrow> lpFirst lp;
          (case p of None \<Rightarrow> lpAppend junk lp s | Some p \<Rightarrow> lpInsert junk lp (EleStr s) p LP_BEFORE) }"

definition lpPrependInteger :: "(nat \<Rightarrow> byte) \<Rightarrow> bytes \<Rightarrow> int \<Rightarrow> (bytes \<times> nat option) option option" where
  "lpPrependInteger junk lp lval =
     do { p \<leftarrow> lpFirst lp;
          (case p of None \<Rightarrow> lpAppendInteger junk lp lval | Some p \<Rightarrow> lpInsertInteger junk lp lval p LP_BEFORE) }"

definition lpBatchAppend :: "(nat \<Rightarrow> byte) \<Rightarrow> bytes \<Rightarrow> listpackEntry list \<Rightarrow> (bytes \<times> nat option) option option" where
  "lpBatchAppend junk lp entries =
     do { n \<leftarrow> lpGetTotalBytes lp; eofptr \<leftarrow> diff_len n 1; lpBatchInsert junk lp eofptr LP_BEFORE entries }"

definition lpReplace :: "(nat \<Rightarrow> byte) \<Rightarrow> bytes \<Rightarrow> nat \<Rightarrow> bytes \<Rightarrow> (bytes \<times> nat option) option option" where
  "lpReplace junk lp p s = lpInsert junk lp (EleStr s) p LP_REPLACE"

definition lpReplaceInteger :: "(nat \<Rightarrow> byte) \<Rightarrow> bytes \<Rightarrow> nat \<Rightarrow> int \<Rightarrow> (bytes \<times> nat option) option option" where
  "lpReplaceInteger junk lp p lval = lpInsertInteger junk lp lval p LP_REPLACE"

definition lpDelete :: "(nat \<Rightarrow> byte) \<Rightarrow> bytes \<Rightarrow> nat \<Rightarrow> (bytes \<times> nat option) option option" where
  "lpDelete junk lp p = lpInsert junk lp EleNone p LP_REPLACE"

text \<open>The loop that skips up to \<open>num\<close> entries: the end reached and the number skipped.\<close>

fun delete_range_loop :: "bytes \<Rightarrow> nat \<Rightarrow> nat \<Rightarrow> nat \<Rightarrow> nat \<Rightarrow> (nat \<times> nat) option" where
  "delete_range_loop lp bytes tail 0 deleted = Some (tail, deleted)"
| "delete_range_loop lp bytes tail (Suc num) deleted =
     do { tail \<leftarrow> lpSkip lp tail;
          b \<leftarrow> rdb lp tail;
          (if b = LP_EOF then Some (tail, deleted + 1)
           else do { lpAssertValidEntry lp bytes tail; delete_range_loop lp bytes tail num (deleted + 1) }) }"

definition lpDeleteRangeWithEntry :: "(nat \<Rightarrow> byte) \<Rightarrow> bytes \<Rightarrow> nat \<Rightarrow> nat \<Rightarrow> (bytes \<times> nat option) option" where
  "lpDeleteRangeWithEntry junk lp p num =
     do { bytes \<leftarrow> lpBytes lp;
          (if num = 0 then Some (lp, Some p)
           else do {
             (tail, deleted) \<leftarrow> delete_range_loop lp bytes p num 0;
             n \<leftarrow> diff_len bytes tail;
             lp \<leftarrow> mem_move lp p tail n;
             lp \<leftarrow> lpSetTotalBytes lp (bytes - (tail - p));
             numele \<leftarrow> lpGetNumElements lp;
             lp \<leftarrow> (if numele \<noteq> LP_HDR_NUMELE_UNKNOWN
                then lpSetNumElements lp (nat ((int numele - int deleted) mod 2 ^ 32)) else Some lp);
             lp \<leftarrow> lpShrinkToFit junk lp;
             b \<leftarrow> rdb lp p;
             Some (lp, if b = LP_EOF then None else Some p) }) }"

definition lpDeleteRange :: "(nat \<Rightarrow> byte) \<Rightarrow> bytes \<Rightarrow> int \<Rightarrow> nat \<Rightarrow> bytes option" where
  "lpDeleteRange junk lp index num =
     do { numele \<leftarrow> lpGetNumElements lp;
          (if num = 0 then Some lp
           else do {
             r \<leftarrow> lpSeek lp index;
             (case r of None \<Rightarrow> Some lp
              | Some p \<Rightarrow>
                 (let index = (if numele \<noteq> LP_HDR_NUMELE_UNKNOWN \<and> index < 0 then int numele + index else index)
                  in if numele \<noteq> LP_HDR_NUMELE_UNKNOWN \<and> (int numele - index) mod 2 ^ 64 \<le> int num
                     then do { lp \<leftarrow> mem_wr lp p [LP_EOF];
                               lp \<leftarrow> lpSetTotalBytes lp (p + 1);
                               lp \<leftarrow> lpSetNumElements lp (nat index);
                               lpShrinkToFit junk lp }
                     else do { (lp, _) \<leftarrow> lpDeleteRangeWithEntry junk lp p num; Some lp })) }) }"

text \<open>The loop over the elements to delete: it moves what lies between one and the next to \<open>dst\<close>.\<close>

fun batch_delete_loop :: "bytes \<Rightarrow> nat \<Rightarrow> nat \<Rightarrow> nat list \<Rightarrow> (bytes \<times> nat) option" where
  "batch_delete_loop lp lp_end dst [] = Some (lp, dst)"
| "batch_delete_loop lp lp_end dst (skip # ps) =
     do { b \<leftarrow> rdb lp skip;
          guard (b \<noteq> LP_EOF);
          keep_start \<leftarrow> lpSkip lp skip;
          let keep_end = (case ps of [] \<Rightarrow> lp_end | q # _ \<Rightarrow> q);
          (if ps \<noteq> [] \<and> keep_start = keep_end then batch_delete_loop lp lp_end dst ps
           else do {
             guard (keep_end > keep_start);
             lp \<leftarrow> mem_move lp dst keep_start (keep_end - keep_start);
             batch_delete_loop lp lp_end (dst + (keep_end - keep_start)) ps }) }"

definition lpBatchDelete :: "(nat \<Rightarrow> byte) \<Rightarrow> bytes \<Rightarrow> nat list \<Rightarrow> bytes option" where
  "lpBatchDelete junk lp ps =
     (if ps = [] then Some lp
      else do {
        total_bytes \<leftarrow> lpGetTotalBytes lp;
        b \<leftarrow> rd_back lp total_bytes 1;
        guard (b = LP_EOF);
        (lp, dst) \<leftarrow> batch_delete_loop lp total_bytes (hd ps) ps;
        deleted_bytes \<leftarrow> diff_len total_bytes dst;
        let total_bytes = total_bytes - deleted_bytes;
        b \<leftarrow> rd_back lp total_bytes 1;
        guard (b = LP_EOF);
        lp \<leftarrow> lpSetTotalBytes lp total_bytes;
        numele \<leftarrow> lpGetNumElements lp;
        lp \<leftarrow> (if numele \<noteq> LP_HDR_NUMELE_UNKNOWN
           then lpSetNumElements lp (nat ((int numele - int (length ps)) mod 2 ^ 32)) else Some lp);
        lpShrinkToFit junk lp })"

text \<open>The arguments may be \<^verbatim>\<open>NULL\<close>; \<open>same\<close> says that they are the same listpack. The result is the merged listpack and
  whether it took the place of the first one, or \<open>None\<close> inside for \<^verbatim>\<open>NULL\<close>.\<close>

definition lpMerge :: "(nat \<Rightarrow> byte) \<Rightarrow> bool \<Rightarrow> bytes option \<Rightarrow> bytes option \<Rightarrow> (bytes \<times> bool) option option" where
  "lpMerge junk same first second = (case (first, second) of (Some first, Some second) \<Rightarrow>
     (if same then Some None else
        do { first_bytes \<leftarrow> lpBytes first;
             (first, first_len) \<leftarrow> lpLength first;
             second_bytes \<leftarrow> lpBytes second;
             (second, second_len) \<leftarrow> lpLength second;
             let append = (first_bytes \<ge> second_bytes);
             let (target, target_bytes, source, source_bytes) =
               (if append then (first, first_bytes, second, second_bytes) else (second, second_bytes, first, first_bytes));
             lpbytes \<leftarrow> diff_len (first_bytes + second_bytes) (LP_HDR_SIZE + 1);
             guard (lpbytes < 2 ^ 32 - 1);
             let lplength = first_len + second_len;
             let lplength = (if lplength < 65535 then lplength else 65535);
             let target = zrealloc junk target lpbytes;
             target \<leftarrow> (if append
                then do { off \<leftarrow> diff_len target_bytes 1;
                          n \<leftarrow> diff_len source_bytes LP_HDR_SIZE;
                          xs \<leftarrow> mem_rd source LP_HDR_SIZE n;
                          mem_wr target off xs }
                else do { off \<leftarrow> diff_len source_bytes 1;
                          n \<leftarrow> diff_len target_bytes LP_HDR_SIZE;
                          target \<leftarrow> mem_move target off LP_HDR_SIZE n;
                          xs \<leftarrow> mem_rd source 0 off;
                          mem_wr target 0 xs });
             target \<leftarrow> lpSetNumElements target lplength;
             target \<leftarrow> lpSetTotalBytes target lpbytes;
             Some (Some (target, append)) }) | _ \<Rightarrow> Some None)"

definition lpDup :: "bytes \<Rightarrow> bytes option" where
  "lpDup lp = do { lpbytes \<leftarrow> lpBytes lp; mem_rd lp 0 lpbytes }"

definition lpEntrySizeInteger :: "int \<Rightarrow> nat" where
  "lpEntrySizeInteger lval =
     (let enclen = length (lpEncodeIntegerGetType lval) in enclen + lpEncodeBacklenBytes enclen)"

definition lpEstimateBytesRepeatedInteger :: "int \<Rightarrow> nat \<Rightarrow> nat" where
  "lpEstimateBytesRepeatedInteger lval rep = LP_HDR_SIZE + lpEntrySizeInteger lval * rep + 1"

section \<open>Validation\<close>

text \<open>The loop over the entries: \<open>None\<close> inside for the return value 0, otherwise the final \<^verbatim>\<open>p\<close> and the count. The
  callback is called as \<open>entry_cb\<close> on the entry's offset and the header's count.\<close>

partial_function (option) validate_entries ::
  "bytes \<Rightarrow> nat \<Rightarrow> nat \<Rightarrow> (nat \<Rightarrow> nat \<Rightarrow> bool) \<Rightarrow> nat option \<Rightarrow> nat \<Rightarrow> (nat option \<times> nat) option option" where
  "validate_entries lp bytes numele entry_cb p count = (case p of None \<Rightarrow> Some (Some (None, count))
     | Some q \<Rightarrow>
        do { b \<leftarrow> rdb lp q;
             (if b = LP_EOF then Some (Some (Some q, count))
              else do {
                r \<leftarrow> lpValidateNext lp (Some q) bytes;
                (case r of None \<Rightarrow> Some None
                 | Some p \<Rightarrow> (if \<not> entry_cb q numele then Some None
                              else validate_entries lp bytes numele entry_cb p (count + 1))) }) })"

definition lpValidateIntegrity :: "bytes \<Rightarrow> nat \<Rightarrow> bool \<Rightarrow> (nat \<Rightarrow> nat \<Rightarrow> bool) \<Rightarrow> bool option" where
  "lpValidateIntegrity lp sz deep entry_cb =
     (if sz < LP_HDR_SIZE + 1 then Some False
      else do {
        bytes \<leftarrow> lpGetTotalBytes lp;
        (if bytes \<noteq> sz then Some False
         else do {
           b \<leftarrow> rdb lp (sz - 1);
           (if b \<noteq> LP_EOF then Some False
            else if \<not> deep then Some True
            else do {
              numele \<leftarrow> lpGetNumElements lp;
              r \<leftarrow> validate_entries lp bytes numele entry_cb (Some LP_HDR_SIZE) 0;
              Some (case r of None \<Rightarrow> False
                    | Some (p, count) \<Rightarrow>
                        p = Some (sz - 1) \<and> (numele = LP_HDR_NUMELE_UNKNOWN \<or> numele = count)) }) }) })"

end
