(* ===== verification/Listpack_Rep.thy ===== *)
theory Listpack_Rep
  imports Listpack
begin

unbundle bit_operations_syntax

text \<open>
  What a well-formed listpack buffer is, and that the navigation of \<^verbatim>\<open>src/listpack.c\<close> moves between its entries: the
  encodings and their decoders, the length field read backwards, and the layout of header, entries and terminator.
\<close>

section \<open>Bytes of the encodings\<close>

lemma all_below: "list_all P [0..<n] \<Longrightarrow> x < n \<Longrightarrow> P x"
  by (simp add: list_all_iff)

definition septet_ok :: "nat \<Rightarrow> bool" where
  "septet_ok x \<longleftrightarrow> (of_nat x :: byte) AND 128 = 0 \<and> unat ((of_nat x :: byte) AND 127) = x \<and>
     ((of_nat x :: byte) OR 128) AND 128 \<noteq> 0 \<and> unat (((of_nat x :: byte) OR 128) AND 127) = x"

lemma septets: "list_all septet_ok [0..<128]"
  by code_simp

lemma septet:
  assumes "x < 128"
  shows "(of_nat x :: byte) AND 128 = 0" "unat ((of_nat x :: byte) AND 127) = x"
    "((of_nat x :: byte) OR 128) AND 128 \<noteq> 0" "unat (((of_nat x :: byte) OR 128) AND 127) = x"
  using all_below [OF septets assms] by (auto simp: septet_ok_def)

lemma length_backlen: "length (lpEncodeBacklen l) = lpEncodeBacklenBytes l"
  by (simp add: lpEncodeBacklen_def lpEncodeBacklenBytes_def)

lemma backlen_bytes_bounds: "1 \<le> lpEncodeBacklenBytes l \<and> lpEncodeBacklenBytes l \<le> 5"
  by (simp add: lpEncodeBacklenBytes_def)

lemma rd_back_append: "k < length ys \<Longrightarrow> rd_back (xs @ ys @ zs) (length xs + length ys - 1) k = Some (rev ys ! k)"
proof -
  assume k: "k < length ys"
  define i where "i = length ys - Suc k"
  have i: "length xs + length ys - 1 - k = length xs + i" "i < length ys" "k \<le> length xs + length ys - 1" using k by (auto simp: i_def)
  have "rd_back (xs @ ys @ zs) (length xs + length ys - 1) k = rdb (xs @ ys @ zs) (length xs + i)"
    unfolding rd_back_def i(1) using i(3) by simp
  also have "\<dots> = Some (ys ! i)" using i(2) by (simp add: rdb_def nth_append)
  also have "ys ! i = rev ys ! k" using k by (simp add: rev_nth i_def)
  finally show ?thesis .
qed

text \<open>The length field read backwards gives the length.\<close>

lemma lpDecodeBacklen_ok:
  assumes "l < 2 ^ 35"
  shows "lpDecodeBacklen (xs @ lpEncodeBacklen l @ zs) (length xs + lpEncodeBacklenBytes l - 1) = Some l"
proof -
  define y1 y2 y3 y4 where "y1 = l div 128" and "y2 = y1 div 128" and "y3 = y2 div 128" and "y4 = y3 div 128"
  have d: "l div 128 = y1" "l div 16384 = y2" "l div 2097152 = y3" "l div 268435456 = y4"
    by (simp_all add: y1_def y2_def y3_def y4_def div_mult2_eq [symmetric])
  define x0 x1 x2 x3 where "x0 = l mod 128" and "x1 = y1 mod 128" and "x2 = y2 mod 128" and "x3 = y3 mod 128"
  have e: "l = y1 * 128 + x0" "y1 = y2 * 128 + x1" "y2 = y3 * 128 + x2" "y3 = y4 * 128 + x3"
    by (simp_all only: y1_def y2_def y3_def y4_def x0_def x1_def x2_def x3_def div_mult_mod_eq)
  have m: "l mod 128 = x0" "y1 mod 128 = x1" "y2 mod 128 = x2" "y3 mod 128 = x3"
    by (simp_all only: x0_def x1_def x2_def x3_def)
  have x: "x0 < 128" "x1 < 128" "x2 < 128" "x3 < 128" by (simp_all add: x0_def x1_def x2_def x3_def)
  note X = septet [OF x(1)] septet [OF x(2)] septet [OF x(3)] septet [OF x(4)]
  note rb = rd_back_append [where xs = xs and zs = zs and ys = "lpEncodeBacklen l", unfolded length_backlen]
  consider "l \<le> 127" | "127 < l" "l \<le> 16383" | "16383 < l" "l \<le> 2097151" | "2097151 < l" "l \<le> 268435455" | "268435455 < l"
    by linarith
  then show ?thesis
  proof cases
    case 1
    then show ?thesis using rb [of 0] septet [of l] by (simp add: lpDecodeBacklen_def lpEncodeBacklen_def lpEncodeBacklenBytes_def)
  next
    case 2
    then have "lpEncodeBacklen l = [of_nat y1, of_nat x0 OR 128]" "lpEncodeBacklenBytes l = 2"
      by (simp_all add: lpEncodeBacklen_def lpEncodeBacklenBytes_def d m)
    moreover have "y1 < 128" using e 2 by linarith
    ultimately show ?thesis using rb [of 0] rb [of 1] septet [of y1] X e by (simp add: lpDecodeBacklen_def)
  next
    case 3
    then have "lpEncodeBacklen l = [of_nat y2, of_nat x1 OR 128, of_nat x0 OR 128]" "lpEncodeBacklenBytes l = 3"
      by (simp_all add: lpEncodeBacklen_def lpEncodeBacklenBytes_def d m)
    moreover have "y2 < 128" using e 3 by linarith
    ultimately show ?thesis using rb [of 0] rb [of 1] rb [of 2] septet [of y2] X e by (simp add: lpDecodeBacklen_def)
  next
    case 4
    then have "lpEncodeBacklen l = [of_nat y3, of_nat x2 OR 128, of_nat x1 OR 128, of_nat x0 OR 128]" "lpEncodeBacklenBytes l = 4"
      by (simp_all add: lpEncodeBacklen_def lpEncodeBacklenBytes_def d m)
    moreover have "y3 < 128" using e 4 by linarith
    ultimately show ?thesis using rb [of 0] rb [of 1] rb [of 2] rb [of 3] septet [of y3] X e by (simp add: lpDecodeBacklen_def)
  next
    case 5
    then have "lpEncodeBacklen l = [of_nat y4, of_nat x3 OR 128, of_nat x2 OR 128, of_nat x1 OR 128, of_nat x0 OR 128]"
      "lpEncodeBacklenBytes l = 5"
      by (simp_all add: lpEncodeBacklen_def lpEncodeBacklenBytes_def d m)
    moreover have "l < 34359738368" using assms by simp
    then have "y4 < 128" using e by linarith
    ultimately show ?thesis using rb [of 0] rb [of 1] rb [of 2] rb [of 3] rb [of 4] septet [of y4] X e by (simp add: lpDecodeBacklen_def)
  qed
qed

section \<open>The encodings, by class\<close>

datatype lp_class = C7 | C6s | C13 | C16 | C24 | C32 | C64 | C12s | C32s | Ceof | Cbad

definition enc_class :: "byte \<Rightarrow> lp_class" where
  "enc_class b =
     (if LP_ENCODING_IS_7BIT_UINT b then C7 else if LP_ENCODING_IS_6BIT_STR b then C6s
      else if LP_ENCODING_IS_13BIT_INT b then C13 else if LP_ENCODING_IS_16BIT_INT b then C16
      else if LP_ENCODING_IS_24BIT_INT b then C24 else if LP_ENCODING_IS_32BIT_INT b then C32
      else if LP_ENCODING_IS_64BIT_INT b then C64 else if LP_ENCODING_IS_12BIT_STR b then C12s
      else if LP_ENCODING_IS_32BIT_STR b then C32s else if b = LP_EOF then Ceof else Cbad)"

lemma mask_sub: "(b :: byte) AND m = v \<Longrightarrow> m AND k = k \<Longrightarrow> b AND k = v AND k"
  by (metis and.assoc)

lemma high_bits:
  "LP_ENCODING_IS_6BIT_STR b \<Longrightarrow> b AND 0x80 = 0x80"
  "LP_ENCODING_IS_13BIT_INT b \<Longrightarrow> b AND 0xC0 = 0xC0" "LP_ENCODING_IS_13BIT_INT b \<Longrightarrow> b AND 0x80 = 0x80"
  "LP_ENCODING_IS_12BIT_STR b \<Longrightarrow> b AND 0xE0 = 0xE0" "LP_ENCODING_IS_12BIT_STR b \<Longrightarrow> b AND 0xC0 = 0xC0"
  "LP_ENCODING_IS_12BIT_STR b \<Longrightarrow> b AND 0x80 = 0x80"
  using mask_sub [of b "0xC0" "0x80" "0x80"] mask_sub [of b "0xE0" "0xC0" "0xC0"] mask_sub [of b "0xE0" "0xC0" "0x80"]
    mask_sub [of b "0xF0" "0xE0" "0xE0"] mask_sub [of b "0xF0" "0xE0" "0xC0"] mask_sub [of b "0xF0" "0xE0" "0x80"]
  by (simp_all add: LP_ENCODING_IS_6BIT_STR_def LP_ENCODING_IS_13BIT_INT_def LP_ENCODING_IS_12BIT_STR_def)

lemmas encoding_defs = LP_ENCODING_IS_7BIT_UINT_def LP_ENCODING_IS_6BIT_STR_def LP_ENCODING_IS_13BIT_INT_def LP_ENCODING_IS_12BIT_STR_def
  LP_ENCODING_IS_16BIT_INT_def LP_ENCODING_IS_24BIT_INT_def LP_ENCODING_IS_32BIT_INT_def LP_ENCODING_IS_64BIT_INT_def
  LP_ENCODING_IS_32BIT_STR_def LP_EOF_def

lemma class_iff:
  "LP_ENCODING_IS_7BIT_UINT b \<longleftrightarrow> enc_class b = C7" "LP_ENCODING_IS_6BIT_STR b \<longleftrightarrow> enc_class b = C6s"
  "LP_ENCODING_IS_13BIT_INT b \<longleftrightarrow> enc_class b = C13" "LP_ENCODING_IS_16BIT_INT b \<longleftrightarrow> enc_class b = C16"
  "LP_ENCODING_IS_24BIT_INT b \<longleftrightarrow> enc_class b = C24" "LP_ENCODING_IS_32BIT_INT b \<longleftrightarrow> enc_class b = C32"
  "LP_ENCODING_IS_64BIT_INT b \<longleftrightarrow> enc_class b = C64" "LP_ENCODING_IS_12BIT_STR b \<longleftrightarrow> enc_class b = C12s"
  "LP_ENCODING_IS_32BIT_STR b \<longleftrightarrow> enc_class b = C32s" "b = LP_EOF \<longleftrightarrow> enc_class b = Ceof"
proof -
  have fixed: "b AND 0x80 = 0x80 \<and> b AND 0xC0 = 0xC0 \<and> b AND 0xE0 = 0xE0 \<and> b AND 0xF0 = 0xF0"
    if "b = 0xF0 \<or> b = 0xF1 \<or> b = 0xF2 \<or> b = 0xF3 \<or> b = 0xF4 \<or> b = 0xFF"
    using that by auto
  note hb = high_bits [of b, unfolded encoding_defs]
  show "LP_ENCODING_IS_7BIT_UINT b \<longleftrightarrow> enc_class b = C7" by (simp add: enc_class_def)
  show "LP_ENCODING_IS_6BIT_STR b \<longleftrightarrow> enc_class b = C6s" using hb(1) by (auto simp: enc_class_def encoding_defs)
  show "LP_ENCODING_IS_13BIT_INT b \<longleftrightarrow> enc_class b = C13" using hb(2,3) by (auto simp: enc_class_def encoding_defs)
  show "LP_ENCODING_IS_16BIT_INT b \<longleftrightarrow> enc_class b = C16" using fixed by (auto simp: enc_class_def encoding_defs)
  show "LP_ENCODING_IS_24BIT_INT b \<longleftrightarrow> enc_class b = C24" using fixed by (auto simp: enc_class_def encoding_defs)
  show "LP_ENCODING_IS_32BIT_INT b \<longleftrightarrow> enc_class b = C32" using fixed by (auto simp: enc_class_def encoding_defs)
  show "LP_ENCODING_IS_64BIT_INT b \<longleftrightarrow> enc_class b = C64" using fixed by (auto simp: enc_class_def encoding_defs)
  show "LP_ENCODING_IS_12BIT_STR b \<longleftrightarrow> enc_class b = C12s" using hb(4-6) fixed by (auto simp: enc_class_def encoding_defs)
  show "LP_ENCODING_IS_32BIT_STR b \<longleftrightarrow> enc_class b = C32s" using fixed by (auto simp: enc_class_def encoding_defs)
  show "b = LP_EOF \<longleftrightarrow> enc_class b = Ceof" using fixed by (auto simp: enc_class_def encoding_defs)
qed

lemma byte_lt: "unat (b :: byte) < 256"
proof -
  have "unat b < 2 ^ LENGTH(8)" by (rule unsigned_less)
  then show ?thesis by simp
qed

section \<open>Pieces of a buffer\<close>

definition piece :: "bytes \<Rightarrow> nat \<Rightarrow> bytes \<Rightarrow> bool" where
  "piece lp p b \<longleftrightarrow> take (length b) (drop p lp) = b \<and> p + length b \<le> length lp"

lemma piece_append: "piece (xs @ b @ ys) (length xs) b"
  by (simp add: piece_def)

lemma piece_rd: "piece lp p b \<Longrightarrow> i + n \<le> length b \<Longrightarrow> mem_rd lp (p + i) n = Some (take n (drop i b))"
proof -
  assume a: "piece lp p b" "i + n \<le> length b"
  then have "take n (drop i b) = take n (drop i (take (length b) (drop p lp)))" by (simp add: piece_def)
  also have "\<dots> = take n (drop (p + i) lp)" using a(2) by (simp add: drop_take min_def add.commute)
  finally show ?thesis using a by (simp add: mem_rd_def piece_def)
qed

lemma piece_rdb: "piece lp p b \<Longrightarrow> i < length b \<Longrightarrow> rdb lp (p + i) = Some (b ! i)"
proof -
  assume a: "piece lp p b" "i < length b"
  then have "b ! i = take (length b) (drop p lp) ! i" by (simp add: piece_def)
  also have "\<dots> = lp ! (p + i)" using a(2) by (subst nth_take) (use a in \<open>simp_all add: piece_def nth_drop\<close>)
  finally show ?thesis using a by (simp add: rdb_def piece_def)
qed

lemma piece_rdb0: "piece lp p b \<Longrightarrow> b \<noteq> [] \<Longrightarrow> rdb lp p = Some (hd b)"
  using piece_rdb [of lp p b 0] by (simp add: hd_conv_nth)

lemma piece_le: "piece lp p b \<Longrightarrow> i + n \<le> length b \<Longrightarrow> rd_le lp (p + i) n = Some (nat (le_uint (take n (drop i b))))"
  by (simp add: rd_le_def piece_rd)

lemma piece_prefix: "piece lp p (b @ c) \<Longrightarrow> piece lp p b"
  by (auto simp: piece_def take_add)

section \<open>Entries\<close>

text \<open>The bytes of an entry in front of its length field: the encoding byte says how many there are.\<close>

definition le_at :: "bytes \<Rightarrow> nat \<Rightarrow> nat" where
  "le_at b n = nat (le_uint (take n (drop 1 b)))"

definition pay :: "bytes \<Rightarrow> bool" where
  "pay b \<longleftrightarrow> b \<noteq> [] \<and> length b < 2 ^ 32 \<and> (case enc_class (hd b) of
     C7 \<Rightarrow> length b = 1 | C6s \<Rightarrow> length b = 1 + unat (hd b AND 0x3F) | C13 \<Rightarrow> length b = 2
   | C16 \<Rightarrow> length b = 3 | C24 \<Rightarrow> length b = 4 | C32 \<Rightarrow> length b = 5 | C64 \<Rightarrow> length b = 9
   | C12s \<Rightarrow> 2 \<le> length b \<and> length b = 2 + (unat (hd b AND 0xF) * 256 + unat (b ! 1))
   | C32s \<Rightarrow> 5 \<le> length b \<and> length b = 5 + le_at b 4
   | Ceof \<Rightarrow> False | Cbad \<Rightarrow> False)"

text \<open>The value of an entry, strings as offset and length.\<close>

definition pval :: "nat \<Rightarrow> bytes \<Rightarrow> lpGot" where
  "pval p b = (case enc_class (hd b) of
     C7 \<Rightarrow> GotInt (int (unat (hd b AND 0x7F)))
   | C6s \<Rightarrow> GotStr (p + 1) (length b - 1)
   | C13 \<Rightarrow> GotInt (lp_signed (unat (hd b AND 0x1F) * 256 + unat (b ! 1)) (2 ^ 12) 8191)
   | C16 \<Rightarrow> GotInt (lp_signed (le_at b 2) (2 ^ 15) (2 ^ 16 - 1))
   | C24 \<Rightarrow> GotInt (lp_signed (le_at b 3) (2 ^ 23) (2 ^ 24 - 1))
   | C32 \<Rightarrow> GotInt (lp_signed (le_at b 4) (2 ^ 31) (2 ^ 32 - 1))
   | C64 \<Rightarrow> GotInt (lp_signed (le_at b 8) (2 ^ 63) (2 ^ 64 - 1))
   | C12s \<Rightarrow> GotStr (p + 2) (length b - 2)
   | C32s \<Rightarrow> GotStr (p + 5) (length b - 5)
   | _ \<Rightarrow> GotInt 0)"

lemma pay_class: "pay b \<Longrightarrow> enc_class (hd b) \<noteq> Ceof \<and> enc_class (hd b) \<noteq> Cbad \<and> hd b \<noteq> LP_EOF"
  by (auto simp: pay_def class_iff)

lemma pay_size:
  assumes "piece lp p b" "pay b"
  shows "lpCurrentEncodedSizeUnsafe lp p = Some (length b)"
proof -
  have h: "rdb lp p = Some (hd b)" using piece_rdb0 [OF assms(1)] assms(2) by (simp add: pay_def)
  have size: "lpCurrentEncodedSizeUnsafe lp p = (case enc_class (hd b) of C7 \<Rightarrow> Some 1 | C6s \<Rightarrow> Some (1 + unat (hd b AND 0x3F))
    | C13 \<Rightarrow> Some 2 | C16 \<Rightarrow> Some 3 | C24 \<Rightarrow> Some 4 | C32 \<Rightarrow> Some 5 | C64 \<Rightarrow> Some 9
    | C12s \<Rightarrow> do { c \<leftarrow> rdb lp (p + 1); Some (2 + (unat (hd b AND 0xF) * 256 + unat c)) }
    | C32s \<Rightarrow> do { n \<leftarrow> rd_le lp (p + 1) 4; Some ((5 + n) mod 2 ^ 32) } | Ceof \<Rightarrow> Some 1 | Cbad \<Rightarrow> Some 0)"
    by (cases "enc_class (hd b)") (simp_all add: h lpCurrentEncodedSizeUnsafe_def class_iff
        LP_ENCODING_6BIT_STR_LEN_def LP_ENCODING_12BIT_STR_LEN_def LP_ENCODING_32BIT_STR_LEN_def)
  have b1: "2 \<le> length b \<Longrightarrow> rdb lp (p + 1) = Some (b ! 1)" using piece_rdb [OF assms(1), of 1] by simp
  have r: "5 \<le> length b \<Longrightarrow> rd_le lp (p + 1) 4 = Some (le_at b 4)" using piece_le [OF assms(1), of 1 4] by (simp add: le_at_def)
  show ?thesis using assms(2) b1 r unfolding size pay_def by (cases "enc_class (hd b)") simp_all
qed

lemma pay_lenbytes: "pay b \<Longrightarrow> 1 \<le> lpCurrentEncodedSizeBytes (hd b) \<and> lpCurrentEncodedSizeBytes (hd b) \<le> length b"
  by (cases "enc_class (hd b)") (auto simp: lpCurrentEncodedSizeBytes_def class_iff pay_def)

lemma pay_get:
  assumes "piece lp p b" "pay b"
  shows "lpGetWithBuf lp p None = Some (pval p b)"
proof -
  have h: "rdb lp p = Some (hd b)" using piece_rdb0 [OF assms(1)] assms(2) by (simp add: pay_def)
  have r: "1 + n \<le> length b \<Longrightarrow> rd_le lp (p + 1) n = Some (le_at b n)" for n using piece_le [OF assms(1), of 1 n] by (simp add: le_at_def)
  have b1: "2 \<le> length b \<Longrightarrow> rdb lp (p + 1) = Some (b ! 1)" using piece_rdb [OF assms(1), of 1] by simp
  have x: "lp_signed (unat (hd b AND 0x7F)) (2 ^ 64 - 1) 0 = int (unat (hd b AND 0x7F))"
    using byte_lt [of "hd b AND 0x7F"] by (simp add: lp_signed_def)
  have get: "lpGetWithBuf lp p None = (case enc_class (hd b) of
      C7 \<Rightarrow> Some (GotInt (lp_signed (unat (hd b AND 0x7F)) (2 ^ 64 - 1) 0)) | C6s \<Rightarrow> Some (GotStr (p + 1) (unat (hd b AND 0x3F)))
    | C13 \<Rightarrow> do { c \<leftarrow> rdb lp (p + 1); Some (GotInt (lp_signed (unat (hd b AND 0x1F) * 256 + unat c) (2 ^ 12) 8191)) }
    | C16 \<Rightarrow> do { u \<leftarrow> rd_le lp (p + 1) 2; Some (GotInt (lp_signed u (2 ^ 15) (2 ^ 16 - 1))) }
    | C24 \<Rightarrow> do { u \<leftarrow> rd_le lp (p + 1) 3; Some (GotInt (lp_signed u (2 ^ 23) (2 ^ 24 - 1))) }
    | C32 \<Rightarrow> do { u \<leftarrow> rd_le lp (p + 1) 4; Some (GotInt (lp_signed u (2 ^ 31) (2 ^ 32 - 1))) }
    | C64 \<Rightarrow> do { u \<leftarrow> rd_le lp (p + 1) 8; Some (GotInt (lp_signed u (2 ^ 63) (2 ^ 64 - 1))) }
    | C12s \<Rightarrow> do { c \<leftarrow> rdb lp (p + 1); Some (GotStr (p + 2) (unat (hd b AND 0xF) * 256 + unat c)) }
    | C32s \<Rightarrow> do { n \<leftarrow> rd_le lp (p + 1) 4; Some (GotStr (p + 5) n) }
    | _ \<Rightarrow> Some (GotInt (lp_signed (12345678900000000 + unat (hd b)) (2 ^ 64 - 1) 0)))"
    by (cases "enc_class (hd b)") (simp_all add: h lpGetWithBuf_def class_iff lp_got_int_def
        LP_ENCODING_6BIT_STR_LEN_def LP_ENCODING_12BIT_STR_LEN_def LP_ENCODING_32BIT_STR_LEN_def)
  show ?thesis using assms(2) b1 r x unfolding get pay_def pval_def by (cases "enc_class (hd b)") simp_all
qed

section \<open>Encoders\<close>

lemma lp_signed_ok:
  assumes "- (2 ^ (k - 1)) \<le> v" "v < 2 ^ (k - 1)" "0 < k"
  shows "lp_signed (nat (v mod 2 ^ k)) (2 ^ (k - 1)) (2 ^ k - 1) = v"
proof -
  obtain j where k: "k = Suc j" using assms(3) by (cases k) auto
  show ?thesis
  proof (cases "v < 0")
    case True
    have "v mod 2 ^ k = v + 2 ^ k"
    proof -
      have "(v + 2 ^ k) mod 2 ^ k = v + 2 ^ k" using True assms k by (intro mod_pos_pos_trivial) auto
      then show ?thesis by simp
    qed
    define u where "u = nat (v mod 2 ^ k)"
    have iu: "int u = v + 2 ^ k" using \<open>v mod 2 ^ k = v + 2 ^ k\<close> True assms k by (simp add: u_def)
    then have "int u \<le> int (2 ^ k - 1)" "int (2 ^ (k - 1)) \<le> int u" using True assms k by (simp_all add: of_nat_diff)
    then have le: "u \<le> 2 ^ k - 1" "2 ^ (k - 1) \<le> u" by linarith+
    then have "int (2 ^ k - 1 - u) = int (2 ^ k - 1) - int u" by (simp only: of_nat_diff)
    also have "int (2 ^ k - 1) = 2 ^ k - 1" by (simp add: of_nat_diff)
    finally have "int (2 ^ k - 1 - u) = 2 ^ k - 1 - int u" .
    then show ?thesis using iu le by (simp add: lp_signed_def u_def [symmetric])
  next
    case False
    then have "v mod 2 ^ k = v" using assms k by (intro mod_pos_pos_trivial) auto
    then show ?thesis using False assms k by (auto simp: lp_signed_def le_nat_iff)
  qed
qed

definition quint_ok :: "nat \<Rightarrow> bool" where
  "quint_ok x \<longleftrightarrow> ((of_nat x :: byte) OR 0xC0) AND 0xE0 = 0xC0 \<and> unat (((of_nat x :: byte) OR 0xC0) AND 0x1F) = x"

lemma quints: "list_all quint_ok [0..<32]"
  by code_simp

definition sext_ok :: "nat \<Rightarrow> bool" where
  "sext_ok x \<longleftrightarrow> ((of_nat x :: byte) OR 0x80) AND 0xC0 = 0x80 \<and> unat (((of_nat x :: byte) OR 0x80) AND 0x3F) = x"

lemma sexts: "list_all sext_ok [0..<64]"
  by code_simp

definition quart_ok :: "nat \<Rightarrow> bool" where
  "quart_ok x \<longleftrightarrow> ((of_nat x :: byte) OR 0xE0) AND 0xF0 = 0xE0 \<and> unat (((of_nat x :: byte) OR 0xE0) AND 0xF) = x"

lemma quarts: "list_all quart_ok [0..<16]"
  by code_simp

lemma class_fixed [simp]:
  "enc_class 0xF0 = C32s" "enc_class 0xF1 = C16" "enc_class 0xF2 = C24" "enc_class 0xF3 = C32" "enc_class 0xF4 = C64"
  "enc_class 0xFF = Ceof"
  by (simp_all add: enc_class_def encoding_defs)

lemma le_at_bytes: "le_at (c # le_bytes n x @ ys) n = nat (x mod 256 ^ n)"
  by (simp add: le_at_def le_uint_le_bytes)

lemma byte_mod: "unat (word_of_int (w mod 256) :: byte) = nat (w mod 256)"
  by (simp add: unat_eq_nat_uint uint_word_of_int take_bit_eq_mod)

lemma enc_int_small:
  assumes "0 \<le> v" "v \<le> 127"
  shows "pay [word_of_int v] \<and> pval p [word_of_int v] = GotInt v"
proof -
  obtain n where n: "v = int n" "n < 128" using assms using zero_le_imp_eq_int [of v] by auto
  then show ?thesis using septet [of n]
    by (simp add: pay_def pval_def enc_class_def LP_ENCODING_IS_7BIT_UINT_def)
qed

lemma wrap_mod: "- (2 ^ k) \<le> v \<Longrightarrow> v < 2 ^ k \<Longrightarrow> (if v < 0 then 2 ^ k + v else v) = v mod (2 ^ k :: int)"
proof (cases "v < 0")
  case True
  assume "- (2 ^ k) \<le> v"
  then have "(v + 2 ^ k) mod 2 ^ k = v + 2 ^ k" using True by (intro mod_pos_pos_trivial) auto
  then show ?thesis using True by simp
qed simp

lemma enc_int_13:
  assumes "-4096 \<le> v" "v \<le> 4095"
  defines "w \<equiv> if v < 0 then 2 ^ 13 + v else v"
  shows "pay [word_of_int (w div 256) OR 0xC0, word_of_int (w mod 256)] \<and>
    pval p [word_of_int (w div 256) OR 0xC0, word_of_int (w mod 256)] = GotInt v"
proof -
  have w: "0 \<le> w" "w < 8192" "w = v mod 2 ^ 13"
    using assms wrap_mod [of 13 v] by (auto simp: w_def)
  define x where "x = nat (w div 256)"
  have x: "x < 32" "(word_of_int (w div 256) :: byte) = of_nat x" using w by (auto simp: x_def)
  then have q: "((of_nat x :: byte) OR 0xC0) AND 0xE0 = 0xC0" "unat (((of_nat x :: byte) OR 0xC0) AND 0x1F) = x"
    using all_below [OF quints x(1)] by (auto simp: quint_ok_def)
  have c: "enc_class (of_nat x OR 0xC0) = C13" using q(1) class_iff(3) [of "of_nat x OR 0xC0"] by (simp add: LP_ENCODING_IS_13BIT_INT_def)
  have "x * 256 + nat (w mod 256) = nat w" using w(1) by (simp add: x_def nat_add_distrib [symmetric] nat_mult_distrib [symmetric] flip: nat_numeral)
  moreover have "lp_signed (nat w) (2 ^ 12) 8191 = v" using lp_signed_ok [of 13 v] assms(1,2) w(3) by simp
  ultimately show ?thesis using q(2) by (simp add: pay_def pval_def x(2) c byte_mod)
qed

lemma enc_int_wide:
  assumes "- (2 ^ (8 * n - 1)) \<le> v" "v < 2 ^ (8 * n - 1)" "0 < n" "x mod 256 ^ n = v mod 256 ^ n"
  shows "lp_signed (le_at (c # le_bytes n x) n) (2 ^ (8 * n - 1)) (2 ^ (8 * n) - 1) = v"
proof -
  have "(256 :: int) ^ n = 2 ^ (8 * n)" by (simp add: power_mult)
  then show ?thesis using lp_signed_ok [of "8 * n" v] assms le_at_bytes [of c n x "[]"] by simp
qed

lemma wrap_mod': "- (2 ^ k) \<le> v \<Longrightarrow> v < 2 ^ k \<Longrightarrow> (if v < 0 then 2 ^ k + v else v) mod (2 ^ k :: int) = v mod 2 ^ k"
  by (subst wrap_mod) simp_all

text \<open>Every 64-bit integer is stored in a well-formed entry that reads back as that integer.\<close>

lemma enc_int_ok:
  assumes "int64 v"
  shows "pay (lpEncodeIntegerGetType v) \<and> pval p (lpEncodeIntegerGetType v) = GotInt v"
proof -
  have b: "- (2 ^ 63) \<le> v" "v < 2 ^ 63" using assms by (auto simp: int64_def LLONG_MIN_def LLONG_MAX_def)
  consider (a) "0 \<le> v" "v \<le> 127" | (b) "\<not> (0 \<le> v \<and> v \<le> 127)" "-4096 \<le> v" "v \<le> 4095"
    | (c) "\<not> (-4096 \<le> v \<and> v \<le> 4095)" "-32768 \<le> v" "v \<le> 32767"
    | (d) "\<not> (-32768 \<le> v \<and> v \<le> 32767)" "-8388608 \<le> v" "v \<le> 8388607"
    | (e) "\<not> (-8388608 \<le> v \<and> v \<le> 8388607)" "-2147483648 \<le> v" "v \<le> 2147483647"
    | (f) "\<not> (-2147483648 \<le> v \<and> v \<le> 2147483647)" by linarith
  then show ?thesis
  proof cases
    case a
    then show ?thesis using enc_int_small [OF a] by (simp add: lpEncodeIntegerGetType_def)
  next
    case b
    then show ?thesis using enc_int_13 [of v p] by (auto simp: lpEncodeIntegerGetType_def Let_def)
  next
    case c
    then have "lpEncodeIntegerGetType v = 0xF1 # le_bytes 2 (if v < 0 then 2 ^ 16 + v else v)"
      by (auto simp: lpEncodeIntegerGetType_def Let_def)
    then show ?thesis using c enc_int_wide [of 2 v "if v < 0 then 2 ^ 16 + v else v" "0xF1"] wrap_mod' [of 16 v]
      by (simp add: pay_def pval_def)
  next
    case d
    then have "lpEncodeIntegerGetType v = 0xF2 # le_bytes 3 (if v < 0 then 2 ^ 24 + v else v)"
      by (auto simp: lpEncodeIntegerGetType_def Let_def)
    then show ?thesis using d enc_int_wide [of 3 v "if v < 0 then 2 ^ 24 + v else v" "0xF2"] wrap_mod' [of 24 v]
      by (simp add: pay_def pval_def)
  next
    case e
    then have "lpEncodeIntegerGetType v = 0xF3 # le_bytes 4 (if v < 0 then 2 ^ 32 + v else v)"
      by (auto simp: lpEncodeIntegerGetType_def Let_def)
    then show ?thesis using e enc_int_wide [of 4 v "if v < 0 then 2 ^ 32 + v else v" "0xF3"] wrap_mod' [of 32 v]
      by (simp add: pay_def pval_def)
  next
    case f
    then have "lpEncodeIntegerGetType v = 0xF4 # le_bytes 8 (v mod 2 ^ 64)"
      by (auto simp: lpEncodeIntegerGetType_def Let_def)
    then show ?thesis using b enc_int_wide [of 8 v "v mod 2 ^ 64" "0xF4"] by (simp add: pay_def pval_def)
  qed
qed

text \<open>The same for strings: the text of the entry is the string.\<close>

lemma enc_str_ok:
  assumes "length s + 5 < 2 ^ 32"
  shows "pay (lpEncodeString s) \<and> (\<exists>h. pval p (lpEncodeString s) = GotStr (p + h) (length s) \<and> drop h (lpEncodeString s) = s
    \<and> length (lpEncodeString s) = h + length s)"
proof -
  consider (a) "length s < 64" | (b) "64 \<le> length s" "length s < 4096" | (c) "4096 \<le> length s" by linarith
  then show ?thesis
  proof cases
    case a
    then have q: "((of_nat (length s) :: byte) OR 0x80) AND 0xC0 = 0x80" "unat (((of_nat (length s) :: byte) OR 0x80) AND 0x3F) = length s"
      using all_below [OF sexts a] by (auto simp: sext_ok_def)
    have "enc_class (of_nat (length s) OR 0x80) = C6s"
      using q(1) class_iff(2) [of "of_nat (length s) OR 0x80"] by (simp add: LP_ENCODING_IS_6BIT_STR_def)
    then show ?thesis using a q by (auto simp: lpEncodeString_def pay_def pval_def intro!: exI [of _ 1])
  next
    case b
    define x where "x = length s div 256"
    have x: "x < 16" using b by (simp add: x_def)
    have q: "((of_nat x :: byte) OR 0xE0) AND 0xF0 = 0xE0" "unat (((of_nat x :: byte) OR 0xE0) AND 0xF) = x"
      using all_below [OF quarts x] by (auto simp: quart_ok_def)
    have "enc_class (of_nat x OR 0xE0) = C12s"
      using q(1) class_iff(8) [of "of_nat x OR 0xE0"] by (simp add: LP_ENCODING_IS_12BIT_STR_def)
    moreover have "lpEncodeString s = [of_nat x OR 0xE0, of_nat (length s mod 256)] @ s" using b by (simp add: lpEncodeString_def x_def Let_def)
    moreover have "unat (of_nat (length s mod 256) :: byte) = length s mod 256" by (simp add: unsigned_of_nat take_bit_eq_mod)
    moreover have "x * 256 + length s mod 256 = length s" by (simp add: x_def)
    ultimately show ?thesis using b q by (auto simp: pay_def pval_def intro!: exI [of _ 2])
  next
    case c
    have e: "lpEncodeString s = 0xF0 # le_bytes 4 (int (length s)) @ s" using c by (simp add: lpEncodeString_def)
    have "le_at (lpEncodeString s) 4 = nat (int (length s) mod 256 ^ 4)" unfolding e by (rule le_at_bytes)
    then have "le_at (lpEncodeString s) 4 = length s" using assms by simp
    then show ?thesis using assms unfolding e by (auto simp: pay_def pval_def intro!: exI [of _ 5])
  qed
qed

section \<open>The text of an entry\<close>

definition ptext :: "bytes \<Rightarrow> bytes" where
  "ptext b = (case pval 0 b of GotInt v \<Rightarrow> sdec v | GotStr h n \<Rightarrow> take n (drop h b) | GotBuf _ _ \<Rightarrow> [])"

lemma le_at_less: "le_at b n < 256 ^ n"
proof -
  have "le_uint (take n (drop 1 b)) < 256 ^ length (take n (drop 1 b))" by (rule le_uint_less)
  also have "\<dots> \<le> 256 ^ n" by (rule power_increasing) auto
  finally show ?thesis by (simp add: le_at_def nat_less_iff)
qed

lemma lp_signed_int64: "u < 2 ^ k \<Longrightarrow> 0 < k \<Longrightarrow> k \<le> 64 \<Longrightarrow> int64 (lp_signed u (2 ^ (k - 1)) (2 ^ k - 1))"
proof -
  assume a: "u < 2 ^ k" "0 < k" "k \<le> 64"
  obtain j where k: "k = Suc j" using a(2) by (cases k) auto
  have j: "(2 :: int) ^ j \<le> 2 ^ 63" using a k by (intro power_increasing) auto
  have "int u < int (2 ^ k)" using a(1) by (simp only: of_nat_less_iff)
  then have u: "int u < 2 * 2 ^ j" by (simp add: k)
  show ?thesis
  proof (cases "2 ^ j \<le> u")
    case True
    have "u \<le> 2 ^ k - 1" using a(1) by simp
    then have "int (2 ^ k - 1 - u) = int (2 ^ k - 1) - int u" by (simp only: of_nat_diff)
    also have "int (2 ^ k - 1) = 2 * 2 ^ j - 1" by (simp add: of_nat_diff k)
    finally have i: "int (2 ^ k - 1 - u) = 2 * 2 ^ j - 1 - int u" .
    have "int (2 ^ j) \<le> int u" using True by (simp only: of_nat_le_iff)
    then have "(2 :: int) ^ j \<le> int u" by simp
    then show ?thesis using True i j u by (simp add: lp_signed_def k int64_def LLONG_MIN_def LLONG_MAX_def)
  next
    case False
    then have "int u < int (2 ^ j)" by (simp only: of_nat_less_iff not_le)
    moreover have "int (2 ^ j) = 2 ^ j" by simp
    ultimately have "int u < 2 ^ 63" using j by linarith
    then show ?thesis using False by (simp add: lp_signed_def k int64_def LLONG_MIN_def LLONG_MAX_def)
  qed
qed

lemma int64_literal: "- 9223372036854775808 \<le> v \<Longrightarrow> v \<le> 9223372036854775807 \<Longrightarrow> int64 v"
  by (simp add: int64_def LLONG_MIN_def LLONG_MAX_def)

lemma pval_int64: "pay b \<Longrightarrow> pval p b = GotInt v \<Longrightarrow> int64 v"
proof -
  assume a: "pay b" "pval p b = GotInt v"
  have x: "unat (hd b AND 0x1F) * 256 + unat (b ! 1) < 2 ^ 13"
  proof -
    have "hd b AND 0x1F \<le> 0x1F" by (rule word_and_le1)
    then have "unat (hd b AND 0x1F) \<le> 31" by (simp add: word_le_nat_alt)
    then show ?thesis using byte_lt [of "b ! 1"] by simp
  qed
  have w: "n \<le> 8 \<Longrightarrow> 0 < n \<Longrightarrow> int64 (lp_signed (le_at b n) (2 ^ (8 * n - 1)) (2 ^ (8 * n) - 1))" for n
    using lp_signed_int64 [of "le_at b n" "8 * n"] le_at_less [of b n] by (simp add: power_mult)
  have "0 \<le> uint (hd b AND 0x7F)" "uint (hd b AND 0x7F) < 256" using uint_lt2p [of "hd b AND 0x7F"] by simp_all
  then have small: "int64 (uint (hd b AND 0x7F))"
    by (intro int64_literal) linarith+
  show ?thesis using a lp_signed_int64 [OF x] w [of 2] w [of 3] w [of 4] w [of 8]
    by (cases "enc_class (hd b)") (auto simp: pay_def pval_def small)
qed

lemma pval_cases:
  assumes "pay b"
  obtains (int) v where "\<And>p. pval p b = GotInt v" "int64 v" "ptext b = sdec v"
  | (str) h where "\<And>p. pval p b = GotStr (p + h) (length b - h)" "0 < h" "h \<le> length b" "ptext b = drop h b"
proof (cases "pval 0 b")
  case (GotInt v)
  then have "\<And>p. pval p b = GotInt v" by (cases "enc_class (hd b)") (auto simp: pval_def)
  moreover have "ptext b = sdec v" using GotInt by (simp add: ptext_def)
  ultimately show ?thesis using pval_int64 [OF assms GotInt] int by blast
next
  case (GotStr h n)
  then have "(\<forall>p. pval p b = GotStr (p + h) (length b - h)) \<and> 0 < h \<and> h \<le> length b \<and> n = length b - h"
    using assms by (cases "enc_class (hd b)") (auto simp: pval_def pay_def)
  then show ?thesis using str [of h] GotStr by (simp add: ptext_def)
next
  case (GotBuf x y)
  then show ?thesis by (cases "enc_class (hd b)") (auto simp: pval_def)
qed

lemma lpStringToInt64_loop_eq: "lpStringToInt64_loop v p = string2ll_loop v p"
  by (induction v p rule: lpStringToInt64_loop.induct) (simp_all add: ULLONG_MAX_def)

lemma lpStringToInt64_eq: "lpStringToInt64 s = string2ll s"
proof (cases "s = [48] \<or> s = [] \<or> length s \<ge> LONG_STR_SIZE")
  case True
  then show ?thesis by (auto simp: lpStringToInt64_def string2ll_def LONG_STR_SIZE_def)
next
  case False
  then have n: "\<not> (length s = 1 \<and> hd s = 48)" by (cases s) auto
  have c: "2 ^ 63 < v \<longleftrightarrow> nat (- (LLONG_MIN + 1)) + 1 < v" "2 ^ 63 - 1 < v \<longleftrightarrow> LLONG_MAX < int v" for v :: nat
    by (auto simp: LLONG_MIN_def LLONG_MAX_def)
  have e: "(s = [] \<or> length s \<ge> LONG_STR_SIZE) = False" "(length s = 0 \<or> length s \<ge> LONG_STR_SIZE) = False" "(s = [48]) = False"
    using False by auto
  have p: "(hd s = 45 \<and> (if hd s = 45 then tl s else s) = []) = ((if hd s = 45 then tl s else s) = [])" using False by auto
  show ?thesis unfolding lpStringToInt64_def string2ll_def Let_def lpStringToInt64_loop_eq c e p using n by auto
qed

text \<open>What \<^verbatim>\<open>lpInsert\<close> writes for a string, which may spell an integer.\<close>

definition enc_ele :: "bytes \<Rightarrow> bytes" where
  "enc_ele s = (case lpEncodeGetType s of LP_ENCODING_INT e \<Rightarrow> e | LP_ENCODING_STRING _ \<Rightarrow> lpEncodeString s)"

lemma length_encodeString: "length (lpEncodeString s) = (if length s < 64 then 1 + length s else if length s < 4096 then 2 + length s else 5 + length s)"
  by (simp add: lpEncodeString_def Let_def)

lemma ptext_int: "int64 v \<Longrightarrow> ptext (lpEncodeIntegerGetType v) = sdec v"
  using enc_int_ok [of v 0] by (simp add: ptext_def)

lemma enc_ele_ok: "length s + 5 < 2 ^ 32 \<Longrightarrow> pay (enc_ele s) \<and> ptext (enc_ele s) = s"
proof (cases "lpStringToInt64 s")
  case None
  assume "length s + 5 < 2 ^ 32"
  then show ?thesis using None enc_str_ok [of s 0] by (auto simp: enc_ele_def lpEncodeGetType_def Let_def ptext_def)
next
  case (Some v)
  then have "int64 v" "s = sdec v" using string2ll_Some [of s v] by (simp_all add: lpStringToInt64_eq)
  then show ?thesis using Some enc_int_ok [of v] ptext_int [of v] by (simp add: enc_ele_def lpEncodeGetType_def)
qed

end
