(* ===== verification/Listpack_Walk.thy ===== *)
theory Listpack_Walk
  imports Listpack_Rep
begin

text \<open>
  The layout of a listpack: header, entries with their length fields, terminator, unused bytes of the allocation. On a
  buffer with this layout the navigation of \<^verbatim>\<open>src/listpack.c\<close> stays in bounds, passes its own assertions and moves
  between the entries.
\<close>

section \<open>Layout\<close>

definition chunk :: "bytes \<Rightarrow> bytes" where
  "chunk b = b @ lpEncodeBacklen (length b)"

definition body :: "bytes list \<Rightarrow> bytes" where
  "body bs = concat (map chunk bs)"

definition lp_total :: "bytes list \<Rightarrow> nat" where
  "lp_total bs = 7 + length (body bs)"

definition lp_hdr :: "nat \<Rightarrow> nat \<Rightarrow> bytes" where
  "lp_hdr tot num = le_bytes 4 (int tot) @ le_bytes 2 (int num)"

text \<open>The count in the header is the number of entries, or says that it is unknown.\<close>

definition num_ok :: "nat \<Rightarrow> bytes list \<Rightarrow> bool" where
  "num_ok num bs \<longleftrightarrow> num = 65535 \<or> num = length bs \<and> num < 65535"

definition lp_form :: "bytes \<Rightarrow> nat \<Rightarrow> bytes list \<Rightarrow> bytes \<Rightarrow> bool" where
  "lp_form lp num bs slack \<longleftrightarrow> lp = lp_hdr (lp_total bs) num @ body bs @ LP_EOF # slack \<and> num_ok num bs \<and>
     lp_total bs < 2 ^ 32 \<and> list_all pay bs"

definition lp_rep :: "bytes \<Rightarrow> bytes list \<Rightarrow> bool" where
  "lp_rep lp bs \<longleftrightarrow> (\<exists>num slack. lp_form lp num bs slack)"

definition off :: "bytes list \<Rightarrow> nat \<Rightarrow> nat" where
  "off bs k = 6 + length (body (take k bs))"

lemma list_all_take_drop: "list_all P xs \<Longrightarrow> list_all P (take k xs) \<and> list_all P (drop k xs)"
  by (auto simp: list_all_iff dest: in_set_takeD in_set_dropD)

lemma body_simps [simp]: "body [] = []" "body (b # bs) = chunk b @ body bs" "body (bs @ cs) = body bs @ body cs"
  by (simp_all add: body_def)

lemma length_lp_hdr [simp]: "length (lp_hdr t n) = 6"
  by (simp add: lp_hdr_def)

lemma length_chunk: "length (chunk b) = length b + lpEncodeBacklenBytes (length b)"
  by (simp add: chunk_def length_backlen)

lemma off_0 [simp]: "off bs 0 = 6"
  by (simp add: off_def)

lemma off_Suc: "k < length bs \<Longrightarrow> off bs (Suc k) = off bs k + length (chunk (bs ! k))"
  by (simp add: off_def take_Suc_conv_app_nth)

lemma off_end: "off bs (length bs) = lp_total bs - 1"
  by (simp add: off_def lp_total_def)

lemma off_mono: "j \<le> k \<Longrightarrow> off bs j \<le> off bs k"
proof -
  assume "j \<le> k"
  then have "take k bs = take j bs @ take (k - j) (drop j bs)" by (metis take_add le_add_diff_inverse)
  then show ?thesis by (simp add: off_def)
qed

lemma off_less_total: "off bs k < lp_total bs"
proof -
  have "length (body bs) = length (body (take k bs)) + length (body (drop k bs))"
    using arg_cong [OF append_take_drop_id [of k bs], of "length \<circ> body", symmetric] by (simp del: append_take_drop_id)
  then show ?thesis by (simp add: off_def lp_total_def)
qed

lemma chunk_pos: "1 < length (chunk b) \<or> b = []"
  using backlen_bytes_bounds [of "length b"] by (cases b) (auto simp: length_chunk)

lemma off_ge: "6 \<le> off bs k"
  by (simp add: off_def)

lemma off_eq_6: "list_all pay bs \<Longrightarrow> k \<le> length bs \<Longrightarrow> off bs k = 6 \<longleftrightarrow> k = 0"
proof (cases k)
  case (Suc j)
  assume "list_all pay bs" "k \<le> length bs"
  then have "bs ! j \<noteq> []" using Suc by (auto simp: list_all_length pay_def)
  then show ?thesis using Suc \<open>k \<le> length bs\<close> off_Suc [of j bs] chunk_pos [of "bs ! j"] off_ge [of bs j] by simp
qed simp

lemma off_inj_less: "list_all pay bs \<Longrightarrow> j < k \<Longrightarrow> k \<le> length bs \<Longrightarrow> off bs j < off bs k"
proof -
  assume a: "list_all pay bs" "j < k" "k \<le> length bs"
  then have "bs ! j \<noteq> []" by (auto simp: list_all_length pay_def)
  then show ?thesis using a off_Suc [of j bs] chunk_pos [of "bs ! j"] off_mono [of "Suc j" k bs] by simp
qed

lemma lp_formD:
  assumes "lp_form lp num bs slack"
  shows "lp = lp_hdr (lp_total bs) num @ body bs @ LP_EOF # slack" "num_ok num bs" "lp_total bs < 2 ^ 32" "list_all pay bs"
  using assms by (auto simp: lp_form_def)

lemma lp_form_length: "lp_form lp num bs slack \<Longrightarrow> length lp = lp_total bs + length slack"
  by (auto simp: lp_form_def lp_total_def)

section \<open>Header\<close>

lemma form_total: "lp_form lp num bs slack \<Longrightarrow> lpGetTotalBytes lp = Some (lp_total bs)"
  by (auto simp: lp_form_def lpGetTotalBytes_def rd_le_def mem_rd_def lp_hdr_def le_uint_le_bytes)

lemma form_num: "lp_form lp num bs slack \<Longrightarrow> lpGetNumElements lp = Some num"
  by (auto simp: lp_form_def lpGetNumElements_def rd_le_def mem_rd_def lp_hdr_def le_uint_le_bytes num_ok_def)

lemma rep_total: "lp_rep lp bs \<Longrightarrow> lpGetTotalBytes lp = Some (lp_total bs)"
  by (auto simp: lp_rep_def form_total)

section \<open>Entries\<close>

lemma form_split:
  assumes "lp_form lp num bs slack" "k < length bs"
  shows "lp = (lp_hdr (lp_total bs) num @ body (take k bs)) @ chunk (bs ! k) @ body (drop (Suc k) bs) @ LP_EOF # slack"
proof -
  have "body bs = body (take k bs) @ chunk (bs ! k) @ body (drop (Suc k) bs)"
    using arg_cong [OF id_take_nth_drop [OF assms(2)], of body] by simp
  then show ?thesis using lp_formD(1) [OF assms(1)] by simp
qed

lemma form_piece: "lp_form lp num bs slack \<Longrightarrow> k < length bs \<Longrightarrow> piece lp (off bs k) (bs ! k)"
proof -
  assume a: "lp_form lp num bs slack" "k < length bs"
  have "off bs k = length (lp_hdr (lp_total bs) num @ body (take k bs))" by (simp add: off_def)
  then have "piece lp (off bs k) (chunk (bs ! k))" using form_split [OF a] piece_append by metis
  then show ?thesis unfolding chunk_def by (rule piece_prefix)
qed

lemma form_eof: "lp_form lp num bs slack \<Longrightarrow> rdb lp (off bs (length bs)) = Some LP_EOF"
  by (auto simp: lp_form_def off_def rdb_def nth_append)

lemma form_pay: "lp_form lp num bs slack \<Longrightarrow> k < length bs \<Longrightarrow> pay (bs ! k)"
  by (auto simp: lp_form_def list_all_length)

lemma form_backlen: "lp_form lp num bs slack \<Longrightarrow> k < length bs \<Longrightarrow>
  lpDecodeBacklen lp (off bs (Suc k) - 1) = Some (length (bs ! k))"
proof -
  assume a: "lp_form lp num bs slack" "k < length bs"
  define xs where "xs = lp_hdr (lp_total bs) num @ body (take k bs) @ bs ! k"
  have "lp = xs @ lpEncodeBacklen (length (bs ! k)) @ body (drop (Suc k) bs) @ LP_EOF # slack"
    using form_split [OF a] by (simp add: xs_def chunk_def)
  moreover have "off bs (Suc k) - 1 = length xs + lpEncodeBacklenBytes (length (bs ! k)) - 1"
    using a(2) by (simp add: off_Suc length_chunk xs_def) (simp add: off_def)
  moreover have "length (bs ! k) < 2 ^ 35" using form_pay [OF a] by (simp add: pay_def)
  ultimately show ?thesis using lpDecodeBacklen_ok by metis
qed

section \<open>What the navigation relies on\<close>

text \<open>
  The length field of an entry needs only to read back as the entry's length: a buffer that was checked and not built here
  may hold another sequence of bytes there.
\<close>

definition lp_nav :: "bytes \<Rightarrow> nat \<Rightarrow> bytes list \<Rightarrow> bool" where
  "lp_nav lp num bs \<longleftrightarrow> lpGetTotalBytes lp = Some (lp_total bs) \<and> lpGetNumElements lp = Some num \<and> num_ok num bs \<and>
     lp_total bs < 2 ^ 32 \<and> list_all pay bs \<and> rdb lp (off bs (length bs)) = Some LP_EOF \<and>
     (\<forall>k < length bs. piece lp (off bs k) (bs ! k) \<and> lpDecodeBacklen lp (off bs (Suc k) - 1) = Some (length (bs ! k)))"

lemma form_nav: "lp_form lp num bs slack \<Longrightarrow> lp_nav lp num bs"
  using form_backlen [of lp num bs slack] lp_formD [of lp num bs slack]
  by (simp add: lp_nav_def form_total form_num form_eof form_piece)

lemma nav_basic:
  assumes "lp_nav lp num bs"
  shows "lpGetTotalBytes lp = Some (lp_total bs)" "lpGetNumElements lp = Some num" "num_ok num bs"
    "list_all pay bs" "rdb lp (off bs (length bs)) = Some LP_EOF" "lpBytes lp = Some (lp_total bs)"
  using assms by (auto simp: lp_nav_def lpBytes_def)

lemma nav_entry:
  assumes "lp_nav lp num bs" "k < length bs"
  shows "piece lp (off bs k) (bs ! k)" "pay (bs ! k)" "lpDecodeBacklen lp (off bs (Suc k) - 1) = Some (length (bs ! k))"
  using assms by (auto simp: lp_nav_def list_all_length)

lemma nav_hd: "lp_nav lp num bs \<Longrightarrow> k < length bs \<Longrightarrow> rdb lp (off bs k) = Some (hd (bs ! k))"
  using piece_rdb0 [OF nav_entry(1)] nav_entry(2) by (auto simp: pay_def)

lemma nav_rdb_eof: "lp_nav lp num bs \<Longrightarrow> k \<le> length bs \<Longrightarrow>
  \<exists>b. rdb lp (off bs k) = Some b \<and> (b = LP_EOF \<longleftrightarrow> k = length bs)"
  using nav_basic(5) [of lp num bs] nav_hd [of lp num bs k] pay_class nav_entry(2) [of lp num bs k]
  by (cases "k = length bs") auto

lemma nav_skip: "lp_nav lp num bs \<Longrightarrow> k < length bs \<Longrightarrow> lpSkip lp (off bs k) = Some (off bs (Suc k))"
  using pay_size [OF nav_entry(1) nav_entry(2), of lp num bs k] by (simp add: lpSkip_def off_Suc length_chunk)

text \<open>The validation of an entry accepts every entry and steps to the next one.\<close>

lemma nav_validate:
  assumes "lp_nav lp num bs" "k < length bs"
  shows "lpValidateNext lp (Some (off bs k)) (lp_total bs) = Some (Some (Some (off bs (Suc k))))"
proof -
  let ?b = "bs ! k"
  note p = nav_entry(2) [OF assms]
  have o: "off bs (Suc k) = off bs k + (length ?b + lpEncodeBacklenBytes (length ?b))"
    using assms(2) by (simp add: off_Suc length_chunk)
  have less: "off bs (Suc k) < lp_total bs" by (rule off_less_total)
  have lb: "1 \<le> lpCurrentEncodedSizeBytes (hd ?b)" "lpCurrentEncodedSizeBytes (hd ?b) \<le> length ?b" using pay_lenbytes [OF p] by auto
  have small: "length ?b + lpEncodeBacklenBytes (length ?b) < 2 ^ 64"
    using p backlen_bytes_bounds [of "length ?b"] by (simp add: pay_def)
  have r: "\<not> OUT_OF_RANGE (lp_total bs) q" if "off bs k \<le> q" "q \<le> off bs (Suc k)" for q
    using that less off_ge [of bs k] by (simp add: OUT_OF_RANGE_def LP_HDR_SIZE_def)
  have r1: "\<not> OUT_OF_RANGE (lp_total bs) (off bs k)" "\<not> OUT_OF_RANGE (lp_total bs) (off bs k + lpCurrentEncodedSizeBytes (hd ?b))"
    "\<not> OUT_OF_RANGE (lp_total bs) (off bs (Suc k))"
    using r [of "off bs k"] r [of "off bs k + lpCurrentEncodedSizeBytes (hd ?b)"] r [of "off bs (Suc k)"] lb o by simp_all
  show ?thesis
    using nav_hd [OF assms] pay_class [OF p] pay_size [OF nav_entry(1) [OF assms] p] nav_entry(3) [OF assms] r1 lb small
    by (simp add: lpValidateNext_def o [symmetric] Let_def)
qed

lemma nav_validate_eof: "lp_nav lp num bs \<Longrightarrow> lpValidateNext lp (Some (off bs (length bs))) (lp_total bs) = Some (Some None)"
  using nav_basic(5) [of lp num bs] off_less_total [of bs "length bs"] off_ge [of bs "length bs"]
  by (simp add: lpValidateNext_def OUT_OF_RANGE_def LP_HDR_SIZE_def)

lemma nav_assert: "lp_nav lp num bs \<Longrightarrow> k \<le> length bs \<Longrightarrow> lpAssertValidEntry lp (lp_total bs) (off bs k) = Some ()"
  using nav_validate [of lp num bs k] nav_validate_eof [of lp num bs]
  by (cases "k = length bs") (simp_all add: lpAssertValidEntry_def)

section \<open>Walking\<close>

definition entry_at :: "bytes list \<Rightarrow> nat \<Rightarrow> nat option" where
  "entry_at bs k = (if k < length bs then Some (off bs k) else None)"

lemma nav_nextWithBytes: "lp_nav lp num bs \<Longrightarrow> k < length bs \<Longrightarrow>
  lpNextWithBytes lp (off bs k) (lp_total bs) = Some (entry_at bs (Suc k))"
  using nav_skip [of lp num bs k] nav_rdb_eof [of lp num bs "Suc k"] nav_assert [of lp num bs "Suc k"]
  by (auto simp: lpNextWithBytes_def entry_at_def)

lemma nav_next: "lp_nav lp num bs \<Longrightarrow> k < length bs \<Longrightarrow> lpNext lp (off bs k) = Some (entry_at bs (Suc k))"
  using nav_skip [of lp num bs k] nav_rdb_eof [of lp num bs "Suc k"] nav_assert [of lp num bs "Suc k"]
    nav_basic(6) [of lp num bs]
  by (auto simp: lpNext_def entry_at_def)

lemma nav_skipPrev: "lp_nav lp num bs \<Longrightarrow> k < length bs \<Longrightarrow> lpSkipPrev lp (off bs (Suc k)) = Some (off bs k)"
proof -
  assume a: "lp_nav lp num bs" "k < length bs"
  let ?n = "length (bs ! k) + lpEncodeBacklenBytes (length (bs ! k))"
  have "?n < 2 ^ 64" using nav_entry(2) [OF a] backlen_bytes_bounds [of "length (bs ! k)"] by (simp add: pay_def)
  moreover have "off bs (Suc k) = off bs k + ?n" using a(2) by (simp add: off_Suc length_chunk)
  ultimately show ?thesis using nav_entry(3) [OF a] off_ge [of bs "Suc k"] by (simp add: lpSkipPrev_def)
qed

lemma nav_prev: "lp_nav lp num bs \<Longrightarrow> k \<le> length bs \<Longrightarrow>
  lpPrev lp (off bs k) = Some (if k = 0 then None else Some (off bs (k - 1)))"
proof (cases k)
  case (Suc j)
  assume a: "lp_nav lp num bs" "k \<le> length bs"
  then have "off bs k \<noteq> 6" using off_eq_6 [of bs k] Suc by (simp add: nav_basic(4))
  then show ?thesis using a Suc nav_skipPrev [of lp num bs j] nav_assert [of lp num bs j] nav_basic(6) [OF a(1)]
    by (simp add: lpPrev_def LP_HDR_SIZE_def)
qed (simp add: lpPrev_def LP_HDR_SIZE_def)

lemma nav_first: "lp_nav lp num bs \<Longrightarrow> lpFirst lp = Some (entry_at bs 0)"
  using nav_rdb_eof [of lp num bs 0] nav_assert [of lp num bs 0] nav_basic(6) [of lp num bs]
  by (auto simp: lpFirst_def entry_at_def LP_HDR_SIZE_def)

lemma nav_last: "lp_nav lp num bs \<Longrightarrow> lpLast lp = Some (if bs = [] then None else Some (off bs (length bs - 1)))"
  using nav_prev [of lp num bs "length bs"] nav_basic(1) [of lp num bs] off_end [of bs]
  by (simp add: lpLast_def lp_total_def)

lemma nav_nextN_loop: "lp_nav lp num bs \<Longrightarrow> k < length bs \<Longrightarrow>
  lpNextN_loop lp (lp_total bs) v (off bs k) n = Some (entry_at bs (k + n))"
proof (induction n arbitrary: k v)
  case 0
  then show ?case using nav_assert [OF 0(1), of k] by (simp add: entry_at_def)
next
  case (Suc n)
  have s: "lpSkip lp (off bs k) = Some (off bs (Suc k))" using nav_skip [OF Suc.prems] .
  have a: "lpAssertValidEntry lp (lp_total bs) (off bs (Suc k)) = Some ()" using Suc.prems by (intro nav_assert) auto
  have g: "off bs (Suc k) \<ge> LP_HDR_SIZE" "off bs (Suc k) < lp_total bs"
    using off_ge [of bs "Suc k"] off_less_total [of bs "Suc k"] by (simp_all add: LP_HDR_SIZE_def)
  obtain b where b: "rdb lp (off bs (Suc k)) = Some b" "b = LP_EOF \<longleftrightarrow> Suc k = length bs"
    using nav_rdb_eof [OF Suc.prems(1), of "Suc k"] Suc.prems(2) by auto
  show ?case
  proof (cases "Suc k = length bs")
    case True
    then show ?thesis using s a g b by (simp add: entry_at_def)
  next
    case False
    then show ?thesis using s a g b Suc.IH [OF Suc.prems(1), of "Suc k"] Suc.prems(2) by simp
  qed
qed

lemma nav_nextN: "lp_nav lp num bs \<Longrightarrow> k < length bs \<Longrightarrow> lpNextN lp (Some (off bs k)) n = Some (entry_at bs (k + n))"
  by (simp add: lpNextN_def nav_basic(6) nav_nextN_loop)

lemma nav_prevN_loop: "lp_nav lp num bs \<Longrightarrow> k < length bs \<Longrightarrow>
  lpPrevN_loop lp (lp_total bs) v (off bs k) n = Some (if n \<le> k then Some (off bs (k - n)) else None)"
proof (induction n arbitrary: k v)
  case 0
  then show ?case using nav_assert [OF 0(1), of k] by simp
next
  case (Suc n)
  show ?case
  proof (cases k)
    case 0
    then show ?thesis by (simp add: LP_HDR_SIZE_def)
  next
    case (Suc j)
    have "off bs k \<noteq> 6" using off_eq_6 [of bs k] Suc Suc.prems by (simp add: nav_basic(4))
    moreover have "lpSkipPrev lp (off bs k) = Some (off bs j)" using nav_skipPrev [OF Suc.prems(1), of j] Suc Suc.prems(2) by simp
    moreover have "off bs j \<ge> LP_HDR_SIZE" "off bs j < lp_total bs"
      using off_ge [of bs j] off_less_total [of bs j] by (simp_all add: LP_HDR_SIZE_def)
    ultimately show ?thesis using Suc.IH [OF Suc.prems(1), of j] Suc Suc.prems(2) by (simp add: LP_HDR_SIZE_def)
  qed
qed

lemma nav_prevN: "lp_nav lp num bs \<Longrightarrow> k < length bs \<Longrightarrow>
  lpPrevN lp (Some (off bs k)) n = Some (if n \<le> k then Some (off bs (k - n)) else None)"
  by (simp add: lpPrevN_def nav_basic(6) nav_prevN_loop)

text \<open>The loop of \<^verbatim>\<open>lpLength\<close> ends and counts the entries.\<close>

lemma nav_length_loop: "lp_nav lp num bs \<Longrightarrow> k \<le> length bs \<Longrightarrow>
  lpLength_loop lp (entry_at bs k) c = Some (c + (length bs - k))"
proof (induction "length bs - k" arbitrary: k c)
  case 0
  then show ?case by (subst lpLength_loop.simps) (simp add: entry_at_def)
next
  case (Suc x)
  then have "k < length bs" by simp
  then show ?case using Suc.hyps(1) [of "Suc k" "c + 1"] Suc.hyps(2) Suc.prems nav_next [OF Suc.prems(1), of k]
    by (subst lpLength_loop.simps) (simp add: entry_at_def)
qed

text \<open>An index counts from the front, a negative one from the back.\<close>

definition seek_index :: "bytes list \<Rightarrow> int \<Rightarrow> nat option" where
  "seek_index bs i = (let j = (if i < 0 then int (length bs) + i else i)
     in if 0 \<le> j \<and> j < int (length bs) then Some (nat j) else None)"

lemma nav_seek:
  assumes "lp_nav lp num bs"
  shows "lpSeek lp i = Some (map_option (off bs) (seek_index bs i))"
proof -
  have bwd: "do { p \<leftarrow> lpLast lp; lpPrevN lp p n } = Some (if n < length bs then Some (off bs (length bs - 1 - n)) else None)" for n
    using nav_last [OF assms] nav_prevN [OF assms, of "length bs - 1" n] nav_basic(6) [OF assms]
    by (cases bs) (auto simp: lpPrevN_def)
  have fwd: "do { p \<leftarrow> lpFirst lp; lpNextN lp p n } = Some (entry_at bs n)" for n
    using nav_first [OF assms] nav_nextN [OF assms, of 0 n] nav_basic(6) [OF assms]
    by (auto simp: lpNextN_def entry_at_def)
  define j where "j = (if i < 0 then int (length bs) + i else i)"
  have seek: "seek_index bs i = (if 0 \<le> j \<and> j < int (length bs) then Some (nat j) else None)"
    by (simp add: seek_index_def j_def Let_def)
  show ?thesis
  proof (cases "num = 65535")
    case False
    then have n: "num = length bs" "num \<noteq> LP_HDR_NUMELE_UNKNOWN" using nav_basic(3) [OF assms] by (auto simp: num_ok_def LP_HDR_NUMELE_UNKNOWN_def)
    have "lpSeek lp i = (if j < 0 then Some None else if j \<ge> int num then Some None
      else if j > int (num div 2) then do { p \<leftarrow> lpLast lp; lpPrevN lp p (nat (int num - j - 1)) }
      else do { p \<leftarrow> lpFirst lp; lpNextN lp p (nat j) })"
      using n nav_basic(2) [OF assms] by (simp add: lpSeek_def j_def Let_def)
    moreover have "nat (int num - j - 1) = length bs - 1 - nat j" if "0 \<le> j" "j < int num" using that n by auto
    ultimately show ?thesis using n seek by (auto simp: bwd fwd entry_at_def)
  next
    case True
    then have "lpSeek lp i = (if i < 0 then do { p \<leftarrow> lpLast lp; lpPrevN lp p (nat (- i - 1)) }
      else do { p \<leftarrow> lpFirst lp; lpNextN lp p (nat i) })"
      using nav_basic(2) [OF assms] by (simp add: lpSeek_def LP_HDR_NUMELE_UNKNOWN_def)
    moreover have "length bs - 1 - nat (- i - 1) = nat j" if "i < 0" "0 \<le> j" using that by (auto simp: j_def)
    moreover have "nat (- i - 1) < length bs \<longleftrightarrow> 0 \<le> j \<and> j < int (length bs)" if "i < 0" using that by (auto simp: j_def)
    ultimately show ?thesis using seek by (auto simp: bwd fwd entry_at_def j_def)
  qed
qed

section \<open>The same on a buffer built here\<close>

lemmas form_bytes = nav_basic(6) [OF form_nav]
lemmas form_hd = nav_hd [OF form_nav]
lemmas form_rdb_eof = nav_rdb_eof [OF form_nav]
lemmas form_skip = nav_skip [OF form_nav]
lemmas form_validate = nav_validate [OF form_nav]
lemmas form_validate_eof = nav_validate_eof [OF form_nav]
lemmas form_assert = nav_assert [OF form_nav]
lemmas form_nextWithBytes = nav_nextWithBytes [OF form_nav]
lemmas form_next = nav_next [OF form_nav]
lemmas form_skipPrev = nav_skipPrev [OF form_nav]
lemmas form_prev = nav_prev [OF form_nav]
lemmas form_first = nav_first [OF form_nav]
lemmas form_last = nav_last [OF form_nav]
lemmas form_nextN_loop = nav_nextN_loop [OF form_nav]
lemmas form_nextN = nav_nextN [OF form_nav]
lemmas form_prevN_loop = nav_prevN_loop [OF form_nav]
lemmas form_prevN = nav_prevN [OF form_nav]
lemmas form_length_loop = nav_length_loop [OF form_nav]
lemmas form_seek = nav_seek [OF form_nav]

lemma set_num: "lpSetNumElements (lp_hdr t n @ xs) n' = Some (lp_hdr t n' @ xs)"
  by (simp add: lpSetNumElements_def mem_wr_def lp_hdr_def)

lemma set_total: "lpSetTotalBytes (lp_hdr t n @ xs) t' = Some (lp_hdr t' n @ xs)"
  by (simp add: lpSetTotalBytes_def mem_wr_def lp_hdr_def)

lemma form_length:
  assumes "lp_form lp num bs slack"
  shows "\<exists>lp' num'. lpLength lp = Some (lp', length bs) \<and> lp_form lp' num' bs slack"
proof (cases "num = 65535")
  case False
  then show ?thesis using assms form_num [OF assms] lp_formD(2) [OF assms]
    by (auto simp: lpLength_def LP_HDR_NUMELE_UNKNOWN_def num_ok_def)
next
  case True
  have "lpFirst lp = Some (entry_at bs 0)" "lpLength_loop lp (entry_at bs 0) 0 = Some (length bs)"
    using form_first [OF assms] form_length_loop [OF assms, of 0 0] by simp_all
  moreover have "lp_form (lp_hdr (lp_total bs) (length bs) @ body bs @ LP_EOF # slack) (length bs) bs slack" if "length bs < 65535"
    using assms that by (simp add: lp_form_def num_ok_def)
  moreover have "lpSetNumElements lp (length bs) = Some (lp_hdr (lp_total bs) (length bs) @ body bs @ LP_EOF # slack)"
    using lp_formD(1) [OF assms] by (simp add: set_num)
  ultimately show ?thesis using True assms form_num [OF assms] by (auto simp: lpLength_def LP_HDR_NUMELE_UNKNOWN_def)
qed

end
