(* ===== verification/Listpack_Edit.thy ===== *)
theory Listpack_Edit
  imports Listpack_Walk
begin

text \<open>
  The modifications of \<^verbatim>\<open>src/listpack.c\<close>: each one moves the bytes behind the place it changes and leaves a buffer with
  the layout of the changed list of entries.
\<close>

section \<open>Opening and closing a gap\<close>

lemma mem_wr_exact: "length A = p \<Longrightarrow> length G = length w \<Longrightarrow> mem_wr (A @ G @ Y) p w = Some (A @ w @ Y)"
  by (simp add: mem_wr_def)

lemma mem_rd_exact: "length A = p \<Longrightarrow> length w = n \<Longrightarrow> mem_rd (A @ w @ Y) p n = Some w"
  by (simp add: mem_rd_def)

text \<open>The entries \<open>R\<close> behind \<open>A\<close> give way to \<open>m\<close> bytes, the rest \<open>Z\<close> is kept.\<close>

definition regap :: "(nat \<Rightarrow> byte) \<Rightarrow> bytes \<Rightarrow> nat \<Rightarrow> nat \<Rightarrow> nat \<Rightarrow> nat \<Rightarrow> nat \<Rightarrow> bytes option" where
  "regap junk lp p r m old_bytes new_bytes =
     do { let lp = (if new_bytes > old_bytes \<and> new_bytes > length lp then zrealloc junk lp new_bytes else lp);
          n \<leftarrow> diff_len old_bytes (p + r);
          lp \<leftarrow> mem_move lp (p + m) (p + r) n;
          Some (if new_bytes < old_bytes then zrealloc junk lp new_bytes else lp) }"

lemma regap_ok:
  assumes "lp = A @ R @ Z @ slack" "length A = p" "length R = r" "old_bytes = p + r + length Z" "new_bytes = old_bytes + m - r"
  shows "\<exists>G slack'. length G = m \<and> regap junk lp p r m old_bytes new_bytes = Some (A @ G @ Z @ slack')"
proof -
  define lp1 where "lp1 = (if new_bytes > old_bytes \<and> new_bytes > length lp then zrealloc junk lp new_bytes else lp)"
  have new: "new_bytes = p + m + length Z" using assms by simp
  have "\<exists>s1. lp1 = A @ R @ Z @ s1" using assms by (auto simp: lp1_def zrealloc_def)
  then obtain s1 where lp1: "lp1 = A @ R @ Z @ s1" by blast
  have len: "p + m + length Z \<le> length lp1" using new assms by (auto simp: lp1_def)
  define G where "G = take m (drop p lp1)"
  have G: "length G = m" "take (p + m) lp1 = A @ G" using len lp1 assms(2) by (simp_all add: G_def take_add)
  have rd: "mem_rd lp1 (p + r) (length Z) = Some Z"
    using mem_rd_exact [of "A @ R" "p + r" Z "length Z" s1] lp1 assms by simp
  have mv: "mem_move lp1 (p + m) (p + r) (length Z) = Some (A @ G @ Z @ drop (p + m + length Z) lp1)"
    using rd len G by (simp add: mem_move_def mem_wr_def add.assoc)
  have "regap junk lp p r m old_bytes new_bytes =
    Some (if new_bytes < old_bytes then zrealloc junk (A @ G @ Z @ drop (p + m + length Z) lp1) new_bytes
          else A @ G @ Z @ drop (p + m + length Z) lp1)"
    unfolding regap_def Let_def lp1_def [symmetric] using mv assms(4) by (simp add: diff_len_def)
  moreover have "zrealloc junk (A @ G @ Z @ s) new_bytes = A @ G @ Z @ []" for s
    using new G(1) assms(2) by (simp add: zrealloc_def)
  ultimately show ?thesis using G(1)
    by (intro exI [of _ G] exI [of _ "if new_bytes < old_bytes then [] else drop (p + m + length Z) lp1"]) simp
qed

section \<open>Insertion, replacement and deletion of one entry\<close>

text \<open>The bytes an element is stored as.\<close>

fun ele_bytes :: "lpEle \<Rightarrow> bytes" where
  "ele_bytes (EleStr s) = enc_ele s"
| "ele_bytes (EleInt e) = e"
| "ele_bytes EleNone = []"

lemma ele_encoded:
  "(case ele of EleStr s \<Rightarrow> (case lpEncodeGetType s of LP_ENCODING_INT e \<Rightarrow> (e, length e) | LP_ENCODING_STRING n \<Rightarrow> (lpEncodeString s, n))
     | EleInt e \<Rightarrow> (e, length e) | EleNone \<Rightarrow> ([], 0)) = (ele_bytes ele, length (ele_bytes ele))"
  by (cases ele) (auto simp: enc_ele_def lpEncodeGetType_def length_encodeString Let_def split: option.splits)

definition bump :: "nat \<Rightarrow> int \<Rightarrow> nat" where
  "bump num d = (if num \<noteq> 65535 then nat (int num + d) else num)"

text \<open>\<^verbatim>\<open>lpInsert\<close> once \<^verbatim>\<open>p\<close> and \<^verbatim>\<open>where\<close> are settled.\<close>

lemma lpInsert_store:
  assumes ele: "ele \<noteq> EleNone" and wh: "wh \<noteq> LP_AFTER"
    and lp: "lp = lp_hdr tot num @ A @ R @ Z @ slack" and tot: "tot = 6 + length A + length R + length Z" "tot < 2 ^ 32" "num \<le> 65535"
    and rep: "wh = LP_REPLACE \<Longrightarrow> lpCurrentEncodedSizeUnsafe lp (6 + length A) = Some n \<and> n + lpEncodeBacklenBytes n = length R \<and> Z \<noteq> []"
    and bef: "wh = LP_BEFORE \<Longrightarrow> R = []"
    and get: "lpGetTotalBytes lp = Some tot" and at: "p = 6 + length A"
    and new': "new' = 6 + length A + length (chunk (ele_bytes ele)) + length Z" and num': "num' = (if wh = LP_REPLACE then num else bump num 1)"
  shows "if new' < 2 ^ 32
    then \<exists>slack'. lpInsert junk lp ele p wh = Some (Some (lp_hdr new' num' @ A @ chunk (ele_bytes ele) @ Z @ slack', Some p))
    else lpInsert junk lp ele p wh = Some None"
proof -
  let ?e = "ele_bytes ele" and ?p = "6 + length A"
  define m where "m = length ?e + length (lpEncodeBacklen (length ?e))"
  define new where "new = tot + m - length R"
  have m: "length (chunk ?e) = m" by (simp add: chunk_def m_def)
  have new: "new = ?p + m + length Z" using tot by (simp add: new_def)
  define H where "H = lp_hdr tot num @ A"
  have rl: "(if wh = LP_REPLACE then do { n \<leftarrow> lpCurrentEncodedSizeUnsafe lp ?p; let n = (n + lpEncodeBacklenBytes n) mod 2 ^ 32;
      ASSERT_INTEGRITY_LEN lp ?p n; Some n } else Some 0) = Some (length R)"
  proof (cases wh)
    case LP_REPLACE
    then have "n + lpEncodeBacklenBytes n = length R" "lpCurrentEncodedSizeUnsafe lp ?p = Some n" "0 < length Z" using rep by auto
    then show ?thesis using LP_REPLACE get tot by (simp add: ASSERT_INTEGRITY_LEN_def LP_HDR_SIZE_def)
  qed (use wh bef in auto)
  obtain G slack' where G: "length G = m" "regap junk lp ?p (length R) m tot new = Some (H @ G @ Z @ slack')"
    using regap_ok [of lp H R Z slack ?p "length R" tot new m junk] lp tot by (auto simp: H_def new_def)
  obtain G1 G2 where g: "G = G1 @ G2" "length G1 = length ?e" "length G2 = length (lpEncodeBacklen (length ?e))"
    using G(1) by (metis append_take_drop_id length_take length_drop m_def add_diff_cancel_left' min.absorb2 le_add1)
  have run: "lpInsert junk lp ele ?p wh = (if new > 2 ^ 32 - 1 then Some None else do {
      lp \<leftarrow> regap junk lp ?p (length R) m tot new;
      lp \<leftarrow> mem_wr lp ?p ?e;
      lp \<leftarrow> mem_wr lp (?p + length ?e) (lpEncodeBacklen (length ?e));
      lp \<leftarrow> (if wh \<noteq> LP_REPLACE then do { num \<leftarrow> lpGetNumElements lp;
        (if num \<noteq> 65535 then lpSetNumElements lp (num + 1) else Some lp) } else Some lp);
      lp \<leftarrow> lpSetTotalBytes lp new; Some (Some (lp, Some ?p)) })"
  proof -
    have mv: "wh = LP_BEFORE \<Longrightarrow> R = []" using bef .
    show ?thesis using ele wh rl get mv
      by (cases wh) (simp_all add: lpInsert_def ele_encoded regap_def Let_def m_def new_def LP_HDR_NUMELE_UNKNOWN_def add.assoc
          cong: if_cong)
  qed
  have w: "mem_wr (H @ G @ Z @ slack') ?p ?e = Some (H @ ?e @ G2 @ Z @ slack')"
    using g mem_wr_exact [of H ?p G1 ?e "G2 @ Z @ slack'"] by (simp add: H_def)
  have w2: "mem_wr (H @ ?e @ G2 @ Z @ slack') (?p + length ?e) (lpEncodeBacklen (length ?e)) = Some (H @ chunk ?e @ Z @ slack')"
    using g mem_wr_exact [of "H @ ?e" "?p + length ?e" G2 "lpEncodeBacklen (length ?e)" "Z @ slack'"] by (simp add: H_def chunk_def)
  have n: "lpGetNumElements (lp_hdr tot num @ X) = Some num" for X
    using tot(3) by (simp add: lpGetNumElements_def rd_le_def mem_rd_def lp_hdr_def le_uint_le_bytes)
  have "new' = new" using new new' m by simp
  then show ?thesis unfolding at num' run G(2)
    using w w2 n by (auto simp: H_def set_num set_total bump_def nat_add_distrib)
qed

lemma form_le: "lp_form lp num bs slack \<Longrightarrow> num \<le> 65535"
  by (auto simp: lp_form_def num_ok_def)

lemma body_split: "k \<le> length bs \<Longrightarrow> body bs = body (take k bs) @ body (drop k bs)"
  by (metis append_take_drop_id body_simps(3))

lemma body_split3: "k < length bs \<Longrightarrow> body bs = body (take k bs) @ chunk (bs ! k) @ body (drop (Suc k) bs)"
  using arg_cong [OF id_take_nth_drop [of k bs], of body] by simp

lemma form_intro:
  assumes "list_all pay bs" "num_ok num bs" "lp_total bs < 2 ^ 32" "lp = lp_hdr (lp_total bs) num @ body bs @ LP_EOF # slack"
  shows "lp_form lp num bs slack"
  using assms by (simp add: lp_form_def)

text \<open>Insertion before the entry \<open>k\<close>, or before the terminator.\<close>

lemma form_insert_before_num:
  assumes f: "lp_form lp num bs slack" and k: "k \<le> length bs" and e: "ele \<noteq> EleNone"
  defines "bs' \<equiv> take k bs @ ele_bytes ele # drop k bs"
  assumes pay: "lp_total bs' < 2 ^ 32 \<Longrightarrow> pay (ele_bytes ele)"
  shows "if lp_total bs' < 2 ^ 32
    then \<exists>lp' slack'. lpInsert junk lp ele (off bs k) LP_BEFORE = Some (Some (lp', Some (off bs k))) \<and> lp_form lp' (bump num 1) bs' slack'
    else lpInsert junk lp ele (off bs k) LP_BEFORE = Some None"
proof -
  let ?A = "body (take k bs)" and ?Z = "body (drop k bs) @ [LP_EOF]"
  have o: "off bs k = 6 + length ?A" by (simp add: off_def)
  have t: "lp_total bs = 6 + length ?A + length ([] :: bytes) + length ?Z" using body_split [OF k] by (simp add: lp_total_def)
  have t': "lp_total bs' = 6 + length ?A + length (chunk (ele_bytes ele)) + length ?Z" by (simp add: lp_total_def bs'_def)
  have lp: "lp = lp_hdr (lp_total bs) num @ ?A @ [] @ ?Z @ slack" using lp_formD(1) [OF f] body_split [OF k] by simp
  have ins: "if lp_total bs' < 2 ^ 32 then \<exists>slack'. lpInsert junk lp ele (off bs k) LP_BEFORE =
      Some (Some (lp_hdr (lp_total bs') (bump num 1) @ ?A @ chunk (ele_bytes ele) @ ?Z @ slack', Some (off bs k)))
    else lpInsert junk lp ele (off bs k) LP_BEFORE = Some None"
    by (rule lpInsert_store [OF e _ lp t lp_formD(3) [OF f] form_le [OF f] _ _ form_total [OF f] o t']) simp_all
  have "lp_form (lp_hdr (lp_total bs') (bump num 1) @ ?A @ chunk (ele_bytes ele) @ ?Z @ slack') (bump num 1) bs' slack'"
    if "lp_total bs' < 2 ^ 32" for slack'
  proof (rule form_intro)
    show "list_all pay bs'" using pay [OF that] list_all_take_drop [OF lp_formD(4) [OF f], of k] by (simp add: bs'_def)
    show "num_ok (bump num 1) bs'" using lp_formD(2) [OF f] k by (auto simp: num_ok_def bump_def bs'_def)
  qed (use that in \<open>simp_all add: bs'_def\<close>)
  then show ?thesis using ins by (cases "lp_total bs' < 2 ^ 32") (simp only: if_True if_False; blast)+
qed

lemma form_insert_before:
  assumes f: "lp_form lp num bs slack" and k: "k \<le> length bs" and e: "ele \<noteq> EleNone"
  defines "bs' \<equiv> take k bs @ ele_bytes ele # drop k bs"
  assumes pay: "lp_total bs' < 2 ^ 32 \<Longrightarrow> pay (ele_bytes ele)"
  shows "if lp_total bs' < 2 ^ 32
    then \<exists>lp' num' slack'. lpInsert junk lp ele (off bs k) LP_BEFORE = Some (Some (lp', Some (off bs k))) \<and> lp_form lp' num' bs' slack'
    else lpInsert junk lp ele (off bs k) LP_BEFORE = Some None"
  using form_insert_before_num [OF f k e, of junk] pay by (cases "lp_total bs' < 2 ^ 32") (auto simp: bs'_def)

text \<open>After the entry \<open>k\<close>.\<close>

lemma lpInsert_after:
  assumes "lp_form lp num bs slack" "k < length bs" "ele \<noteq> EleNone"
  shows "lpInsert junk lp ele (off bs k) LP_AFTER = lpInsert junk lp ele (off bs (Suc k)) LP_BEFORE"
proof -
  have "ASSERT_INTEGRITY lp (off bs (Suc k)) = Some ()"
    using form_total [OF assms(1)] off_ge [of bs "Suc k"] off_less_total [of bs "Suc k"] by (simp add: ASSERT_INTEGRITY_def LP_HDR_SIZE_def)
  then show ?thesis using assms(3) form_skip [OF assms(1,2)] by (simp add: lpInsert_def Let_def)
qed

text \<open>In place of the entry \<open>k\<close>.\<close>

lemma form_replace:
  assumes f: "lp_form lp num bs slack" and k: "k < length bs" and e: "ele \<noteq> EleNone"
  defines "bs' \<equiv> bs[k := ele_bytes ele]"
  assumes pay: "lp_total bs' < 2 ^ 32 \<Longrightarrow> pay (ele_bytes ele)"
  shows "if lp_total bs' < 2 ^ 32
    then \<exists>lp' num' slack'. lpInsert junk lp ele (off bs k) LP_REPLACE = Some (Some (lp', Some (off bs k))) \<and> lp_form lp' num' bs' slack'
    else lpInsert junk lp ele (off bs k) LP_REPLACE = Some None"
proof -
  let ?A = "body (take k bs)" and ?Z = "body (drop (Suc k) bs) @ [LP_EOF]"
  have o: "off bs k = 6 + length ?A" by (simp add: off_def)
  have b: "body bs' = ?A @ chunk (ele_bytes ele) @ body (drop (Suc k) bs)" using k by (simp add: bs'_def upd_conv_take_nth_drop)
  have t: "lp_total bs = 6 + length ?A + length (chunk (bs ! k)) + length ?Z" using body_split3 [OF k] by (simp add: lp_total_def)
  have t': "lp_total bs' = 6 + length ?A + length (chunk (ele_bytes ele)) + length ?Z" by (simp add: lp_total_def b)
  have lp: "lp = lp_hdr (lp_total bs) num @ ?A @ chunk (bs ! k) @ ?Z @ slack" using lp_formD(1) [OF f] body_split3 [OF k] by simp
  have sz: "lpCurrentEncodedSizeUnsafe lp (6 + length ?A) = Some (length (bs ! k)) \<and>
    length (bs ! k) + lpEncodeBacklenBytes (length (bs ! k)) = length (chunk (bs ! k)) \<and> ?Z \<noteq> []"
    using pay_size [OF form_piece [OF f k] form_pay [OF f k]] by (simp add: o length_chunk)
  have ins: "if lp_total bs' < 2 ^ 32 then \<exists>slack'. lpInsert junk lp ele (off bs k) LP_REPLACE =
      Some (Some (lp_hdr (lp_total bs') num @ ?A @ chunk (ele_bytes ele) @ ?Z @ slack', Some (off bs k)))
    else lpInsert junk lp ele (off bs k) LP_REPLACE = Some None"
    by (rule lpInsert_store [OF e _ lp t lp_formD(3) [OF f] form_le [OF f] sz _ form_total [OF f] o t']) simp_all
  have "lp_form (lp_hdr (lp_total bs') num @ ?A @ chunk (ele_bytes ele) @ ?Z @ slack') num bs' slack'" if "lp_total bs' < 2 ^ 32" for slack'
  proof (rule form_intro)
    show "list_all pay bs'" using pay [OF that] lp_formD(4) [OF f] by (auto simp: bs'_def list_all_iff dest!: set_update_subset_insert [THEN subsetD])
    show "num_ok num bs'" using lp_formD(2) [OF f] by (simp add: num_ok_def bs'_def)
  qed (use that in \<open>simp_all add: b\<close>)
  then show ?thesis using ins by (cases "lp_total bs' < 2 ^ 32") (simp only: if_True if_False; blast)+
qed

text \<open>Deletion of the entry \<open>k\<close>.\<close>

lemma lpInsert_delete:
  assumes lp: "lp = lp_hdr tot num @ A @ R @ Z @ slack" and tot: "tot = 6 + length A + length R + length Z" "tot < 2 ^ 32" "num \<le> 65535"
    and num: "1 \<le> num" and Z: "Z \<noteq> []"
    and sz: "lpCurrentEncodedSizeUnsafe lp p = Some n" "n + lpEncodeBacklenBytes n = length R"
    and get: "lpGetTotalBytes lp = Some tot" and at: "p = 6 + length A"
  shows "\<exists>slack'. lpInsert junk lp EleNone p wh =
    Some (Some (lp_hdr (tot - length R) (bump num (-1)) @ A @ Z @ slack', if hd Z = LP_EOF then None else Some p))"
proof -
  define H where "H = lp_hdr tot num @ A"
  have rl: "do { n \<leftarrow> lpCurrentEncodedSizeUnsafe lp p; let n = (n + lpEncodeBacklenBytes n) mod 2 ^ 32;
      ASSERT_INTEGRITY_LEN lp p n; Some n } = Some (length R)"
  proof -
    have "0 < length Z" using Z by simp
    then show ?thesis using sz get tot at by (simp add: ASSERT_INTEGRITY_LEN_def LP_HDR_SIZE_def)
  qed
  obtain slack' where G: "regap junk lp p (length R) 0 tot (tot - length R) = Some (H @ Z @ slack')"
    using regap_ok [of lp H R Z slack p "length R" tot "tot - length R" 0 junk] lp tot at by (auto simp: H_def)
  have run: "lpInsert junk lp EleNone p wh = do {
      lp \<leftarrow> regap junk lp p (length R) 0 tot (tot - length R);
      newp \<leftarrow> do { b \<leftarrow> rdb lp p; Some (if b = LP_EOF then None else Some p) };
      lp \<leftarrow> do { num \<leftarrow> lpGetNumElements lp;
        (if num \<noteq> 65535 then lpSetNumElements lp (nat ((int num - 1) mod 2 ^ 32)) else Some lp) };
      lp \<leftarrow> lpSetTotalBytes lp (tot - length R); Some (Some (lp, newp)) }"
    using rl get tot by (simp add: lpInsert_def regap_def Let_def LP_HDR_NUMELE_UNKNOWN_def cong: if_cong)
  have n: "lpGetNumElements (lp_hdr tot num @ X) = Some num" for X
    using tot(3) by (simp add: lpGetNumElements_def rd_le_def mem_rd_def lp_hdr_def le_uint_le_bytes)
  have "(int num - 1) mod 2 ^ 32 = int num - 1" using num tot(3) by simp
  moreover have "rdb (H @ Z @ slack') p = Some (hd Z)"
    using Z at by (auto simp: rdb_def nth_append H_def hd_conv_nth)
  ultimately show ?thesis unfolding run G using n
    by (auto simp: H_def set_num set_total bump_def)
qed

lemma form_delete:
  assumes f: "lp_form lp num bs slack" and k: "k < length bs"
  defines "bs' \<equiv> take k bs @ drop (Suc k) bs"
  shows "\<exists>lp' num' slack'. lpDelete junk lp (off bs k) = Some (Some (lp', entry_at bs' k)) \<and> lp_form lp' num' bs' slack'"
proof -
  let ?A = "body (take k bs)" and ?Z = "body (drop (Suc k) bs) @ [LP_EOF]"
  have o: "off bs k = 6 + length ?A" by (simp add: off_def)
  have t: "lp_total bs = 6 + length ?A + length (chunk (bs ! k)) + length ?Z" using body_split3 [OF k] by (simp add: lp_total_def)
  have t': "lp_total bs' = lp_total bs - length (chunk (bs ! k))" using t by (simp add: lp_total_def bs'_def)
  have lp: "lp = lp_hdr (lp_total bs) num @ ?A @ chunk (bs ! k) @ ?Z @ slack" using lp_formD(1) [OF f] body_split3 [OF k] by simp
  have num: "1 \<le> num" using lp_formD(2) [OF f] k by (auto simp: num_ok_def)
  have hd: "(if hd ?Z = LP_EOF then None else Some (off bs k)) = entry_at bs' k"
  proof (cases "Suc k < length bs")
    case True
    then have d: "drop (Suc k) bs = bs ! Suc k # drop (Suc (Suc k)) bs" by (simp add: Cons_nth_drop_Suc)
    have "pay (bs ! Suc k)" using form_pay [OF f True] .
    then have "hd ?Z \<noteq> LP_EOF" using pay_class [of "bs ! Suc k"] by (auto simp: d chunk_def pay_def)
    then show ?thesis using True k by (simp add: entry_at_def bs'_def off_def)
  next
    case False
    then show ?thesis using k by (simp add: entry_at_def bs'_def)
  qed
  obtain slack' where ins: "lpInsert junk lp EleNone (off bs k) LP_REPLACE =
    Some (Some (lp_hdr (lp_total bs') (bump num (-1)) @ ?A @ ?Z @ slack', entry_at bs' k))"
    using lpInsert_delete [OF lp t lp_formD(3) [OF f] form_le [OF f] num _ pay_size [OF form_piece [OF f k] form_pay [OF f k]]
        length_chunk [symmetric] form_total [OF f] o, of junk LP_REPLACE] unfolding t' hd by auto
  have "lp_form (lp_hdr (lp_total bs') (bump num (-1)) @ ?A @ ?Z @ slack') (bump num (-1)) bs' slack'"
  proof (rule form_intro)
    show "list_all pay bs'" using list_all_take_drop [OF lp_formD(4) [OF f], of k] list_all_take_drop [OF lp_formD(4) [OF f], of "Suc k"]
      by (simp add: bs'_def)
    show "num_ok (bump num (-1)) bs'" using lp_formD(2) [OF f] k by (auto simp: num_ok_def bump_def bs'_def)
    show "lp_total bs' < 2 ^ 32" using t' lp_formD(3) [OF f] by simp
  qed (simp add: bs'_def)
  then show ?thesis using ins unfolding lpDelete_def by blast
qed

section \<open>Batches\<close>

definition entry_bytes :: "listpackEntry \<Rightarrow> bytes" where
  "entry_bytes e = (case e of SVal s \<Rightarrow> enc_ele s | LVal v \<Rightarrow> lpEncodeIntegerGetType v)"

lemma lpEncodeEntry_eq: "lpEncodeEntry e = (entry_bytes e, lpEncodeBacklen (length (entry_bytes e)))"
  by (simp add: lpEncodeEntry_def entry_bytes_def enc_ele_def Let_def cong: listpackEntry.case_cong)

lemma lpEncodeEntries_eq: "lpEncodeEntries es = (map lpEncodeEntry es, length (body (map entry_bytes es)))"
  by (induction es) (simp_all add: lpEncodeEntry_eq chunk_def Let_def)

lemma lpWriteEntries_ok:
  assumes "length G = length (body (map entry_bytes es))" "length H = p"
  shows "lpWriteEntries (H @ G @ Y) p (map lpEncodeEntry es) newp =
    Some (H @ body (map entry_bytes es) @ Y, p + length G,
      if es = [] then newp else Some (p + length (body (map entry_bytes (butlast es)))))"
  using assms
proof (induction es arbitrary: G H p newp)
  case (Cons e es)
  let ?b = "entry_bytes e"
  obtain G1 G2 G3 where g: "G = G1 @ G2 @ G3" "length G1 = length ?b" "length G2 = length (lpEncodeBacklen (length ?b))"
    "length G3 = length (body (map entry_bytes es))"
  proof
    let ?n = "length ?b" and ?m = "length (lpEncodeBacklen (length ?b))"
    show "G = take ?n G @ take ?m (drop ?n G) @ drop ?m (drop ?n G)" by (simp only: append_take_drop_id)
  qed (use Cons.prems(1) in \<open>simp_all add: chunk_def\<close>)
  have w1: "mem_wr (H @ G @ Y) p ?b = Some (H @ ?b @ G2 @ G3 @ Y)"
    using mem_wr_exact [of H p G1 ?b "G2 @ G3 @ Y"] g Cons.prems(2) by simp
  have w2: "mem_wr (H @ ?b @ G2 @ G3 @ Y) (p + length ?b) (lpEncodeBacklen (length ?b)) = Some ((H @ chunk ?b) @ G3 @ Y)"
    using mem_wr_exact [of "H @ ?b" "p + length ?b" G2 "lpEncodeBacklen (length ?b)" "G3 @ Y"] g Cons.prems(2) by (simp add: chunk_def)
  have "p + length ?b + length (lpEncodeBacklen (length ?b)) = p + length (chunk ?b)" by (simp add: chunk_def)
  then show ?case using w1 w2 Cons.IH [OF g(4), of "H @ chunk ?b" "p + length (chunk ?b)" "Some p"] Cons.prems g(1-3)
    by (simp add: lpEncodeEntry_eq chunk_def add.assoc)
qed simp

definition bump_many :: "nat \<Rightarrow> nat \<Rightarrow> nat" where
  "bump_many num n = (if num \<noteq> 65535 then (if n > 65535 - num then 65535 else num + n) else num)"

lemma get_num_hdr: "num \<le> 65535 \<Longrightarrow> lpGetNumElements (lp_hdr tot num @ X) = Some num"
  by (simp add: lpGetNumElements_def rd_le_def mem_rd_def lp_hdr_def le_uint_le_bytes)

lemma form_batch_before_num:
  assumes f: "lp_form lp num bs slack" and k: "k \<le> length bs" and e: "es \<noteq> []"
  defines "bs' \<equiv> take k bs @ map entry_bytes es @ drop k bs"
  assumes pay: "lp_total bs' < 2 ^ 32 \<Longrightarrow> list_all pay (map entry_bytes es)"
  shows "if lp_total bs' < 2 ^ 32
    then \<exists>lp' slack'. lpBatchInsert junk lp (off bs k) LP_BEFORE es = Some (Some (lp', Some (off bs' (k + length es - 1))))
      \<and> lp_form lp' (bump_many num (length es)) bs' slack'
    else lpBatchInsert junk lp (off bs k) LP_BEFORE es = Some None"
proof -
  let ?A = "body (take k bs)" and ?Z = "body (drop k bs) @ [LP_EOF]" and ?W = "body (map entry_bytes es)"
  define H where "H = lp_hdr (lp_total bs) num @ ?A"
  have o: "off bs k = length H" by (simp add: off_def H_def)
  have t': "lp_total bs' = lp_total bs + length ?W" using body_split [OF k] by (simp add: lp_total_def bs'_def)
  have lp: "lp = H @ [] @ ?Z @ slack" using lp_formD(1) [OF f] body_split [OF k] by (simp add: H_def)
  have t: "lp_total bs = off bs k + 0 + length ?Z" using body_split [OF k] by (simp add: lp_total_def off_def)
  obtain G slack' where G: "length G = length ?W" "regap junk lp (off bs k) 0 (length ?W) (lp_total bs) (lp_total bs') = Some (H @ G @ ?Z @ slack')"
    using regap_ok [OF lp o [symmetric] _ t, of "lp_total bs'" "length ?W" junk] t' by auto
  have run: "lpBatchInsert junk lp (off bs k) LP_BEFORE es = (if lp_total bs' > 2 ^ 32 - 1 then Some None else do {
      lp \<leftarrow> regap junk lp (off bs k) 0 (length ?W) (lp_total bs) (lp_total bs');
      (lp, _, newp) \<leftarrow> lpWriteEntries lp (off bs k) (map lpEncodeEntry es) None;
      num \<leftarrow> lpGetNumElements lp;
      lp \<leftarrow> (if num \<noteq> 65535 then lpSetNumElements lp (if int (length es) > 65535 - int num then 65535 else num + length es) else Some lp);
      lp \<leftarrow> lpSetTotalBytes lp (lp_total bs'); Some (Some (lp, newp)) })"
    using e form_total [OF f] t'
    by (simp add: lpBatchInsert_def regap_def lpEncodeEntries_eq Let_def LP_HDR_NUMELE_UNKNOWN_def cong: if_cong)
  have last: "off bs k + length (body (map entry_bytes (butlast es))) = off bs' (k + length es - 1)"
  proof -
    have "k + length es - 1 = k + (length es - 1)" using e by (cases es) auto
    then have "take (k + length es - 1) bs' = take k bs @ map entry_bytes (butlast es)"
      using k by (simp add: bs'_def butlast_conv_take take_map)
    then show ?thesis by (simp add: off_def)
  qed
  have w: "lpWriteEntries (H @ G @ ?Z @ slack') (off bs k) (map lpEncodeEntry es) None =
    Some (H @ ?W @ ?Z @ slack', off bs k + length G, Some (off bs' (k + length es - 1)))"
    using lpWriteEntries_ok [OF G(1) o [symmetric], of "?Z @ slack'" None] e last by simp
  have ins: "if lp_total bs' < 2 ^ 32 then lpBatchInsert junk lp (off bs k) LP_BEFORE es =
      Some (Some (lp_hdr (lp_total bs') (bump_many num (length es)) @ ?A @ ?W @ ?Z @ slack', Some (off bs' (k + length es - 1))))
    else lpBatchInsert junk lp (off bs k) LP_BEFORE es = Some None"
    unfolding run G(2) using w form_le [OF f]
    by (auto simp: H_def get_num_hdr set_num set_total bump_many_def)
  have "lp_form (lp_hdr (lp_total bs') (bump_many num (length es)) @ ?A @ ?W @ ?Z @ slack') (bump_many num (length es)) bs' slack'"
    if "lp_total bs' < 2 ^ 32"
  proof (rule form_intro)
    show "list_all pay bs'" using pay [OF that] list_all_take_drop [OF lp_formD(4) [OF f], of k] by (simp add: bs'_def)
    show "num_ok (bump_many num (length es)) bs'" using lp_formD(2) [OF f] k by (auto simp: num_ok_def bump_many_def bs'_def)
  qed (use that in \<open>simp_all add: bs'_def\<close>)
  then show ?thesis using ins by (cases "lp_total bs' < 2 ^ 32") (simp only: if_True if_False; blast)+
qed

lemma form_batch_before:
  assumes f: "lp_form lp num bs slack" and k: "k \<le> length bs" and e: "es \<noteq> []"
  defines "bs' \<equiv> take k bs @ map entry_bytes es @ drop k bs"
  assumes pay: "lp_total bs' < 2 ^ 32 \<Longrightarrow> list_all pay (map entry_bytes es)"
  shows "if lp_total bs' < 2 ^ 32
    then \<exists>lp' num' slack'. lpBatchInsert junk lp (off bs k) LP_BEFORE es = Some (Some (lp', Some (off bs' (k + length es - 1))))
      \<and> lp_form lp' num' bs' slack'
    else lpBatchInsert junk lp (off bs k) LP_BEFORE es = Some None"
  using form_batch_before_num [OF f k e, of junk] pay by (cases "lp_total bs' < 2 ^ 32") (auto simp: bs'_def)

lemma lpBatchInsert_after:
  assumes "lp_form lp num bs slack" "k < length bs"
  shows "lpBatchInsert junk lp (off bs k) LP_AFTER es = lpBatchInsert junk lp (off bs (Suc k)) LP_BEFORE es"
proof -
  have "ASSERT_INTEGRITY lp (off bs (Suc k)) = Some ()"
    using form_total [OF assms(1)] off_ge [of bs "Suc k"] off_less_total [of bs "Suc k"] by (simp add: ASSERT_INTEGRITY_def LP_HDR_SIZE_def)
  then show ?thesis using form_skip [OF assms] by (simp add: lpBatchInsert_def)
qed

section \<open>New listpacks\<close>

lemma set_hdr:
  assumes "length X = 6"
  shows "lpSetNumElements (X @ Y) n = Some (take 4 X @ le_bytes 2 (int n) @ Y)"
    "lpSetTotalBytes (take 4 X @ le_bytes 2 (int n) @ Y) t = Some (lp_hdr t n @ Y)"
    "lpSetTotalBytes (X @ Y) t = Some (le_bytes 4 (int t) @ drop 4 X @ Y)"
    "lpSetNumElements (le_bytes 4 (int t) @ drop 4 X @ Y) n = Some (lp_hdr t n @ Y)"
  using assms by (simp_all add: lpSetNumElements_def lpSetTotalBytes_def mem_wr_def lp_hdr_def)

lemma lpNew_form: "\<exists>lp slack. lpNew junk capacity = Some lp \<and> lp_form lp 0 [] slack"
proof -
  define n where "n = (if capacity > 7 then capacity else 7)"
  define z where "z = zrealloc junk [] n"
  have z: "z = take 6 z @ [z ! 6] @ drop 7 z" "length (take 6 z) = 6"
    using id_take_nth_drop [of 6 z] by (simp_all add: z_def n_def)
  have 1: "lpSetTotalBytes z 7 = Some (le_bytes 4 (int 7) @ drop 4 (take 6 z) @ [z ! 6] @ drop 7 z)"
    using set_hdr(3) [OF z(2), of "[z ! 6] @ drop 7 z" 7] z(1) by simp
  have 2: "lpSetNumElements (le_bytes 4 (int 7) @ drop 4 (take 6 z) @ [z ! 6] @ drop 7 z) 0 = Some (lp_hdr 7 0 @ [z ! 6] @ drop 7 z)"
    by (rule set_hdr(4) [OF z(2)])
  have 3: "mem_wr (lp_hdr 7 0 @ [z ! 6] @ drop 7 z) 6 [LP_EOF] = Some (lp_hdr 7 0 @ [LP_EOF] @ drop 7 z)"
    by (rule mem_wr_exact) simp_all
  have "lpNew junk capacity = do { lp \<leftarrow> lpSetTotalBytes z 7; lp \<leftarrow> lpSetNumElements lp 0; mem_wr lp 6 [LP_EOF] }"
    by (simp add: lpNew_def z_def n_def LP_HDR_SIZE_def)
  then have "lpNew junk capacity = Some (lp_hdr 7 0 @ [LP_EOF] @ drop 7 z)" unfolding 1 bind.bind_lunit 2 3 .
  then show ?thesis by (auto simp: lp_form_def num_ok_def lp_total_def)
qed

end
