(* ===== verification/Listpack_Bulk.thy ===== *)
theory Listpack_Bulk
  imports Listpack_Edit
begin

text \<open>
  The operations of \<^verbatim>\<open>src/listpack.c\<close> on many entries at once: creation from a batch, deletion of ranges and of batches,
  merging, copying and shrinking.
\<close>

lemma lpNewWithEntries_form:
  assumes e: "es \<noteq> []"
  defines "bs \<equiv> map entry_bytes es"
  assumes pay: "lp_total bs < 2 ^ 32 \<Longrightarrow> list_all pay bs"
  shows "if lp_total bs < 2 ^ 32 then \<exists>lp num slack. lpNewWithEntries junk es = Some (Some lp) \<and> lp_form lp num bs slack
    else lpNewWithEntries junk es = Some None"
proof -
  define z where "z = zrealloc junk [] (lp_total bs)"
  define X G y where "X = take 6 z" and "G = take (length (body bs)) (drop 6 z)" and "y = drop (lp_total bs - 1) z"
  have len: "length z = 6 + length (body bs) + 1" by (simp add: z_def lp_total_def)
  have X: "length X = 6" "length G = length (body bs)" "length y = 1" using len by (simp_all add: X_def G_def y_def lp_total_def)
  have z: "z = X @ G @ y"
  proof -
    have "drop (length (body bs)) (drop 6 z) = y" by (simp add: y_def lp_total_def add.commute)
    then show ?thesis unfolding X_def G_def by (metis append_take_drop_id)
  qed
  define n where "n = (if length es \<ge> 65535 then 65535 else length es)"
  have run: "lpNewWithEntries junk es = (if lp_total bs > 2 ^ 32 - 1 then Some None else do {
      (lp, tail, _) \<leftarrow> lpWriteEntries z 6 (map lpEncodeEntry es) None;
      lp \<leftarrow> mem_wr lp tail [LP_EOF];
      lp \<leftarrow> lpSetNumElements lp n;
      lp \<leftarrow> lpSetTotalBytes lp (lp_total bs);
      Some (Some lp) })"
    using e by (simp add: lpNewWithEntries_def lpEncodeEntries_eq bs_def z_def lp_total_def LP_HDR_SIZE_def LP_HDR_NUMELE_UNKNOWN_def n_def Let_def)
  have w1: "\<exists>np. lpWriteEntries z 6 (map lpEncodeEntry es) None = Some (X @ body bs @ y, 6 + length (body bs), np)"
    unfolding z using lpWriteEntries_ok [of G es X 6 y None] X by (simp add: bs_def)
  have w2: "mem_wr (X @ body bs @ y) (6 + length (body bs)) [LP_EOF] = Some (X @ body bs @ [LP_EOF])"
    using mem_wr_exact [of "X @ body bs" "6 + length (body bs)" y "[LP_EOF]" "[]"] X by simp
  have "lpNewWithEntries junk es = (if lp_total bs > 2 ^ 32 - 1 then Some None else Some (Some (lp_hdr (lp_total bs) n @ body bs @ [LP_EOF])))"
    unfolding run using w1 w2 set_hdr(1) [OF X(1), of "body bs @ [LP_EOF]" n] set_hdr(2) [OF X(1), of n "body bs @ [LP_EOF]" "lp_total bs"] by auto
  moreover have "num_ok n bs" by (auto simp: n_def num_ok_def bs_def)
  ultimately show ?thesis using pay by (auto simp: lp_form_def)
qed

section \<open>Shrinking and copying\<close>

lemma form_shrink:
  assumes "lp_form lp num bs slack"
  shows "lpShrinkToFit junk lp = Some (lp_hdr (lp_total bs) num @ body bs @ [LP_EOF])"
  using form_total [OF assms] lp_formD(1) [OF assms] by (cases slack) (auto simp: lpShrinkToFit_def zrealloc_def lp_total_def)

lemma form_shrink_form:
  assumes "lp_form lp num bs slack"
  shows "\<exists>lp'. lpShrinkToFit junk lp = Some lp' \<and> lp_form lp' num bs []"
  using form_shrink [OF assms] assms by (auto simp: lp_form_def)

lemma form_dup: "lp_form lp num bs slack \<Longrightarrow> \<exists>lp'. lpDup lp = Some lp' \<and> lp_form lp' num bs []"
proof -
  assume f: "lp_form lp num bs slack"
  have "mem_rd lp 0 (lp_total bs) = Some (lp_hdr (lp_total bs) num @ body bs @ [LP_EOF])"
    using lp_formD(1) [OF f] by (simp add: mem_rd_def lp_total_def)
  then show ?thesis using f by (auto simp: lpDup_def form_bytes lp_form_def)
qed

section \<open>Deletion of a range\<close>

lemma delete_range_loop_ok:
  "lp_form lp num bs slack \<Longrightarrow> k < length bs \<Longrightarrow>
   delete_range_loop lp (lp_total bs) (off bs k) n d = Some (off bs (k + min n (length bs - k)), d + min n (length bs - k))"
proof (induction n arbitrary: k d)
  case (Suc n)
  obtain b where b: "rdb lp (off bs (Suc k)) = Some b" "b = LP_EOF \<longleftrightarrow> Suc k = length bs"
    using form_rdb_eof [OF Suc.prems(1), of "Suc k"] Suc.prems(2) by auto
  have s: "lpSkip lp (off bs k) = Some (off bs (Suc k))" by (rule form_skip [OF Suc.prems])
  show ?case
  proof (cases "Suc k = length bs")
    case True
    then have "length bs - k = 1" by linarith
    then show ?thesis using s b True by (simp add: min_def)
  next
    case False
    then have "Suc k < length bs" using Suc.prems(2) by simp
    moreover have "min (Suc n) (length bs - k) = Suc (min n (length bs - Suc k))" using calculation by linarith
    ultimately show ?thesis using s b form_assert [OF Suc.prems(1), of "Suc k"] Suc.IH [OF Suc.prems(1), of "Suc k" "Suc d"] by simp
  qed
qed simp

definition cut_at :: "bytes list \<Rightarrow> nat \<Rightarrow> nat \<Rightarrow> bytes list" where
  "cut_at bs k n = take k bs @ drop (k + n) bs"

lemma hd_rest: "list_all pay bs \<Longrightarrow> (hd (body bs @ LP_EOF # xs) = LP_EOF) \<longleftrightarrow> bs = []"
  using pay_class [of "hd bs"] by (cases bs) (auto simp: chunk_def pay_def)

lemma rdb_at: "length H = p \<Longrightarrow> Z \<noteq> [] \<Longrightarrow> rdb (H @ Z) p = Some (hd Z)"
  by (auto simp: rdb_def nth_append hd_conv_nth)

lemma form_delete_range:
  assumes f: "lp_form lp num bs slack" and k: "k < length bs" and n: "0 < n"
  shows "\<exists>lp' num'. lpDeleteRangeWithEntry junk lp (off bs k) n = Some (lp', entry_at (cut_at bs k n) k) \<and> lp_form lp' num' (cut_at bs k n) []"
proof -
  define d where "d = min n (length bs - k)"
  define bs' where "bs' = cut_at bs k n"
  have d: "drop (k + n) bs = drop (k + d) bs" "k + d \<le> length bs" "1 \<le> d" using k n by (auto simp: d_def min_def)
  let ?A = "body (take k bs)" and ?Z = "body (drop (k + d) bs) @ [LP_EOF]" and ?R = "body (take d (drop k bs))"
  have bs': "bs' = take k bs @ drop (k + d) bs" by (simp add: bs'_def cut_at_def d(1))
  have b: "body bs = ?A @ ?R @ body (drop (k + d) bs)"
  proof -
    have "bs = take k bs @ take d (drop k bs) @ drop (k + d) bs" by (metis append_take_drop_id drop_drop add.commute)
    then show ?thesis using body_simps(3) by metis
  qed
  define H where "H = lp_hdr (lp_total bs) num @ ?A"
  have H: "length H = off bs k" by (simp add: H_def off_def)
  have o: "off bs (k + d) = off bs k + length ?R" using k d(2) by (simp add: off_def take_add)
  have lp: "lp = H @ ?R @ ?Z @ slack" using lp_formD(1) [OF f] b by (simp add: H_def)
  have t: "lp_total bs = off bs (k + d) + length ?Z" using b o by (simp add: lp_total_def off_def)
  have t': "lp_total bs - (off bs (k + d) - off bs k) = lp_total bs'" using o b by (simp add: lp_total_def bs')
  obtain s' where mv: "mem_move lp (off bs k) (off bs (k + d)) (length ?Z) = Some (H @ ?Z @ s')"
  proof -
    have "mem_rd lp (off bs (k + d)) (length ?Z) = Some ?Z"
      using mem_rd_exact [of "H @ ?R" "off bs (k + d)" ?Z "length ?Z" slack] lp H o by simp
    moreover have "mem_wr lp (off bs k) ?Z = Some (H @ ?Z @ drop (off bs k + length ?Z) lp)"
      using lp H by (simp add: mem_wr_def)
    ultimately show ?thesis using that by (simp add: mem_move_def)
  qed
  define num' where "num' = (if num \<noteq> 65535 then num - d else num)"
  have nm: "nat ((int num - int d) mod 2 ^ 32) = num - d" if "num \<noteq> 65535"
  proof -
    have "d \<le> num" "num < 65535" using that lp_formD(2) [OF f] d(2) by (auto simp: num_ok_def)
    then show ?thesis by (simp add: nat_diff_distrib)
  qed
  have f': "lp_form (lp_hdr (lp_total bs') num' @ ?A @ ?Z @ s') num' bs' s'"
  proof (rule form_intro)
    show "list_all pay bs'" using list_all_take_drop [OF lp_formD(4) [OF f]] by (simp add: bs')
    show "num_ok num' bs'" using lp_formD(2) [OF f] k d by (auto simp: num_ok_def num'_def bs' min_def)
    show "lp_total bs' < 2 ^ 32" using t' lp_formD(3) [OF f] by simp
  qed (simp add: bs')
  have sh: "lpShrinkToFit junk (lp_hdr (lp_total bs') num' @ ?A @ ?Z @ s') = Some (lp_hdr (lp_total bs') num' @ ?A @ ?Z)"
    using form_shrink [OF f', of junk] by (simp add: bs')
  have f2: "lp_form (lp_hdr (lp_total bs') num' @ ?A @ ?Z) num' bs' []" using f' by (simp add: lp_form_def bs')
  have e: "(rdb (lp_hdr (lp_total bs') num' @ ?A @ ?Z) (off bs k) = Some (hd ?Z))" using rdb_at [of "lp_hdr (lp_total bs') num' @ ?A" "off bs k" ?Z] by (simp add: off_def)
  have ea: "(if hd ?Z = LP_EOF then None else Some (off bs k)) = entry_at bs' k"
    using hd_rest [of "drop (k + d) bs" "[]"] list_all_take_drop [OF lp_formD(4) [OF f], of "k + d"] k d(2)
    by (auto simp: entry_at_def bs' off_def)
  show ?thesis
    using n form_bytes [OF f] delete_range_loop_ok [OF f k, of n 0] mv t t' f2 e ea sh nm form_le [OF f]
    unfolding d_def [symmetric] bs'_def [symmetric]
    by (auto simp: lpDeleteRangeWithEntry_def diff_len_def H_def set_total get_num_hdr set_num LP_HDR_NUMELE_UNKNOWN_def num'_def)
qed

text \<open>By index: the entries from the index on, or all that are left.\<close>

lemma form_deleteRange:
  assumes f: "lp_form lp num bs slack"
  shows "\<exists>lp' num' slack'. lpDeleteRange junk lp i n = Some lp' \<and>
    lp_form lp' num' (case seek_index bs i of None \<Rightarrow> bs | Some k \<Rightarrow> cut_at bs k n) slack'"
proof (cases "n = 0 \<or> seek_index bs i = None")
  case True
  have "cut_at bs k 0 = bs" for k by (simp add: cut_at_def)
  then show ?thesis using True f form_num [OF f] form_seek [OF f, of i] by (auto simp: lpDeleteRange_def split: option.splits)
next
  case False
  then obtain k where k: "seek_index bs i = Some k" and n: "0 < n" by auto
  have kl: "k < length bs" "int k = (if i < 0 then int (length bs) + i else i)"
    using k by (auto simp: seek_index_def Let_def split: if_splits)
  show ?thesis
  proof (cases "num \<noteq> 65535 \<and> length bs - k \<le> n")
    case True
    then have num: "num = length bs" using lp_formD(2) [OF f] by (simp add: num_ok_def)
    have "length bs \<le> k + n" using True by linarith
    then have c: "cut_at bs k n = take k bs" by (simp add: cut_at_def)
    obtain x X where x: "body (drop k bs) = x # X"
    proof -
      have "bs ! k \<noteq> []" using form_pay [OF f kl(1)] by (simp add: pay_def)
      then show ?thesis using that kl(1) by (cases "bs ! k") (auto simp: Cons_nth_drop_Suc [symmetric] chunk_def)
    qed
    let ?A = "body (take k bs)"
    have lp: "lp = lp_hdr (lp_total bs) num @ ?A @ [x] @ X @ LP_EOF # slack"
      using lp_formD(1) [OF f] body_split [of k bs] kl(1) x by simp
    have w: "mem_wr lp (off bs k) [LP_EOF] = Some (lp_hdr (lp_total bs) num @ ?A @ [LP_EOF] @ X @ LP_EOF # slack)"
      using mem_wr_exact [of "lp_hdr (lp_total bs) num @ ?A" "off bs k" "[x]" "[LP_EOF]" "X @ LP_EOF # slack"] lp by (simp add: off_def)
    have t: "off bs k + 1 = lp_total (take k bs)" by (simp add: off_def lp_total_def)
    define lp1 where "lp1 = lp_hdr (lp_total (take k bs)) k @ ?A @ [LP_EOF] @ X @ LP_EOF # slack"
    have f1: "lp_form lp1 k (take k bs) (X @ LP_EOF # slack)"
    proof (rule form_intro)
      show "list_all pay (take k bs)" using list_all_take_drop [OF lp_formD(4) [OF f]] by simp
      show "num_ok k (take k bs)" using num True kl lp_formD(2) [OF f] by (auto simp: num_ok_def)
      show "lp_total (take k bs) < 2 ^ 32" using t off_less_total [of bs k] lp_formD(3) [OF f] by simp
    qed (simp add: lp1_def)
    have m: "(int num - int k) mod 2 ^ 64 \<le> int n"
    proof -
      have "(int num - int k) mod 2 ^ 64 \<le> int num - int k" using kl num by (intro zmod_le_nonneg_dividend) simp
      then show ?thesis using True num by linarith
    qed
    have "lpDeleteRange junk lp i n = lpShrinkToFit junk lp1"
      using form_num [OF f] form_seek [OF f, of i] k n True num kl w t m
      by (simp add: lpDeleteRange_def LP_HDR_NUMELE_UNKNOWN_def set_total set_num lp1_def flip: kl(2))
    then show ?thesis using form_shrink_form [OF f1, of junk] k c by auto
  next
    case False
    have m: "\<not> (int num - int k) mod 2 ^ 64 \<le> int n" if "num \<noteq> 65535"
    proof -
      have "num = length bs" "num < 65535" using lp_formD(2) [OF f] that by (auto simp: num_ok_def)
      then have "(int num - int k) mod 2 ^ 64 = int num - int k" using kl(1) by simp
      then show ?thesis using False that kl(1) \<open>num = length bs\<close> by linarith
    qed
    have ix: "num \<noteq> 65535 \<Longrightarrow> (if num \<noteq> 65535 \<and> i < 0 then int num + i else i) = int k"
      using kl(2) lp_formD(2) [OF f] by (auto simp: num_ok_def)
    have "lpDeleteRange junk lp i n = do { (lp, _) \<leftarrow> lpDeleteRangeWithEntry junk lp (off bs k) n; Some lp }"
      using form_num [OF f] form_seek [OF f, of i] k n m ix
      by (cases "num = 65535") (simp_all add: lpDeleteRange_def LP_HDR_NUMELE_UNKNOWN_def Let_def)
    moreover obtain lp' num' where "lpDeleteRangeWithEntry junk lp (off bs k) n = Some (lp', entry_at (cut_at bs k n) k)"
      "lp_form lp' num' (cut_at bs k n) []"
      using form_delete_range [OF f kl(1) n, of junk] by blast
    ultimately have "lpDeleteRange junk lp i n = Some lp' \<and> lp_form lp' num' (cut_at bs k n) []" by simp
    then show ?thesis using k by auto
  qed
qed

section \<open>Merging\<close>

lemma form_merge:
  assumes f1: "lp_form lp1 num1 bs1 slack1" and f2: "lp_form lp2 num2 bs2 slack2" and small: "lp_total (bs1 @ bs2) < 2 ^ 32 - 1"
  shows "\<exists>lp num. lpMerge junk False (Some lp1) (Some lp2) = Some (Some (lp, lp_total bs1 \<ge> lp_total bs2)) \<and> lp_form lp num (bs1 @ bs2) []"
proof -
  obtain l1 n1 where l1: "lpLength lp1 = Some (l1, length bs1)" "lp_form l1 n1 bs1 slack1" using form_length [OF f1] by blast
  obtain l2 n2 where l2: "lpLength lp2 = Some (l2, length bs2)" "lp_form l2 n2 bs2 slack2" using form_length [OF f2] by blast
  define n where "n = (if length bs1 + length bs2 < 65535 then length bs1 + length bs2 else 65535)"
  let ?t = "lp_total (bs1 @ bs2)"
  let ?B1 = "body bs1" and ?B2 = "body bs2 @ [LP_EOF]"
  have t: "lp_total bs1 + lp_total bs2 - 7 = ?t" "7 \<le> lp_total bs1 + lp_total bs2" "lp_total bs1 = 7 + length ?B1" "lp_total bs2 = 6 + length ?B2"
    "?t = 6 + length ?B1 + length ?B2"
    by (simp_all add: lp_total_def)
  have e1: "l1 = lp_hdr (lp_total bs1) n1 @ ?B1 @ LP_EOF # slack1" using lp_formD(1) [OF l1(2)] .
  have e2: "l2 = lp_hdr (lp_total bs2) n2 @ ?B2 @ slack2" using lp_formD(1) [OF l2(2)] by simp
  have app: "do { xs \<leftarrow> mem_rd l2 6 (lp_total bs2 - 6); mem_wr (zrealloc junk l1 ?t) (lp_total bs1 - 1) xs } =
    Some (lp_hdr (lp_total bs1) n1 @ ?B1 @ ?B2)"
  proof -
    have r: "mem_rd l2 6 (lp_total bs2 - 6) = Some ?B2"
      using mem_rd_exact [of "lp_hdr (lp_total bs2) n2" 6 ?B2 "lp_total bs2 - 6" slack2] e2 t(4) by simp
    have "take (lp_total bs1 - 1) (zrealloc junk l1 ?t) = take (lp_total bs1 - 1) l1" using e1 t by (intro take_zrealloc) auto
    also have "\<dots> = lp_hdr (lp_total bs1) n1 @ ?B1" using e1 t(3) by simp
    finally show ?thesis using r t by (simp add: mem_wr_def)
  qed
  have pre: "do { target \<leftarrow> mem_move (zrealloc junk l2 ?t) (lp_total bs1 - 1) 6 (lp_total bs2 - 6);
      xs \<leftarrow> mem_rd l1 0 (lp_total bs1 - 1); mem_wr target 0 xs } = Some (lp_hdr (lp_total bs1) n1 @ ?B1 @ ?B2)"
  proof -
    have "take (lp_total bs2) (zrealloc junk l2 ?t) = take (lp_total bs2) l2" using e2 t by (intro take_zrealloc) auto
    then have "take (lp_total bs2 - 6) (drop 6 (zrealloc junk l2 ?t)) = drop 6 (take (lp_total bs2) l2)" using drop_take by metis
    also have "\<dots> = ?B2" using e2 t(4) by simp
    finally have r: "mem_rd (zrealloc junk l2 ?t) 6 (lp_total bs2 - 6) = Some ?B2" using t by (simp add: mem_rd_def)
    define X where "X = take (lp_total bs1 - 1) (zrealloc junk l2 ?t)"
    have X: "length X = lp_total bs1 - 1" using t by (simp add: X_def)
    have mv: "mem_move (zrealloc junk l2 ?t) (lp_total bs1 - 1) 6 (lp_total bs2 - 6) = Some (X @ ?B2)"
      using r t by (simp add: mem_move_def mem_wr_def X_def)
    have r1: "mem_rd l1 0 (lp_total bs1 - 1) = Some (lp_hdr (lp_total bs1) n1 @ ?B1)" using e1 t(3) by (simp add: mem_rd_def)
    have "mem_wr (X @ ?B2) 0 (lp_hdr (lp_total bs1) n1 @ ?B1) = Some (lp_hdr (lp_total bs1) n1 @ ?B1 @ ?B2)"
      using mem_wr_exact [of "[]" 0 X "lp_hdr (lp_total bs1) n1 @ ?B1" ?B2] X t(3) by simp
    then show ?thesis using mv r1 by simp
  qed
  have dl: "diff_len (lp_total bs1 + lp_total bs2) (LP_HDR_SIZE + 1) = Some ?t" "diff_len (lp_total bs1) 1 = Some (lp_total bs1 - 1)"
    "diff_len (lp_total bs2) LP_HDR_SIZE = Some (lp_total bs2 - 6)"
    using t(1-4) by (simp_all add: diff_len_def LP_HDR_SIZE_def)
  have fin: "do { target \<leftarrow> lpSetNumElements (lp_hdr (lp_total bs1) n1 @ ?B1 @ ?B2) n; target \<leftarrow> lpSetTotalBytes target ?t; Some (Some (target, a)) } =
    Some (Some (lp_hdr ?t n @ ?B1 @ ?B2, a))" for a
    by (simp add: set_num set_total)
  have "lpMerge junk False (Some lp1) (Some lp2) =
    do { target \<leftarrow> (if lp_total bs1 \<ge> lp_total bs2
           then do { xs \<leftarrow> mem_rd l2 6 (lp_total bs2 - 6); mem_wr (zrealloc junk l1 ?t) (lp_total bs1 - 1) xs }
           else do { target \<leftarrow> mem_move (zrealloc junk l2 ?t) (lp_total bs1 - 1) 6 (lp_total bs2 - 6);
                     xs \<leftarrow> mem_rd l1 0 (lp_total bs1 - 1); mem_wr target 0 xs });
         target \<leftarrow> lpSetNumElements target n; target \<leftarrow> lpSetTotalBytes target ?t; Some (Some (target, lp_total bs1 \<ge> lp_total bs2)) }"
    using l1(1) l2(1) form_bytes [OF f1] form_bytes [OF f2] dl small
    by (simp add: lpMerge_def n_def LP_HDR_SIZE_def Let_def cong: if_cong)
  then have "lpMerge junk False (Some lp1) (Some lp2) = Some (Some (lp_hdr ?t n @ ?B1 @ ?B2, lp_total bs1 \<ge> lp_total bs2))"
    unfolding app pre if_cancel bind.bind_lunit fin .
  moreover have "lp_form (lp_hdr ?t n @ ?B1 @ ?B2) n (bs1 @ bs2) []"
    using small lp_formD(4) [OF f1] lp_formD(4) [OF f2] by (auto simp: lp_form_def num_ok_def n_def)
  ultimately show ?thesis by blast
qed

section \<open>Deletion of a batch\<close>

text \<open>The entries from \<open>j\<close> on that are not to be deleted.\<close>

definition kept :: "bytes list \<Rightarrow> nat list \<Rightarrow> nat \<Rightarrow> bytes list" where
  "kept bs ks j = map ((!) bs) (filter (\<lambda>i. i \<notin> set ks) [j..<length bs])"

lemma map_nth_upt: "j \<le> length xs \<Longrightarrow> map ((!) xs) [i..<j] = take (j - i) (drop i xs)"
  by (rule nth_equalityI) auto

lemma kept_none: "j \<le> length bs \<Longrightarrow> kept bs [] j = drop j bs"
  using map_nth_upt [of "length bs" bs j] by (simp add: kept_def)

lemma kept_split:
  assumes "j \<le> k" "k < length bs" "\<forall>i \<in> set ks. k < i"
  shows "kept bs (k # ks) j = take (k - j) (drop j bs) @ kept bs ks (Suc k)"
proof -
  have u: "[j..<length bs] = [j..<k] @ k # [Suc k..<length bs]"
    using assms(1,2) by (metis upt_add_eq_append le_add_diff_inverse less_imp_le upt_conv_Cons)
  have "filter (\<lambda>i. i \<notin> set (k # ks)) [j..<k] = [j..<k]" using assms(3) by (intro filter_True) auto
  moreover have "filter (\<lambda>i. i \<notin> set (k # ks)) [Suc k..<length bs] = filter (\<lambda>i. i \<notin> set ks) [Suc k..<length bs]"
    by (rule filter_cong) auto
  ultimately show ?thesis using assms(2) by (simp add: kept_def u map_nth_upt del: upt_Suc)
qed

lemma piece_drop: "piece lp p b \<Longrightarrow> drop p lp' = drop p lp \<Longrightarrow> length lp' = length lp \<Longrightarrow> piece lp' p b"
  by (simp add: piece_def)

text \<open>A move of bytes towards the front, onto \<open>dst\<close>.\<close>

lemma move_front:
  assumes "dst \<le> q" "q + length X \<le> length cur" "take (length X) (drop q cur) = X"
  shows "\<exists>cur'. mem_move cur dst q (length X) = Some cur' \<and> length cur' = length cur \<and>
    take (dst + length X) cur' = take dst cur @ X \<and> drop (q + length X) cur' = drop (q + length X) cur"
proof -
  have e: "length cur \<le> dst \<Longrightarrow> length X = 0" using assms(1,2) by linarith
  then have "drop (q + length X) (take dst cur @ X @ drop (dst + length X) cur) = drop (q + length X) cur"
    using assms by (simp add: min_def)
  then show ?thesis using assms by (auto simp: mem_move_def mem_rd_def mem_wr_def)
qed

lemma bytes_between:
  assumes "lp_form lp num bs slack" "j \<le> k" "k \<le> length bs"
  shows "take (off bs k - off bs j) (drop (off bs j) lp) = body (take (k - j) (drop j bs))"
    "off bs k = off bs j + length (body (take (k - j) (drop j bs)))"
proof -
  have "bs = take j bs @ take (k - j) (drop j bs) @ drop k bs" using assms(2) by (metis append_take_drop_id drop_drop le_add_diff_inverse2)
  then have b: "body bs = body (take j bs) @ body (take (k - j) (drop j bs)) @ body (drop k bs)" using body_simps(3) by metis
  have "take k bs = take j bs @ take (k - j) (drop j bs)" using assms(2) by (metis take_add le_add_diff_inverse)
  then show o: "off bs k = off bs j + length (body (take (k - j) (drop j bs)))" by (simp add: off_def)
  show "take (off bs k - off bs j) (drop (off bs j) lp) = body (take (k - j) (drop j bs))"
    using lp_formD(1) [OF assms(1)] by (simp add: o b) (simp add: off_def)
qed

lemma bytes_to_end:
  assumes "lp_form lp num bs slack" "j \<le> length bs"
  shows "take (lp_total bs - off bs j) (drop (off bs j) lp) = body (drop j bs) @ [LP_EOF]"
    "lp_total bs = off bs j + length (body (drop j bs) @ [LP_EOF])"
  using lp_formD(1) [OF assms(1)] body_split [OF assms(2)] by (simp_all add: off_def lp_total_def)

lemma batch_delete_loop_ok:
  assumes f: "lp_form lp num bs slack"
  shows "sorted_wrt (<) (k # ks) \<Longrightarrow> \<forall>i \<in> set (k # ks). i < length bs \<Longrightarrow> length cur = length lp \<Longrightarrow> dst \<le> off bs k \<Longrightarrow>
    drop (off bs k) cur = drop (off bs k) lp \<Longrightarrow>
    \<exists>cur'. batch_delete_loop cur (lp_total bs) dst (map (off bs) (k # ks)) =
        Some (cur', dst + length (body (kept bs ks (Suc k)) @ [LP_EOF])) \<and>
      take (dst + length (body (kept bs ks (Suc k)) @ [LP_EOF])) cur' = take dst cur @ body (kept bs ks (Suc k)) @ [LP_EOF] \<and>
      length cur' = length lp"
proof (induction ks arbitrary: k cur dst)
  case Nil
  let ?X = "body (drop (Suc k) bs) @ [LP_EOF]"
  have k: "k < length bs" using Nil by simp
  have "piece cur (off bs k) (bs ! k)" by (rule piece_drop [OF form_piece [OF f k] Nil.prems(5,3)])
  then have sk: "rdb cur (off bs k) = Some (hd (bs ! k))" "lpSkip cur (off bs k) = Some (off bs (Suc k))"
    using piece_rdb0 pay_size form_pay [OF f k] by (auto simp: lpSkip_def off_Suc [OF k] length_chunk pay_def)
  have o: "off bs k \<le> off bs (Suc k)" by (rule off_mono) simp
  have d: "drop (off bs (Suc k)) cur = drop (off bs (Suc k)) lp"
    using Nil.prems(5) o by (metis drop_drop le_add_diff_inverse2)
  note e = bytes_to_end [OF f Suc_leI [OF k]]
  have x: "take (length ?X) (drop (off bs (Suc k)) cur) = ?X" using e d by simp
  have "off bs (Suc k) + length ?X \<le> length cur" using e(2) Nil.prems(3) lp_form_length [OF f] by simp
  then obtain cur' where m: "mem_move cur dst (off bs (Suc k)) (length ?X) = Some cur'" "length cur' = length cur"
    "take (dst + length ?X) cur' = take dst cur @ ?X"
    using move_front [of dst "off bs (Suc k)" ?X cur] x o Nil.prems(4) by auto
  have "lp_total bs - off bs (Suc k) = length ?X" "off bs (Suc k) < lp_total bs" using e(2) by simp_all
  then show ?case using sk m pay_class [OF form_pay [OF f k]] Nil.prems(3) by (simp add: kept_none Suc_leI [OF k])
next
  case (Cons k2 ks)
  have k: "k < length bs" "k2 < length bs" "k < k2" "\<forall>i \<in> set ks. k2 < i" using Cons.prems by auto
  have "piece cur (off bs k) (bs ! k)" by (rule piece_drop [OF form_piece [OF f k(1)] Cons.prems(5,3)])
  then have sk: "rdb cur (off bs k) = Some (hd (bs ! k))" "lpSkip cur (off bs k) = Some (off bs (Suc k))"
    using piece_rdb0 pay_size form_pay [OF f k(1)] by (auto simp: lpSkip_def off_Suc [OF k(1)] length_chunk pay_def)
  have o: "off bs k \<le> off bs (Suc k)" "off bs (Suc k) \<le> off bs k2" using k(3) by (auto intro: off_mono)
  have d: "drop (off bs q) cur = drop (off bs q) lp" if "off bs k \<le> off bs q" for q
    using Cons.prems(5) that by (metis drop_drop le_add_diff_inverse2)
  let ?X = "body (take (k2 - Suc k) (drop (Suc k) bs))"
  have kp: "kept bs (k2 # ks) (Suc k) = take (k2 - Suc k) (drop (Suc k) bs) @ kept bs ks (Suc k2)" using k by (intro kept_split) auto
  note e = bytes_between [OF f, of "Suc k" k2]
  have eX: "take (off bs k2 - off bs (Suc k)) (drop (off bs (Suc k)) lp) = ?X" "off bs k2 = off bs (Suc k) + length ?X"
    using e k by simp_all
  have ns: "hd (bs ! k) \<noteq> LP_EOF" using pay_class [OF form_pay [OF f k(1)]] by simp
  have srt: "sorted_wrt (<) (k2 # ks)" "\<forall>i \<in> set (k2 # ks). i < length bs" using Cons.prems by auto
  have step: "batch_delete_loop cur (lp_total bs) dst (map (off bs) (k # k2 # ks)) =
    (if off bs (Suc k) = off bs k2 then batch_delete_loop cur (lp_total bs) dst (map (off bs) (k2 # ks))
     else do { guard (off bs k2 > off bs (Suc k)); lp \<leftarrow> mem_move cur dst (off bs (Suc k)) (off bs k2 - off bs (Suc k));
       batch_delete_loop lp (lp_total bs) (dst + (off bs k2 - off bs (Suc k))) (map (off bs) (k2 # ks)) })"
    using sk ns by (simp del: batch_delete_loop.simps add: batch_delete_loop.simps(2) [of cur _ _ "off bs k"] Let_def)
  show ?case
  proof (cases "Suc k = k2")
    case True
    then have "kept bs (k2 # ks) (Suc k) = kept bs ks (Suc k2)" using kp by simp
    moreover have "batch_delete_loop cur (lp_total bs) dst (map (off bs) (k # k2 # ks)) =
      batch_delete_loop cur (lp_total bs) dst (map (off bs) (k2 # ks))" unfolding step True by (simp only: refl if_True)
    ultimately show ?thesis using Cons.IH [OF srt Cons.prems(3) order_trans [OF Cons.prems(4) order_trans [OF o]] d [OF order_trans [OF o]]] by (simp only:)
  next
    case False
    then have lt: "off bs (Suc k) < off bs k2" using off_inj_less [OF lp_formD(4) [OF f], of "Suc k" k2] k by simp
    have x: "take (length ?X) (drop (off bs (Suc k)) cur) = ?X" using eX d [of "Suc k"] o by simp
    have "off bs (Suc k) + length ?X \<le> length cur"
      using eX(2) off_less_total [of bs k2] Cons.prems(3) lp_form_length [OF f] by simp
    then obtain cur' where m: "mem_move cur dst (off bs (Suc k)) (length ?X) = Some cur'" "length cur' = length cur"
      "take (dst + length ?X) cur' = take dst cur @ ?X" "drop (off bs k2) cur' = drop (off bs k2) cur"
      using move_front [of dst "off bs (Suc k)" ?X cur] x o(1) Cons.prems(4) eX(2) by auto
    have n: "off bs k2 - off bs (Suc k) = length ?X" using eX(2) by simp
    have run: "batch_delete_loop cur (lp_total bs) dst (map (off bs) (k # k2 # ks)) =
      batch_delete_loop cur' (lp_total bs) (dst + length ?X) (map (off bs) (k2 # ks))"
      unfolding step n m(1) using lt by (simp del: batch_delete_loop.simps)
    have "dst + length ?X \<le> off bs k2" using Cons.prems(4) o(1) eX(2) by linarith
    moreover have "drop (off bs k2) cur' = drop (off bs k2) lp" using m(4) d [of k2] o by simp
    ultimately obtain cur2 where c: "batch_delete_loop cur' (lp_total bs) (dst + length ?X) (map (off bs) (k2 # ks)) =
        Some (cur2, dst + length ?X + length (body (kept bs ks (Suc k2)) @ [LP_EOF]))"
      "take (dst + length ?X + length (body (kept bs ks (Suc k2)) @ [LP_EOF])) cur2 =
        take (dst + length ?X) cur' @ body (kept bs ks (Suc k2)) @ [LP_EOF]" "length cur2 = length lp"
      using Cons.IH [OF srt trans [OF m(2) Cons.prems(3)]] by blast
    have len: "dst + length ?X + length (body (kept bs ks (Suc k2)) @ [LP_EOF]) = dst + length (body (kept bs (k2 # ks) (Suc k)) @ [LP_EOF])"
      unfolding kp by simp
    have "take (dst + length (body (kept bs (k2 # ks) (Suc k)) @ [LP_EOF])) cur2 = take dst cur @ body (kept bs (k2 # ks) (Suc k)) @ [LP_EOF]"
      using c(2) unfolding len m(3) by (simp add: kp)
    then show ?thesis using c(1,3) unfolding run len by blast
  qed
qed

lemma length_kept: "sorted_wrt (<) ks \<Longrightarrow> \<forall>i \<in> set ks. i < length bs \<Longrightarrow> length (kept bs ks 0) + length ks = length bs"
proof -
  assume a: "sorted_wrt (<) ks" "\<forall>i \<in> set ks. i < length bs"
  have "distinct ks" using a(1) strict_sorted_iff by blast
  moreover have "{i \<in> {0..<length bs}. i \<notin> set ks} = {0..<length bs} - set ks" by auto
  moreover have "set ks \<subseteq> {0..<length bs}" using a(2) by auto
  ultimately have "length (kept bs ks 0) = length bs - length ks" "length ks \<le> length bs"
    using card_mono [of "{0..<length bs}" "set ks"]
    by (simp_all add: kept_def distinct_length_filter card_Diff_subset distinct_card Int_def conj_commute)
  then show ?thesis by simp
qed

lemma form_batchDelete:
  assumes f: "lp_form lp num bs slack" and srt: "sorted_wrt (<) ks" "\<forall>i \<in> set ks. i < length bs"
  shows "\<exists>lp' num' slack'. lpBatchDelete junk lp (map (off bs) ks) = Some lp' \<and> lp_form lp' num' (kept bs ks 0) slack'"
proof (cases ks)
  case Nil
  then show ?thesis using f by (auto simp: lpBatchDelete_def kept_none)
next
  case (Cons k ks')
  define bs' where "bs' = kept bs ks 0"
  have k: "k < length bs" "\<forall>i \<in> set ks'. k < i" using srt Cons by auto
  have bs': "bs' = take k bs @ kept bs ks' (Suc k)" unfolding bs'_def Cons using k by (subst kept_split) auto
  have t': "lp_total bs' = off bs k + length (body (kept bs ks' (Suc k)) @ [LP_EOF])" by (simp add: lp_total_def bs' off_def)
  obtain cur where c: "batch_delete_loop lp (lp_total bs) (off bs k) (map (off bs) ks) = Some (cur, lp_total bs')"
    "take (lp_total bs') cur = take (off bs k) lp @ body (kept bs ks' (Suc k)) @ [LP_EOF]" "length cur = length lp"
    using batch_delete_loop_ok [OF f srt [unfolded Cons] refl order_refl refl] unfolding t' Cons by blast
  have "take (off bs k) lp = lp_hdr (lp_total bs) num @ body (take k bs)"
    using form_split [OF f k(1)] by (simp add: off_def)
  then have cur: "cur = lp_hdr (lp_total bs) num @ body bs' @ LP_EOF # drop (lp_total bs') cur"
    using c(2) append_take_drop_id [of "lp_total bs'" cur] by (simp add: bs')
  have le: "lp_total bs' \<le> lp_total bs"
  proof -
    have "body (kept bs ks' (Suc k)) = concat (map (\<lambda>i. chunk (bs ! i)) (filter (\<lambda>i. i \<notin> set ks') [Suc k..<length bs]))"
      by (simp add: body_def kept_def comp_def)
    moreover have "length (concat (map g (filter P xs))) \<le> length (concat (map g xs))" for g :: "nat \<Rightarrow> bytes" and P xs
      by (induction xs) auto
    moreover have "concat (map (\<lambda>i. chunk (bs ! i)) [Suc k..<length bs]) = body (drop (Suc k) bs)"
      using map_nth_upt [of "length bs" bs "Suc k"] by (simp add: body_def flip: map_map [unfolded comp_def])
    ultimately have "length (body (kept bs ks' (Suc k))) \<le> length (body (drop (Suc k) bs))" by metis
    then show ?thesis using body_split3 [OF k(1)] by (simp add: lp_total_def bs')
  qed
  have e1: "rd_back lp (lp_total bs) 1 = Some LP_EOF" using form_eof [OF f] off_end [of bs] by (simp add: rd_back_def lp_total_def)
  have e2: "rd_back cur (lp_total bs') 1 = Some LP_EOF"
    by (subst cur) (simp add: rd_back_def rdb_def lp_total_def nth_append)
  define num' where "num' = (if num \<noteq> 65535 then num - length ks else num)"
  have lk: "length bs' + length ks = length bs" using length_kept [OF srt] by (simp add: bs'_def)
  have nm: "nat ((int num - int (length ks)) mod 2 ^ 32) = num - length ks" if "num \<noteq> 65535"
  proof -
    have "length ks \<le> num" "num < 65535" using that lp_formD(2) [OF f] lk by (auto simp: num_ok_def)
    then show ?thesis by (simp add: nat_diff_distrib)
  qed
  define lp1 where "lp1 = lp_hdr (lp_total bs') num' @ body bs' @ LP_EOF # drop (lp_total bs') cur"
  have f1: "lp_form lp1 num' bs' (drop (lp_total bs') cur)"
  proof (rule form_intro)
    show "list_all pay bs'" using lp_formD(4) [OF f] by (auto simp: bs'_def kept_def list_all_iff)
    show "num_ok num' bs'" using lp_formD(2) [OF f] lk by (auto simp: num_ok_def num'_def)
    show "lp_total bs' < 2 ^ 32" using le lp_formD(3) [OF f] by simp
  qed (simp add: lp1_def)
  have s1: "lpSetTotalBytes cur (lp_total bs') = Some (lp_hdr (lp_total bs') num @ body bs' @ LP_EOF # drop (lp_total bs') cur)"
    by (subst (1) cur) (rule set_total)
  have "lpBatchDelete junk lp (map (off bs) ks) = lpShrinkToFit junk lp1"
    using form_total [OF f] e1 e2 c(1) s1 le nm form_le [OF f] Cons
    by (simp add: lpBatchDelete_def diff_len_def get_num_hdr set_num LP_HDR_NUMELE_UNKNOWN_def num'_def lp1_def Let_def
        del: batch_delete_loop.simps)
  then show ?thesis using form_shrink_form [OF f1, of junk] unfolding bs'_def by auto
qed

end
