(* ===== verification/Listpack_Read.thy ===== *)
theory Listpack_Read
  imports Listpack_Walk
begin

text \<open>
  Reading and searching: \<^verbatim>\<open>lpGet\<close>, \<^verbatim>\<open>lpGetValue\<close>, \<^verbatim>\<open>lpCompare\<close> and \<^verbatim>\<open>lpFind\<close> of \<^verbatim>\<open>src/listpack.c\<close> on a
  well-formed buffer.
\<close>

section \<open>Values\<close>

lemma nav_get: "lp_nav lp num bs \<Longrightarrow> k < length bs \<Longrightarrow> lpGet lp (off bs k) None = Some (pval (off bs k) (bs ! k))"
  by (simp add: lpGet_def pay_get nav_entry(1) nav_entry(2))

text \<open>With a buffer for the digits every entry reads as its text.\<close>

definition got_text :: "bytes \<Rightarrow> lpGot \<Rightarrow> bytes option" where
  "got_text lp g = (case g of GotStr q n \<Rightarrow> mem_rd lp q n | GotInt v \<Rightarrow> Some (sdec v) | GotBuf buf n \<Rightarrow> mem_rd buf 0 n)"

lemma get_with_buf: "lpGetWithBuf lp p (Some buf) = do { g \<leftarrow> lpGetWithBuf lp p None;
   (case g of GotInt v \<Rightarrow> lp_got_int v (Some buf) | _ \<Rightarrow> Some g) }"
proof (cases "rdb lp p")
  case (Some b)
  then show ?thesis
    by (cases "enc_class b")
      (auto simp: lpGetWithBuf_def class_iff lp_got_int_def LP_ENCODING_6BIT_STR_LEN_def LP_ENCODING_12BIT_STR_LEN_def
        LP_ENCODING_32BIT_STR_LEN_def split: bind_splits)
qed (simp add: lpGetWithBuf_def)

lemma piece_text: "piece lp p b \<Longrightarrow> h \<le> length b \<Longrightarrow> mem_rd lp (p + h) (length b - h) = Some (drop h b)"
  using piece_rd [of lp p b h "length b - h"] by simp

lemma nav_get_text:
  assumes "lp_nav lp num bs" "k < length bs" "LP_INTBUF_SIZE \<le> length buf"
  shows "\<exists>g. lpGet lp (off bs k) (Some buf) = Some g \<and> got_text lp g = Some (ptext (bs ! k))"
  using nav_entry(2) [OF assms(1,2)]
proof (cases rule: pval_cases)
  case (int v)
  have len: "length (sdec v) < 21" using length_sdec [OF int(2)] by simp
  then have "ll2string buf 21 v = Some (sdec v @ 0 # drop (Suc (length (sdec v))) buf, length (sdec v))"
    using ll2string_run [OF int(2), of 21 buf] assms(3) by (simp add: LP_INTBUF_SIZE_def)
  then show ?thesis using int(1,3) nav_get [OF assms(1,2)]
    by (simp add: lpGet_def get_with_buf lp_got_int_def LP_INTBUF_SIZE_def got_text_def mem_rd_def)
next
  case (str h)
  then show ?thesis using nav_get [OF assms(1,2)] piece_text [OF nav_entry(1) [OF assms(1,2)], of h]
    by (simp add: lpGet_def get_with_buf got_text_def)
qed

section \<open>Comparison with a string\<close>

lemma text_int: "int64 v \<Longrightarrow> lpStringToInt64 s = Some v \<longleftrightarrow> sdec v = s"
  using string2ll_sdec [of v] string2ll_Some [of s v] by (auto simp: lpStringToInt64_eq)

lemma nav_compare:
  assumes "lp_nav lp num bs" "k < length bs"
  shows "lpCompare lp (off bs k) s None = Some (ptext (bs ! k) = s, None)"
  using nav_entry(2) [OF assms]
proof (cases rule: pval_cases)
  case (int v)
  then show ?thesis using nav_get [OF assms] nav_hd [OF assms] pay_class [OF nav_entry(2) [OF assms]] text_int [OF int(2), of s]
    by (simp add: lpCompare_def)
next
  case (str h)
  have "length s = length (bs ! k) - h \<or> ptext (bs ! k) \<noteq> s" using str(4) by auto
  then show ?thesis using str(1) [of "off bs k"] str(3,4) nav_get [OF assms] nav_hd [OF assms] pay_class [OF nav_entry(2) [OF assms]]
      piece_text [OF nav_entry(1) [OF assms], of h]
    by (cases "length s = length (bs ! k) - h") (simp_all add: lpCompare_def)
qed

section \<open>Search\<close>

lemma pay_get_size:
  assumes "piece lp p b" "pay b"
  shows "lpGetWithSize lp p None = Some (pval p b, Some (length (chunk b)))"
proof -
  have h: "rdb lp p = Some (hd b)" using piece_rdb0 [OF assms(1)] assms(2) by (simp add: pay_def)
  have g: "lpGetWithBuf lp p None = Some (pval p b)" by (rule pay_get [OF assms])
  have bl: "n \<le> 127 \<Longrightarrow> lpEncodeBacklenBytes n = 1" for n by (simp add: lpEncodeBacklenBytes_def)
  have small: "length (chunk b) = (case enc_class (hd b) of C7 \<Rightarrow> 2 | C13 \<Rightarrow> 3 | C16 \<Rightarrow> 4 | C24 \<Rightarrow> 5 | C32 \<Rightarrow> 6 | C64 \<Rightarrow> 10
    | _ \<Rightarrow> length b + lpEncodeBacklenBytes (length b))"
    using assms(2) by (cases "enc_class (hd b)") (simp_all add: length_chunk pay_def bl)
  show ?thesis using h g assms(2) unfolding small
    by (cases "enc_class (hd b)") (auto simp: lpGetWithSize_def lpGetWithBuf_def class_iff lp_got_int_def pval_def pay_def
        LP_ENCODING_6BIT_STR_LEN_def LP_ENCODING_12BIT_STR_LEN_def LP_ENCODING_32BIT_STR_LEN_def add.commute [of _ 5] split: bind_splits)
qed

text \<open>The comparator's argument caches whether the string is an integer.\<close>

definition arg_ok :: "lpFindArg \<Rightarrow> bytes \<Rightarrow> bool" where
  "arg_ok arg s \<longleftrightarrow> fa_s arg = s \<and> (fa_vencoding arg = 0 \<or> fa_vencoding arg = 1 \<and> lpStringToInt64 s = Some (fa_vll arg)
     \<or> fa_vencoding arg = 255 \<and> lpStringToInt64 s = None)"

lemma nav_cmp:
  assumes "lp_nav lp num bs" "k < length bs" "arg_ok arg s"
  shows "\<exists>arg'. lpFindCmp lp (off bs k) arg (pval (off bs k) (bs ! k)) = Some (arg', ptext (bs ! k) = s) \<and> arg_ok arg' s"
  using nav_entry(2) [OF assms(1,2)]
proof (cases rule: pval_cases)
  case (int v)
  have "length s \<ge> 32 \<or> length s = 0 \<Longrightarrow> lpStringToInt64 s = None" by (auto simp: lpStringToInt64_def LONG_STR_SIZE_def)
  then show ?thesis using int assms(3) text_int [OF int(2), of s]
    by (auto simp: lpFindCmp_def arg_ok_def Let_def split: option.splits)
next
  case (str h)
  have "length s = length (bs ! k) - h \<or> ptext (bs ! k) \<noteq> s" using str(4) by auto
  then show ?thesis using str(1) [of "off bs k"] str(3,4) assms(3) piece_text [OF nav_entry(1) [OF assms(1,2)], of h]
    by (intro exI [of _ arg], cases "length s = length (bs ! k) - h") (auto simp: lpFindCmp_def arg_ok_def)
qed

text \<open>The entries that are compared, when \<open>c\<close> are to be skipped first.\<close>

function cands :: "nat \<Rightarrow> nat \<Rightarrow> nat \<Rightarrow> nat \<Rightarrow> nat list" where
  "cands n skip c k = (if k \<ge> n then [] else if c = 0 then k # cands n skip skip (Suc k) else cands n skip (c - 1) (Suc k))"
  by auto
termination by (relation "measure (\<lambda>(n, _, _, k). n - k)") auto

declare cands.simps [simp del]

definition found_at :: "bytes list \<Rightarrow> bytes \<Rightarrow> nat list \<Rightarrow> nat option" where
  "found_at bs s is = map_option (off bs) (List.find (\<lambda>i. ptext (bs ! i) = s) is)"

lemma nav_find_loop:
  assumes "lp_nav lp num bs"
  shows "k < length bs \<Longrightarrow> arg_ok arg s \<Longrightarrow>
    \<exists>arg'. lpFindCbInternal_loop lp (lp_total bs) lpFindCmp skip arg c sz (off bs k) = Some (arg', found_at bs s (cands (length bs) skip c k))"
proof (induction "length bs - k" arbitrary: k c sz arg rule: less_induct)
  case less
  have ok: "(if off bs (Suc k) + 8 \<ge> lp_total bs then lpAssertValidEntry lp (lp_total bs) (off bs (Suc k))
    else guard (off bs (Suc k) \<ge> LP_HDR_SIZE \<and> off bs (Suc k) < lp_total bs)) = Some ()"
    using nav_assert [OF assms, of "Suc k"] less.prems(1) off_ge [of bs "Suc k"] off_less_total [of bs "Suc k"] by (simp add: LP_HDR_SIZE_def)
  obtain b where b: "rdb lp (off bs (Suc k)) = Some b" "b = LP_EOF \<longleftrightarrow> Suc k = length bs"
    using nav_rdb_eof [OF assms, of "Suc k"] less.prems(1) by auto
  have rest: "\<exists>arg''. (if b = LP_EOF then Some (arg', None) else lpFindCbInternal_loop lp (lp_total bs) lpFindCmp skip arg' c' sz' (off bs (Suc k))) =
    Some (arg'', found_at bs s (cands (length bs) skip c' (Suc k)))" if "arg_ok arg' s" for arg' c' sz'
  proof (cases "Suc k = length bs")
    case True
    then have "cands (length bs) skip c' (Suc k) = []" by (subst cands.simps) simp
    then show ?thesis using b True by (simp add: found_at_def)
  next
    case False
    then show ?thesis using b less.hyps [of "Suc k" arg' c' sz'] that less.prems(1) by simp
  qed
  show ?case
  proof (cases "c = 0")
    case True
    obtain arg' where a: "lpFindCmp lp (off bs k) arg (pval (off bs k) (bs ! k)) = Some (arg', ptext (bs ! k) = s)" "arg_ok arg' s"
      using nav_cmp [OF assms less.prems] by blast
    have g: "lpGetWithSize lp (off bs k) None = Some (pval (off bs k) (bs ! k), Some (off bs (Suc k) - off bs k))"
      using pay_get_size [OF nav_entry(1) nav_entry(2), OF assms less.prems(1) assms less.prems(1)] off_Suc [OF less.prems(1)] by simp
    have le: "off bs k \<le> off bs (Suc k)" by (rule off_mono) simp
    have gd: "guard (case pval (off bs k) (bs ! k) of GotStr _ _ \<Rightarrow> off bs k \<ge> LP_HDR_SIZE \<and>
        off bs k + (case Some (off bs (Suc k) - off bs k) of None \<Rightarrow> sz | Some n \<Rightarrow> n) < lp_total bs | _ \<Rightarrow> True) = Some ()"
      using off_ge [of bs k] off_less_total [of bs "Suc k"] le by (simp add: LP_HDR_SIZE_def split: lpGot.split)
    have c: "cands (length bs) skip 0 k = k # cands (length bs) skip skip (Suc k)" using less.prems(1) by (subst cands.simps) simp
    have step: "lpFindCbInternal_loop lp (lp_total bs) lpFindCmp skip arg 0 sz (off bs k) =
      (if ptext (bs ! k) = s then Some (arg', Some (off bs k)) else if b = LP_EOF then Some (arg', None)
       else lpFindCbInternal_loop lp (lp_total bs) lpFindCmp skip arg' skip (off bs (Suc k) - off bs k) (off bs (Suc k)))"
      by (subst lpFindCbInternal_loop.simps) (use g gd le a(1) ok b(1) in \<open>simp add: Let_def\<close>)
    show ?thesis
    proof (cases "ptext (bs ! k) = s")
      case True
      then show ?thesis unfolding \<open>c = 0\<close> step c by (simp add: found_at_def)
    next
      case False
      then show ?thesis using rest [OF a(2), of skip "off bs (Suc k) - off bs k"] unfolding \<open>c = 0\<close> step c by (simp only: if_False) (simp add: found_at_def)
    qed
  next
    case False
    have c: "cands (length bs) skip c k = cands (length bs) skip (c - 1) (Suc k)" using False less.prems(1) by (subst cands.simps) simp
    have step: "lpFindCbInternal_loop lp (lp_total bs) lpFindCmp skip arg c sz (off bs k) = (if b = LP_EOF then Some (arg, None)
       else lpFindCbInternal_loop lp (lp_total bs) lpFindCmp skip arg (c - 1) sz (off bs (Suc k)))"
      by (subst lpFindCbInternal_loop.simps) (use nav_skip [OF assms less.prems(1)] ok b(1) False in simp)
    show ?thesis unfolding step c by (rule rest [OF less.prems(2)])
  qed
qed

lemma cands_step: "k < n \<Longrightarrow> cands n skip 0 k = k # cands n skip skip (Suc k)"
  "k < n \<Longrightarrow> cands n skip (Suc c) k = cands n skip c (Suc k)" "n \<le> k \<Longrightarrow> cands n skip c k = []"
  by (subst cands.simps; simp)+

lemma mult_from: "(k :: nat) < i \<Longrightarrow> (i - k) mod Suc m = 0 \<longleftrightarrow> Suc k + m \<le> i \<and> (i - (Suc k + m)) mod Suc m = 0"
proof -
  assume k: "k < i"
  show ?thesis
  proof (cases "Suc m \<le> i - k")
    case True
    then have e: "i - k = Suc m + (i - (Suc k + m))" by simp
    have "(i - k) mod Suc m = (i - (Suc k + m)) mod Suc m" unfolding e by (rule mod_add_self1)
    moreover have "Suc k + m \<le> i" using True by linarith
    ultimately show ?thesis by simp
  next
    case False
    then show ?thesis using k by auto
  qed
qed

text \<open>These are every \<open>skip + 1\<close>-th entry, in order.\<close>

lemma cands_set: "set (cands n skip c k) = {i. k + c \<le> i \<and> i < n \<and> (i - (k + c)) mod Suc skip = 0} \<and> sorted_wrt (<) (cands n skip c k)"
proof (induction "n - k" arbitrary: k c)
  case 0
  then show ?case by (auto simp: cands_step)
next
  case (Suc x)
  then have k: "k < n" by simp
  have h: "x = n - Suc k" using Suc.hyps(2) by simp
  show ?case
  proof (cases c)
    case 0
    note ih = Suc.hyps(1) [OF h, of skip]
    have "k \<le> i \<and> i < n \<and> (i - k) mod Suc skip = 0 \<longleftrightarrow> i = k \<or> Suc k + skip \<le> i \<and> i < n \<and> (i - (Suc k + skip)) mod Suc skip = 0" for i
      using mult_from [of k i skip] k by (cases "k < i") auto
    then show ?thesis using ih k 0 by (auto simp: cands_step)
  next
    case (Suc c')
    then show ?thesis using Suc.hyps(1) [OF h, of c'] k by (simp add: cands_step)
  qed
qed

lemma nav_find:
  assumes "lp_nav lp num bs"
  shows "lpFind lp None s skip = Some (found_at bs s (cands (length bs) skip 0 0))"
    and "k < length bs \<Longrightarrow> lpFind lp (Some (off bs k)) s skip = Some (found_at bs s (cands (length bs) skip 0 k))"
proof -
  have a: "arg_ok \<lparr>fa_s = s, fa_vencoding = 0, fa_vll = 0\<rparr> s" by (simp add: arg_ok_def)
  note l = nav_find_loop [OF assms _ a, of _ skip 0 123456789]
  show "k < length bs \<Longrightarrow> lpFind lp (Some (off bs k)) s skip = Some (found_at bs s (cands (length bs) skip 0 k))"
    using l [of k] nav_basic(6) [OF assms] by (auto simp: lpFind_def lpFindCbInternal_def)
  show "lpFind lp None s skip = Some (found_at bs s (cands (length bs) skip 0 0))"
  proof (cases "bs = []")
    case True
    then show ?thesis using nav_first [OF assms] nav_basic(6) [OF assms]
      by (simp add: lpFind_def lpFindCbInternal_def entry_at_def cands_step found_at_def)
  next
    case False
    then show ?thesis using l [of 0] nav_first [OF assms] nav_basic(6) [OF assms]
      by (auto simp: lpFind_def lpFindCbInternal_def entry_at_def)
  qed
qed

lemma find_sorted: "sorted_wrt (<) (xs :: nat list) \<Longrightarrow> List.find P xs = Some i \<longleftrightarrow> i \<in> set xs \<and> P i \<and> (\<forall>j \<in> set xs. j < i \<longrightarrow> \<not> P j)"
  by (induction xs) auto

end
