(* ===== verification/Listpack_Valid.thy ===== *)
theory Listpack_Valid
  imports Listpack_Read
begin

unbundle bit_operations_syntax

text \<open>
  The integrity check of \<^verbatim>\<open>src/listpack.c\<close> on arbitrary bytes: it never reads outside them, it ends, it accepts every
  listpack built by the operations, and what it accepts can be navigated.
\<close>

section \<open>Reading the length field of arbitrary bytes\<close>

lemma rd_back_total: "k \<le> i \<Longrightarrow> i < length lp \<Longrightarrow> rd_back lp i k = Some (lp ! (i - k))"
  by (simp add: rd_back_def rdb_def)

lemma decode_total: "4 \<le> i \<Longrightarrow> i < length lp \<Longrightarrow> \<exists>v. lpDecodeBacklen lp i = Some v"
  by (auto simp: lpDecodeBacklen_def rd_back_total Let_def)

lemma low_bits: "unat ((b :: byte) AND 127) = unat b mod 128"
proof -
  have "unat (take_bit 7 b) = take_bit 7 (unat b)" by (rule unsigned_take_bit_eq)
  also have "\<dots> = unat b mod 2 ^ 7" by (rule take_bit_eq_mod)
  finally have "unat (take_bit 7 b) = unat b mod 128" by simp
  moreover have "take_bit 7 b = b AND 127" by (simp add: take_bit_eq_mask mask_numeral)
  ultimately show ?thesis by simp
qed

lemma decode_value:
  assumes "lpDecodeBacklen lp i = Some v" "rdb lp i = Some c"
  shows "v < 2 ^ 35 \<and> v mod 128 = unat c mod 128 \<or> v = 2 ^ 64 - 1"
proof -
  let ?s = "\<lambda>b :: byte. unat (b AND 127)"
  have l: "?s b < 128" for b by (simp add: low_bits)
  have c: "rd_back lp i 0 = Some c" using assms(2) by (simp add: rd_back_def)
  obtain b1 b2 b3 b4 where "v = 2 ^ 64 - 1 \<or> v = ?s c \<or> v = ?s c + ?s b1 * 2 ^ 7 \<or> v = ?s c + ?s b1 * 2 ^ 7 + ?s b2 * 2 ^ 14 \<or>
    v = ?s c + ?s b1 * 2 ^ 7 + ?s b2 * 2 ^ 14 + ?s b3 * 2 ^ 21 \<or>
    v = ?s c + ?s b1 * 2 ^ 7 + ?s b2 * 2 ^ 14 + ?s b3 * 2 ^ 21 + ?s b4 * 2 ^ 28"
    using assms(1) c by (fastforce simp: lpDecodeBacklen_def Let_def bind_eq_Some_conv split: if_splits)
  then obtain x where "v = 2 ^ 64 - 1 \<or> v = ?s c + 128 * x \<and> x < 2 ^ 28"
  proof -
    define x where "x = (v - ?s c) div 128"
    show ?thesis using \<open>v = 2 ^ 64 - 1 \<or> _\<close> l [of b1] l [of b2] l [of b3] l [of b4] that [of x] unfolding x_def by (elim disjE) simp_all
  qed
  then show ?thesis using l [of c] low_bits [of c] by auto
qed

section \<open>One entry\<close>

text \<open>The size of an entry can be read once its first bytes are in range.\<close>

lemma size_cases:
  assumes "rdb lp p = Some b" "lpCurrentEncodedSizeBytes b \<noteq> 0" "b \<noteq> LP_EOF" "p + lpCurrentEncodedSizeBytes b < length lp"
  obtains e where "lpCurrentEncodedSizeUnsafe lp p = Some e" "0 < e" "p + e \<le> length lp \<Longrightarrow> e < 2 ^ 32 \<Longrightarrow> pay (take e (drop p lp))"
  | n where "enc_class b = C32s" "rd_le lp (p + 1) 4 = Some n" "2 ^ 32 \<le> 5 + n" "n < 2 ^ 32" "lpCurrentEncodedSizeUnsafe lp p = Some (5 + n - 2 ^ 32)"
proof -
  have p: "p < length lp" "b = lp ! p" using assms(1) by (auto simp: rdb_def split: if_splits)
  have hd: "hd (take e (drop p lp)) = b" "length (take e (drop p lp)) = e" "take e (drop p lp) \<noteq> []" if "0 < e" "p + e \<le> length lp" for e
    using that p by (auto simp: hd_drop_conv_nth)
  have nb: "enc_class b \<noteq> Cbad" "enc_class b \<noteq> Ceof" using assms(2,3) by (auto simp: lpCurrentEncodedSizeBytes_def class_iff)
  show ?thesis
  proof (cases "enc_class b = C12s \<or> enc_class b = C32s")
    case False
    define e where "e = (case enc_class b of C7 \<Rightarrow> 1 | C6s \<Rightarrow> 1 + unat (b AND 0x3F) | C13 \<Rightarrow> 2 | C16 \<Rightarrow> 3 | C24 \<Rightarrow> 4 | C32 \<Rightarrow> 5 | _ \<Rightarrow> 9)"
    have "lpCurrentEncodedSizeUnsafe lp p = Some e"
      using assms(1) False nb by (cases "enc_class b") (simp_all add: lpCurrentEncodedSizeUnsafe_def class_iff LP_ENCODING_6BIT_STR_LEN_def e_def)
    moreover have "0 < e" by (simp add: e_def split: lp_class.split)
    moreover have "pay (take e (drop p lp))" if "p + e \<le> length lp" "e < 2 ^ 32"
      using hd [OF \<open>0 < e\<close> that(1)] False nb that(2) by (cases "enc_class b") (simp_all add: pay_def e_def)
    ultimately show ?thesis using that(1) by blast
  next
    case str: True
    show ?thesis
    proof (cases "enc_class b = C12s")
      case True
      then have r: "rdb lp (p + 1) = Some (lp ! (p + 1))" using assms(4) by (simp add: lpCurrentEncodedSizeBytes_def class_iff rdb_def)
      define e where "e = 2 + (unat (b AND 0xF) * 256 + unat (lp ! (p + 1)))"
      have "lpCurrentEncodedSizeUnsafe lp p = Some e"
        using assms(1) True r by (simp add: lpCurrentEncodedSizeUnsafe_def class_iff LP_ENCODING_12BIT_STR_LEN_def e_def)
      moreover have "0 < e" by (simp add: e_def)
      moreover have "pay (take e (drop p lp))" if "p + e \<le> length lp" "e < 2 ^ 32"
        using hd [OF \<open>0 < e\<close> that(1)] True that by (simp add: pay_def) (simp add: e_def)
      ultimately show ?thesis using that(1) by blast
    next
      case False
      then have c: "enc_class b = C32s" using str by simp
      then have len: "p + 5 < length lp" using assms(4) by (simp add: lpCurrentEncodedSizeBytes_def class_iff)
      define n where "n = nat (le_uint (take 4 (drop (p + 1) lp)))"
      have r: "rd_le lp (p + 1) 4 = Some n" using len by (simp add: rd_le_def mem_rd_def n_def)
      have n: "n < 2 ^ 32" using le_uint_less [of "take 4 (drop (p + 1) lp)"] len by (simp add: n_def nat_less_iff)
      have sz: "lpCurrentEncodedSizeUnsafe lp p = Some ((5 + n) mod 2 ^ 32)"
        using assms(1) c r by (simp add: lpCurrentEncodedSizeUnsafe_def class_iff LP_ENCODING_32BIT_STR_LEN_def)
      show ?thesis
      proof (cases "5 + n < 2 ^ 32")
        case True
        have "pay (take (5 + n) (drop p lp))" if "p + (5 + n) \<le> length lp"
        proof -
          have "take 4 (drop 1 (take (5 + n) (drop p lp))) = take 4 (drop (p + 1) lp)" by (simp add: drop_take min_def add.commute)
          then have "le_at (take (5 + n) (drop p lp)) 4 = n" by (simp add: le_at_def n_def)
          then show ?thesis using hd [of "5 + n"] that c True by (simp add: pay_def)
        qed
        then show ?thesis using that(1) [of "5 + n"] sz True by simp
      next
        case False
        then have "(5 + n) mod 2 ^ 32 = 5 + n - 2 ^ 32" using n by (simp add: le_mod_geq)
        then show ?thesis using that(2) [OF c r _ n] sz False by simp
      qed
    qed
  qed
qed

text \<open>
  A string length so large that the entry's size wraps around in 32 bits is never accepted: the byte that is then read as
  the length field is the encoding byte or one of the large bytes of the length.
\<close>

lemma wrap_bytes:
  assumes "rd_le lp (p + 1) 4 = Some n" "2 ^ 32 \<le> 5 + n" "1 \<le> j" "j \<le> 4"
  shows "251 \<le> unat (lp ! (p + j))"
proof -
  define xs where "xs = take 4 (drop (p + 1) lp)"
  have len: "p + 5 \<le> length lp" "n = nat (le_uint xs)" using assms(1) by (auto simp: rd_le_def mem_rd_def xs_def split: if_splits)
  then have "length xs = 4" by (simp add: xs_def)
  then obtain a b c d where xs: "xs = [a, b, c, d]" by (auto simp: numeral_eq_Suc length_Suc_conv)
  have at: "xs ! i = lp ! (p + 1 + i)" if "i < 4" for i using that len(1) by (simp add: xs_def)
  have lt: "uint x < 256" "0 \<le> uint x" for x :: byte using uint_lt2p [of x] by simp_all
  have "4294967291 \<le> le_uint xs" using assms(2) len(2) by (simp add: le_nat_iff)
  moreover have "le_uint xs = uint a + 256 * uint b + 65536 * uint c + 16777216 * uint d" by (simp add: xs algebra_simps)
  ultimately have sum: "4294967291 \<le> uint a + 256 * uint b + 65536 * uint c + 16777216 * uint d" by simp
  note le = lt(1) [of a] lt(1) [of b] lt(1) [of c] lt(1) [of d]
  have "251 \<le> uint a" using sum le by linarith
  moreover have "251 \<le> uint b" using sum le by linarith
  moreover have "251 \<le> uint c" using sum le by linarith
  moreover have "251 \<le> uint d" using sum le by linarith
  ultimately have "\<forall>x \<in> set xs. 251 \<le> uint x" by (simp add: xs)
  then have "251 \<le> uint (xs ! (j - 1))" using assms(3,4) \<open>length xs = 4\<close> nth_mem [of "j - 1" xs] by simp
  then have "251 \<le> uint (lp ! (p + j))" using at [of "j - 1"] assms(3,4) by simp
  then show ?thesis by (simp add: le_nat_iff unat_eq_nat_uint del: nat_uint_eq)
qed

lemma wrap_one: "1 \<le> b \<Longrightarrow> b \<le> 5 \<Longrightarrow> (18446744073709551615 + b) mod 18446744073709551616 = b - (1 :: nat)"
proof -
  assume "1 \<le> b" "b \<le> 5"
  then have "18446744073709551615 + b = 18446744073709551616 + (b - 1)" by simp
  then show ?thesis using \<open>b \<le> 5\<close> by (simp only: mod_add_self1) simp
qed

lemma validate_next:
  assumes "6 \<le> p" "p < bytes" "bytes \<le> length lp" "bytes < 2 ^ 32"
  obtains (eof) "rdb lp p = Some LP_EOF" "lpValidateNext lp (Some p) bytes = Some (Some None)"
  | (bad) c where "rdb lp p = Some c" "c \<noteq> LP_EOF" "lpValidateNext lp (Some p) bytes = Some None"
  | (ok) c b where "rdb lp p = Some c" "c \<noteq> LP_EOF" "lpValidateNext lp (Some p) bytes = Some (Some (Some (p + length (chunk b))))"
      "piece lp p b" "pay b" "p + length (chunk b) < bytes" "lpDecodeBacklen lp (p + length (chunk b) - 1) = Some (length b)"
proof -
  define c where "c = lp ! p"
  have c: "rdb lp p = Some c" using assms by (simp add: rdb_def c_def)
  have r: "OUT_OF_RANGE bytes (p + x) \<longleftrightarrow> bytes \<le> p + x" for x using assms(1) by (auto simp: OUT_OF_RANGE_def LP_HDR_SIZE_def)
  have r0: "\<not> OUT_OF_RANGE bytes p" using r [of 0] assms(2) by simp
  show ?thesis
  proof (cases "c = LP_EOF")
    case True
    then show ?thesis using eof c r0 by (simp add: lpValidateNext_def)
  next
    case ne: False
    show ?thesis
    proof (cases "lpCurrentEncodedSizeBytes c = 0 \<or> bytes \<le> p + lpCurrentEncodedSizeBytes c")
      case True
      then show ?thesis using bad [OF c ne] c ne r0 r by (auto simp: lpValidateNext_def Let_def)
    next
      case False
      then have lb: "lpCurrentEncodedSizeBytes c \<noteq> 0" "p + lpCurrentEncodedSizeBytes c < bytes" by auto
      then have lb': "p + lpCurrentEncodedSizeBytes c < length lp" using assms(3) by simp
      have run: "lpValidateNext lp (Some p) bytes = (let eb = lpEncodeBacklenBytes e in
          if bytes \<le> p + (e + eb) then Some None else do { prevlen \<leftarrow> lpDecodeBacklen lp (p + (e + eb) - 1);
            Some (if (prevlen + eb) mod 2 ^ 64 \<noteq> e + eb then None else Some (Some (p + (e + eb)))) })"
        if "lpCurrentEncodedSizeUnsafe lp p = Some e" for e
        using c ne r0 r lb that by (simp add: lpValidateNext_def Let_def)
      show ?thesis
      proof (rule size_cases [OF c lb(1) ne lb'])
        fix e assume e: "lpCurrentEncodedSizeUnsafe lp p = Some e" "0 < e" "p + e \<le> length lp \<Longrightarrow> e < 2 ^ 32 \<Longrightarrow> pay (take e (drop p lp))"
        let ?eb = "lpEncodeBacklenBytes e"
        show ?thesis
        proof (cases "bytes \<le> p + (e + ?eb)")
          case True
          then show ?thesis using bad [OF c ne] run [OF e(1)] by (simp add: Let_def)
        next
          case False
          define b where "b = take e (drop p lp)"
          have b: "length b = e" "piece lp p b" "pay b" "length (chunk b) = e + ?eb"
            using False assms e(3) by (simp_all add: b_def piece_def length_chunk)
          have eb: "1 \<le> ?eb" "?eb \<le> 5" using backlen_bytes_bounds [of e] by auto
          have i: "4 \<le> p + (e + ?eb) - 1" "p + (e + ?eb) - 1 < length lp" using assms False eb e(2) by simp_all
          obtain v where v: "lpDecodeBacklen lp (p + (e + ?eb) - 1) = Some v" using decode_total [OF i] by blast
          show ?thesis
          proof (cases "v = e")
            case True
            then show ?thesis using ok [of c b] c ne b False run [OF e(1)] v eb assms by (simp add: Let_def)
          next
            case ve: False
            have "v < 2 ^ 35 \<or> v = 2 ^ 64 - 1" using decode_value [OF v, of "lp ! (p + (e + ?eb) - 1)"] i(2) by (auto simp: rdb_def)
            then have "(v + ?eb) mod 2 ^ 64 \<noteq> e + ?eb" using ve eb e(2) wrap_one [of ?eb] by auto
            then show ?thesis using bad [OF c ne] run [OF e(1)] v False by (simp add: Let_def)
          qed
        qed
      next
        fix n assume n: "enc_class c = C32s" "rd_le lp (p + 1) 4 = Some n" "2 ^ 32 \<le> 5 + n" "n < 2 ^ 32"
          "lpCurrentEncodedSizeUnsafe lp p = Some (5 + n - 2 ^ 32)"
        define e where "e = 5 + n - 2 ^ 32"
        have n5: "lpCurrentEncodedSizeUnsafe lp p = Some e" using n(5) by (simp only: e_def)
        have e: "e \<le> 4" "lpEncodeBacklenBytes e = 1" using n(4) by (auto simp: e_def lpEncodeBacklenBytes_def)
        show ?thesis
        proof (cases "bytes \<le> p + (e + 1)")
          case True
          then show ?thesis using bad [OF c ne] run [OF n5] e by (simp add: Let_def)
        next
          case False
          then have i: "4 \<le> p + e" "p + e < length lp" using assms by simp_all
          obtain v where v: "lpDecodeBacklen lp (p + e) = Some v" using decode_total [OF i] by blast
          have "112 \<le> unat (lp ! (p + e)) mod 128"
          proof (cases "e = 0")
            case True
            have "c = 0xF0" using n(1) class_iff(9) [of c] by (simp add: LP_ENCODING_IS_32BIT_STR_def)
            then show ?thesis using True by (simp add: c_def)
          next
            case False
            have "251 \<le> unat (lp ! (p + e))" using wrap_bytes [OF n(2,3), of e] False e(1) by simp
            moreover have "unat (lp ! (p + e)) < 256" by (rule byte_lt)
            ultimately have "unat (lp ! (p + e)) mod 128 = unat (lp ! (p + e)) - 128" by (simp add: le_mod_geq)
            then show ?thesis using \<open>251 \<le> unat (lp ! (p + e))\<close> by linarith
          qed
          then have "v < 2 ^ 35 \<and> v \<noteq> e \<or> v = 2 ^ 64 - 1"
            using decode_value [OF v, of "lp ! (p + e)"] i(2) e(1) by (auto simp: rdb_def)
          then have "(v + 1) mod 2 ^ 64 \<noteq> e + 1" using wrap_one [of 1] by auto
          then show ?thesis using bad [OF c ne] run [OF n5] e v False by (simp add: Let_def)
        qed
      qed
    qed
  qed
qed

section \<open>The loop over the entries\<close>

text \<open>Accepted entries one after the other, from \<open>p\<close> to \<open>q\<close>.\<close>

fun segm :: "bytes \<Rightarrow> nat \<Rightarrow> bytes list \<Rightarrow> nat \<Rightarrow> bool" where
  "segm lp p [] q \<longleftrightarrow> p = q"
| "segm lp p (b # bs) q \<longleftrightarrow> piece lp p b \<and> pay b \<and> lpDecodeBacklen lp (p + length (chunk b) - 1) = Some (length b) \<and>
     segm lp (p + length (chunk b)) bs q"

lemma segm_end: "segm lp p bs q \<Longrightarrow> q = p + length (body bs)"
proof (induction bs arbitrary: p)
  case (Cons b bs)
  have "segm lp (p + length (chunk b)) bs q" using Cons.prems by simp
  from Cons.IH [OF this] show ?case by simp
qed simp

lemma segm_nth: "segm lp p bs q \<Longrightarrow> k < length bs \<Longrightarrow> piece lp (p + length (body (take k bs))) (bs ! k) \<and> pay (bs ! k) \<and>
  lpDecodeBacklen lp (p + length (body (take (Suc k) bs)) - 1) = Some (length (bs ! k))"
proof (induction bs arbitrary: p k)
  case (Cons b bs)
  then show ?case using Cons.IH [of "p + length (chunk b)" "k - 1"] by (cases k) (auto simp: add.assoc)
qed simp

lemma validate_entries_runs:
  "6 \<le> p \<Longrightarrow> p < bytes \<Longrightarrow> bytes \<le> length lp \<Longrightarrow> bytes < 2 ^ 32 \<Longrightarrow>
   \<exists>r. validate_entries lp bytes numele entry_cb (Some p) c = Some r \<and>
     (\<forall>q c'. r = Some (q, c') \<longrightarrow> (\<exists>bs e. q = Some e \<and> e < bytes \<and> rdb lp e = Some LP_EOF \<and> segm lp p bs e \<and> c' = c + length bs))"
proof (induction "bytes - p" arbitrary: p c rule: less_induct)
  case less
  show ?case
  proof (rule validate_next [OF less.prems])
    assume "rdb lp p = Some LP_EOF"
    then show ?thesis using less.prems(2) by (subst validate_entries.simps) (auto intro!: exI [of _ "[]"])
  next
    fix x assume "rdb lp p = Some x" "x \<noteq> LP_EOF" "lpValidateNext lp (Some p) bytes = Some None"
    then show ?thesis by (subst validate_entries.simps) simp
  next
    fix x b assume v: "rdb lp p = Some x" "x \<noteq> LP_EOF" "lpValidateNext lp (Some p) bytes = Some (Some (Some (p + length (chunk b))))"
      "piece lp p b" "pay b" "p + length (chunk b) < bytes" "lpDecodeBacklen lp (p + length (chunk b) - 1) = Some (length b)"
    have "0 < length (chunk b)" using v(5) chunk_pos [of b] by (auto simp: pay_def)
    then have d: "bytes - (p + length (chunk b)) < bytes - p" using less.prems(2) by linarith
    have step: "validate_entries lp bytes numele entry_cb (Some p) c = (if \<not> entry_cb p numele then Some None
      else validate_entries lp bytes numele entry_cb (Some (p + length (chunk b))) (c + 1))"
      by (subst validate_entries.simps) (simp add: v(1-3))
    obtain r where r: "validate_entries lp bytes numele entry_cb (Some (p + length (chunk b))) (c + 1) = Some r"
      "\<And>q c'. r = Some (q, c') \<Longrightarrow> \<exists>bs e. q = Some e \<and> e < bytes \<and> rdb lp e = Some LP_EOF \<and> segm lp (p + length (chunk b)) bs e \<and> c' = c + 1 + length bs"
      using less.hyps [OF d, of "c + 1"] less.prems v(6) by auto
    have "\<exists>bs e. q = Some e \<and> e < bytes \<and> rdb lp e = Some LP_EOF \<and> segm lp p bs e \<and> c' = c + length bs" if eq: "r = Some (q, c')" for q c'
    proof -
      obtain bs e where "q = Some e" "e < bytes" "rdb lp e = Some LP_EOF" "segm lp (p + length (chunk b)) bs e" "c' = c + 1 + length bs"
        using r(2) [OF eq] by blast
      then show ?thesis using v(4,5,7) by (intro exI [of _ "b # bs"]) auto
    qed
    then show ?thesis using r(1) by (simp add: step)
  qed
qed

text \<open>On a buffer that can be navigated the loop reaches the terminator.\<close>

lemma validate_entries_accepts:
  assumes "lp_nav lp num bs" "\<And>k. k < length bs \<Longrightarrow> entry_cb (off bs k) numele"
  shows "k \<le> length bs \<Longrightarrow> validate_entries lp (lp_total bs) numele entry_cb (Some (off bs k)) c = Some (Some (Some (lp_total bs - 1), c + (length bs - k)))"
proof (induction "length bs - k" arbitrary: k c)
  case 0
  then have "k = length bs" by simp
  then show ?case using nav_basic(5) [OF assms(1)] off_end [of bs] by (subst validate_entries.simps) simp
next
  case (Suc x)
  then have k: "k < length bs" by simp
  obtain b where b: "rdb lp (off bs k) = Some b" "b \<noteq> LP_EOF" using nav_rdb_eof [OF assms(1), of k] k by auto
  have "validate_entries lp (lp_total bs) numele entry_cb (Some (off bs k)) c = validate_entries lp (lp_total bs) numele entry_cb (Some (off bs (Suc k))) (c + 1)"
    by (subst validate_entries.simps) (simp add: b nav_validate [OF assms(1) k] assms(2) [OF k])
  then show ?case using Suc.hyps(1) [of "Suc k" "c + 1"] Suc.hyps(2) k by simp
qed

section \<open>The integrity check\<close>

lemma header_total: "7 \<le> length lp \<Longrightarrow> \<exists>bytes. lpGetTotalBytes lp = Some bytes \<and> bytes < 2 ^ 32"
  using le_uint_less [of "take 4 lp"] by (auto simp: lpGetTotalBytes_def rd_le_def mem_rd_def nat_less_iff)

lemma header_num: "7 \<le> length lp \<Longrightarrow> \<exists>num. lpGetNumElements lp = Some num \<and> num < 65536"
  using le_uint_less [of "take 2 (drop 4 lp)"] by (auto simp: lpGetNumElements_def rd_le_def mem_rd_def nat_less_iff)

lemma validate_total:
  "\<exists>r. lpValidateIntegrity lp (length lp) deep entry_cb = Some r \<and> (r \<longrightarrow> deep \<longrightarrow> (\<exists>num bs. lp_nav lp num bs \<and> lp_total bs = length lp))"
proof (cases "length lp < 7")
  case True
  then show ?thesis by (intro exI [of _ False]) (simp add: lpValidateIntegrity_def LP_HDR_SIZE_def)
next
  case False
  then obtain bytes num where h: "lpGetTotalBytes lp = Some bytes" "bytes < 2 ^ 32" "lpGetNumElements lp = Some num" "num < 65536"
    using header_total [of lp] header_num [of lp] by auto
  show ?thesis
  proof (cases "bytes = length lp \<and> lp ! (length lp - 1) = LP_EOF")
    case no: False
    then show ?thesis using False h by (auto simp: lpValidateIntegrity_def LP_HDR_SIZE_def rdb_def)
  next
    case True
    obtain r where r: "validate_entries lp (length lp) num entry_cb (Some 6) 0 = Some r"
      "\<And>q c. r = Some (q, c) \<Longrightarrow> \<exists>bs e. q = Some e \<and> e < length lp \<and> rdb lp e = Some LP_EOF \<and> segm lp 6 bs e \<and> c = 0 + length bs"
      using validate_entries_runs [of 6 "length lp" lp num entry_cb 0] False True h by auto
    have run: "lpValidateIntegrity lp (length lp) deep entry_cb = Some (\<not> deep \<or> (case r of None \<Rightarrow> False
      | Some (p, count) \<Rightarrow> p = Some (length lp - 1) \<and> (num = 65535 \<or> num = count)))"
      using False True h r(1) unfolding lpValidateIntegrity_def LP_HDR_SIZE_def LP_HDR_NUMELE_UNKNOWN_def by (auto simp: rdb_def)
    have "\<exists>num bs. lp_nav lp num bs \<and> lp_total bs = length lp" if eq: "r = Some (Some (length lp - 1), c)" "num = 65535 \<or> num = c" for c
    proof -
      obtain bs where bs: "rdb lp (length lp - 1) = Some LP_EOF" "segm lp 6 bs (length lp - 1)" "c = length bs" using r(2) [OF eq(1)] by auto
      have t: "lp_total bs = length lp" using segm_end [OF bs(2)] False by (simp add: lp_total_def)
      have "list_all pay bs" using segm_nth [OF bs(2)] by (simp add: list_all_length)
      moreover have "num_ok num bs" using eq(2) h(4) bs(3) by (auto simp: num_ok_def)
      ultimately have "lp_nav lp num bs"
        using h True bs t segm_nth [OF bs(2)] off_end [of bs] by (simp add: lp_nav_def off_def)
      then show ?thesis using t by blast
    qed
    then show ?thesis unfolding run by (auto split: option.splits)
  qed
qed

lemma validate_accepts:
  assumes "lp_nav lp num bs" "\<And>k. k < length bs \<Longrightarrow> entry_cb (off bs k) num"
  shows "lpValidateIntegrity lp (lp_total bs) deep entry_cb = Some True"
proof -
  have "rdb lp (lp_total bs - 1) = Some LP_EOF" using nav_basic(5) [OF assms(1)] off_end [of bs] by simp
  moreover have "validate_entries lp (lp_total bs) num entry_cb (Some 6) 0 = Some (Some (Some (lp_total bs - 1), length bs))"
    using validate_entries_accepts [OF assms(1), of entry_cb num 0 0] assms(2) by simp
  moreover have "num = 65535 \<or> num = length bs" using nav_basic(3) [OF assms(1)] by (auto simp: num_ok_def)
  moreover have "\<not> lp_total bs < 7" by (simp add: lp_total_def)
  ultimately show ?thesis using nav_basic(1,2) [OF assms(1)]
    by (auto simp: lpValidateIntegrity_def LP_HDR_SIZE_def LP_HDR_NUMELE_UNKNOWN_def)
qed

end
