(* ===== verification/Listpack_Session.thy ===== *)
theory Listpack_Session
  imports Listpack_Bulk Listpack_Valid
begin

text \<open>
  A listpack as a client sees it: a list of strings, an integer being the string of its digits. Every session of calls on
  a new listpack gives the results of the same calls on that list.
\<close>

section \<open>Canonical encodings\<close>

lemma enc_ele_sdec: "int64 v \<Longrightarrow> enc_ele (sdec v) = lpEncodeIntegerGetType v"
  using string2ll_sdec [of v] by (simp add: enc_ele_def lpEncodeGetType_def lpStringToInt64_eq)

lemma chunk_fits: "length (chunk (enc_ele s)) < 2 ^ 32 \<Longrightarrow> pay (enc_ele s) \<and> ptext (enc_ele s) = s"
proof (cases "length s + 5 < 2 ^ 32")
  case True
  then show ?thesis using enc_ele_ok by blast
next
  case False
  assume a: "length (chunk (enc_ele s)) < 2 ^ 32"
  have "lpStringToInt64 s = None" using False by (simp add: lpStringToInt64_def LONG_STR_SIZE_def)
  then have "length (enc_ele s) = 5 + length s" using False by (simp add: enc_ele_def lpEncodeGetType_def length_encodeString Let_def)
  then show ?thesis using a False by (simp add: length_chunk)
qed

text \<open>The bytes a list of strings takes.\<close>

definition lp_size :: "bytes list \<Rightarrow> nat" where
  "lp_size xs = lp_total (map enc_ele xs)"

lemma size_member: "lp_size xs < 2 ^ 32 \<Longrightarrow> x \<in> set xs \<Longrightarrow> pay (enc_ele x) \<and> ptext (enc_ele x) = x"
proof -
  assume a: "lp_size xs < 2 ^ 32" "x \<in> set xs"
  then obtain ys zs where "xs = ys @ x # zs" by (meson split_list)
  then have "length (chunk (enc_ele x)) < 2 ^ 32" using a(1) by (simp add: lp_size_def lp_total_def)
  then show ?thesis by (rule chunk_fits)
qed

definition lp_holds :: "bytes \<Rightarrow> bytes list \<Rightarrow> bool" where
  "lp_holds lp xs \<longleftrightarrow> lp_rep lp (map enc_ele xs)"

lemma holds_form:
  assumes "lp_holds lp xs"
  obtains num slack where "lp_form lp num (map enc_ele xs) slack" "lp_size xs < 2 ^ 32"
  using assms by (auto simp: lp_holds_def lp_rep_def lp_size_def lp_form_def)

lemma holdsI: "lp_form lp num bs slack \<Longrightarrow> bs = map enc_ele xs \<Longrightarrow> lp_holds lp xs"
  by (auto simp: lp_holds_def lp_rep_def)

lemma holds_text: "lp_holds lp xs \<Longrightarrow> k < length xs \<Longrightarrow> ptext (enc_ele (xs ! k)) = xs ! k"
  using size_member [of xs "xs ! k"] by (auto elim: holds_form)

section \<open>Calls\<close>

datatype lp_ele = Str bytes | Num int

fun ele_text :: "lp_ele \<Rightarrow> bytes" where
  "ele_text (Str s) = s"
| "ele_text (Num v) = sdec v"

fun ele_fits :: "lp_ele \<Rightarrow> bool" where
  "ele_fits (Str s) \<longleftrightarrow> True"
| "ele_fits (Num v) \<longleftrightarrow> int64 v"

fun as_entry :: "lp_ele \<Rightarrow> listpackEntry" where
  "as_entry (Str s) = SVal s"
| "as_entry (Num v) = LVal v"

datatype lp_call =
    Append lp_ele | Prepend lp_ele | Insert int lp_ele lpWhere | Delete int | DeleteRange int nat
  | BatchAppend "lp_ele list" | BatchInsert int "lp_ele list" bool | Shrink | Dup | Count | Get int | Search bytes nat

text \<open>The results: the entry that the returned pointer is at, the value \<^verbatim>\<open>NULL\<close> for a listpack too large, a missing index.\<close>

datatype lp_res = Done | At "bytes option" | TooLarge | NoEntry | Length nat | Value bytes | Found bool

definition read_at :: "bytes \<Rightarrow> nat option \<Rightarrow> lp_res option" where
  "read_at lp p = (case p of None \<Rightarrow> Some (At None)
     | Some p \<Rightarrow> do { g \<leftarrow> lpGet lp p None; t \<leftarrow> got_text lp g; Some (At (Some t)) })"

definition edited :: "bytes \<Rightarrow> (bytes \<times> nat option) option option \<Rightarrow> (lp_res \<times> bytes) option" where
  "edited lp r = do { r \<leftarrow> r; (case r of None \<Rightarrow> Some (TooLarge, lp) | Some (lp, newp) \<Rightarrow> do { a \<leftarrow> read_at lp newp; Some (a, lp) }) }"

definition at_index :: "bytes \<Rightarrow> int \<Rightarrow> (nat \<Rightarrow> (lp_res \<times> bytes) option) \<Rightarrow> (lp_res \<times> bytes) option" where
  "at_index lp i f = do { p \<leftarrow> lpSeek lp i; (case p of None \<Rightarrow> Some (NoEntry, lp) | Some p \<Rightarrow> f p) }"

fun exec_lp :: "(nat \<Rightarrow> byte) \<Rightarrow> lp_call \<Rightarrow> bytes \<Rightarrow> (lp_res \<times> bytes) option" where
  "exec_lp junk (Append (Str s)) lp = edited lp (lpAppend junk lp s)"
| "exec_lp junk (Append (Num v)) lp = edited lp (lpAppendInteger junk lp v)"
| "exec_lp junk (Prepend (Str s)) lp = edited lp (lpPrepend junk lp s)"
| "exec_lp junk (Prepend (Num v)) lp = edited lp (lpPrependInteger junk lp v)"
| "exec_lp junk (Insert i (Str s) wh) lp = at_index lp i (\<lambda>p. edited lp (lpInsertString junk lp s p wh))"
| "exec_lp junk (Insert i (Num v) wh) lp = at_index lp i (\<lambda>p. edited lp (lpInsertInteger junk lp v p wh))"
| "exec_lp junk (Delete i) lp = at_index lp i (\<lambda>p. edited lp (lpDelete junk lp p))"
| "exec_lp junk (DeleteRange i n) lp = do { lp \<leftarrow> lpDeleteRange junk lp i n; Some (Done, lp) }"
| "exec_lp junk (BatchAppend es) lp = edited lp (lpBatchAppend junk lp (map as_entry es))"
| "exec_lp junk (BatchInsert i es aft) lp =
     at_index lp i (\<lambda>p. edited lp (lpBatchInsert junk lp p (if aft then LP_AFTER else LP_BEFORE) (map as_entry es)))"
| "exec_lp junk Shrink lp = do { lp \<leftarrow> lpShrinkToFit junk lp; Some (Done, lp) }"
| "exec_lp junk Dup lp = do { lp \<leftarrow> lpDup lp; Some (Done, lp) }"
| "exec_lp junk Count lp = do { (lp, n) \<leftarrow> lpLength lp; Some (Length n, lp) }"
| "exec_lp junk (Get i) lp = at_index lp i (\<lambda>p. do { g \<leftarrow> lpGet lp p (Some (replicate LP_INTBUF_SIZE 0)); t \<leftarrow> got_text lp g; Some (Value t, lp) })"
| "exec_lp junk (Search s skip) lp = do { p \<leftarrow> lpFind lp None s skip; Some (Found (p \<noteq> None), lp) }"

section \<open>The same calls on a list of strings\<close>

text \<open>The list becomes \<open>xs'\<close> with the pointer at its entry \<open>k\<close>, unless that is too large.\<close>

definition put :: "bytes list \<Rightarrow> nat \<Rightarrow> bytes list \<Rightarrow> lp_res \<times> bytes list" where
  "put xs' k xs = (if lp_size xs' < 2 ^ 32 then (At (if k < length xs' then Some (xs' ! k) else None), xs') else (TooLarge, xs))"

definition spec_at :: "int \<Rightarrow> bytes list \<Rightarrow> (nat \<Rightarrow> lp_res \<times> bytes list) \<Rightarrow> lp_res \<times> bytes list" where
  "spec_at i xs f = (let j = (if i < 0 then int (length xs) + i else i)
     in if 0 \<le> j \<and> j < int (length xs) then f (nat j) else (NoEntry, xs))"

definition ins :: "nat \<Rightarrow> bytes list \<Rightarrow> bytes list \<Rightarrow> bytes list" where
  "ins k ys xs = take k xs @ ys @ drop k xs"

fun spec_lp :: "lp_call \<Rightarrow> bytes list \<Rightarrow> lp_res \<times> bytes list" where
  "spec_lp (Append e) xs = put (xs @ [ele_text e]) (length xs) xs"
| "spec_lp (Prepend e) xs = put (ele_text e # xs) 0 xs"
| "spec_lp (Insert i e wh) xs = spec_at i xs (\<lambda>k. case wh of
     LP_BEFORE \<Rightarrow> put (ins k [ele_text e] xs) k xs
   | LP_AFTER \<Rightarrow> put (ins (Suc k) [ele_text e] xs) (Suc k) xs
   | LP_REPLACE \<Rightarrow> put (xs[k := ele_text e]) k xs)"
| "spec_lp (Delete i) xs = spec_at i xs (\<lambda>k. put (take k xs @ drop (Suc k) xs) k xs)"
| "spec_lp (DeleteRange i n) xs = (Done, snd (spec_at i xs (\<lambda>k. (Done, take k xs @ drop (k + n) xs))))"
| "spec_lp (BatchAppend es) xs = put (xs @ map ele_text es) (length xs + length es - 1) xs"
| "spec_lp (BatchInsert i es aft) xs = spec_at i xs (\<lambda>k. let k = (if aft then Suc k else k)
     in put (ins k (map ele_text es) xs) (k + length es - 1) xs)"
| "spec_lp Shrink xs = (Done, xs)"
| "spec_lp Dup xs = (Done, xs)"
| "spec_lp Count xs = (Length (length xs), xs)"
| "spec_lp (Get i) xs = spec_at i xs (\<lambda>k. (Value (xs ! k), xs))"
| "spec_lp (Search s skip) xs = (Found (\<exists>i < length xs. i mod Suc skip = 0 \<and> xs ! i = s), xs)"

text \<open>Integers are 64-bit, batches are not empty.\<close>

fun lp_ok :: "lp_call \<Rightarrow> bytes list \<Rightarrow> bool" where
  "lp_ok (Append e) xs = ele_fits e"
| "lp_ok (Prepend e) xs = ele_fits e"
| "lp_ok (Insert _ e _) xs = ele_fits e"
| "lp_ok (BatchAppend es) xs = (es \<noteq> [] \<and> list_all ele_fits es)"
| "lp_ok (BatchInsert _ es _) xs = (es \<noteq> [] \<and> list_all ele_fits es)"
| "lp_ok _ xs = True"

section \<open>Refinement\<close>

fun store :: "lp_ele \<Rightarrow> lpEle" where
  "store (Str s) = EleStr s"
| "store (Num v) = EleInt (lpEncodeIntegerGetType v)"

lemma store_bytes: "ele_fits e \<Longrightarrow> ele_bytes (store e) = enc_ele (ele_text e) \<and> store e \<noteq> EleNone"
  by (cases e) (simp_all add: enc_ele_sdec)

lemma entry_store: "list_all ele_fits es \<Longrightarrow> map entry_bytes (map as_entry es) = map enc_ele (map ele_text es)"
proof (induction es)
  case (Cons e es)
  then show ?case by (cases e) (simp_all add: entry_bytes_def enc_ele_sdec)
qed simp

lemma nav_text: "lp_nav lp num bs \<Longrightarrow> k < length bs \<Longrightarrow> do { g \<leftarrow> lpGet lp (off bs k) None; got_text lp g } = Some (ptext (bs ! k))"
proof -
  assume a: "lp_nav lp num bs" "k < length bs"
  show ?thesis using nav_entry(2) [OF a]
  proof (cases rule: pval_cases)
    case (int v)
    then show ?thesis using nav_get [OF a] by (simp add: got_text_def)
  next
    case (str h)
    then show ?thesis using nav_get [OF a] piece_text [OF nav_entry(1) [OF a], of h] by (simp add: got_text_def)
  qed
qed

lemma read_entry:
  assumes "lp_form lp num (map enc_ele xs) slack" "k < length xs"
  shows "read_at lp (Some (off (map enc_ele xs) k)) = Some (At (Some (xs ! k)))"
proof -
  have "lp_holds lp xs" using holdsI [OF assms(1) refl] .
  then have "ptext (enc_ele (xs ! k)) = xs ! k" using holds_text assms(2) by blast
  moreover obtain g where "lpGet lp (off (map enc_ele xs) k) None = Some g" "got_text lp g = Some (ptext (enc_ele (xs ! k)))"
    using nav_text [OF form_nav [OF assms(1)], of k] assms(2) by (auto simp: bind_eq_Some_conv)
  ultimately show ?thesis by (simp add: read_at_def)
qed

lemma edited_put:
  assumes h: "lp_holds lp xs"
    and r: "if lp_total bs' < 2 ^ 32 then \<exists>lp' num' slack'. r = Some (Some (lp', q)) \<and> lp_form lp' num' bs' slack' else r = Some None"
    and bs': "bs' = map enc_ele xs'" and q: "q = (if k < length xs' then Some (off bs' k) else None)"
  shows "\<exists>lp'. edited lp r = Some (fst (put xs' k xs), lp') \<and> lp_holds lp' (snd (put xs' k xs))"
proof (cases "lp_total bs' < 2 ^ 32")
  case True
  then obtain lp' num' slack' where x: "r = Some (Some (lp', q))" "lp_form lp' num' bs' slack'" using r by auto
  have "read_at lp' q = Some (At (if k < length xs' then Some (xs' ! k) else None))"
    using read_entry [OF x(2) [unfolded bs'], of k] by (simp add: q bs' read_at_def)
  then show ?thesis using x True holdsI [OF x(2) bs'] by (simp add: edited_def put_def lp_size_def bs')
next
  case False
  then show ?thesis using r h by (simp add: edited_def put_def lp_size_def bs')
qed

lemma off_take: "take k bs' = take k bs \<Longrightarrow> off bs' k = off bs k"
  by (simp add: off_def)

text \<open>Insertion before an entry or the end.\<close>

lemma insert_refines:
  assumes h: "lp_holds lp xs" and f: "lp_form lp num (map enc_ele xs) slack" and k: "k \<le> length xs" and e: "ele_fits e"
  shows "\<exists>lp'. edited lp (lpInsert junk lp (store e) (off (map enc_ele xs) k) LP_BEFORE) = Some (fst (put (ins k [ele_text e] xs) k xs), lp') \<and>
    lp_holds lp' (snd (put (ins k [ele_text e] xs) k xs))"
proof (rule edited_put [OF h])
  let ?bs = "map enc_ele xs"
  let ?bs' = "take k ?bs @ ele_bytes (store e) # drop k ?bs"
  have b: "?bs' = map enc_ele (ins k [ele_text e] xs)" using store_bytes [OF e] by (simp add: ins_def take_map drop_map)
  have "ele_text e \<in> set (ins k [ele_text e] xs)" by (simp add: ins_def)
  then have "lp_total (map enc_ele (ins k [ele_text e] xs)) < 2 ^ 32 \<Longrightarrow> pay (ele_bytes (store e))"
    using size_member [of "ins k [ele_text e] xs" "ele_text e"] store_bytes [OF e] by (simp add: lp_size_def)
  then show "if lp_total (map enc_ele (ins k [ele_text e] xs)) < 2 ^ 32 then \<exists>lp' num' slack'.
      lpInsert junk lp (store e) (off ?bs k) LP_BEFORE = Some (Some (lp', Some (off ?bs k))) \<and> lp_form lp' num' (map enc_ele (ins k [ele_text e] xs)) slack'
    else lpInsert junk lp (store e) (off ?bs k) LP_BEFORE = Some None"
    using form_insert_before [OF f, of k "store e" junk] k store_bytes [OF e] unfolding b by simp
  show "Some (off ?bs k) = (if k < length (ins k [ele_text e] xs) then Some (off (map enc_ele (ins k [ele_text e] xs)) k) else None)"
    using k off_take [of k "map enc_ele (ins k [ele_text e] xs)" ?bs] by (simp add: ins_def take_map)
qed simp

lemma replace_refines:
  assumes h: "lp_holds lp xs" and f: "lp_form lp num (map enc_ele xs) slack" and k: "k < length xs" and e: "ele_fits e"
  shows "\<exists>lp'. edited lp (lpInsert junk lp (store e) (off (map enc_ele xs) k) LP_REPLACE) = Some (fst (put (xs[k := ele_text e]) k xs), lp') \<and>
    lp_holds lp' (snd (put (xs[k := ele_text e]) k xs))"
proof (rule edited_put [OF h])
  let ?bs = "map enc_ele xs" and ?xs' = "xs[k := ele_text e]"
  have b: "?bs[k := ele_bytes (store e)] = map enc_ele ?xs'" using store_bytes [OF e] by (simp add: map_update)
  have "lp_total (map enc_ele ?xs') < 2 ^ 32 \<Longrightarrow> pay (ele_bytes (store e))"
    using size_member [of ?xs' "ele_text e"] store_bytes [OF e] k set_update_memI [of k xs] by (simp add: lp_size_def)
  then show "if lp_total (map enc_ele ?xs') < 2 ^ 32 then \<exists>lp' num' slack'.
      lpInsert junk lp (store e) (off ?bs k) LP_REPLACE = Some (Some (lp', Some (off ?bs k))) \<and> lp_form lp' num' (map enc_ele ?xs') slack'
    else lpInsert junk lp (store e) (off ?bs k) LP_REPLACE = Some None"
    using form_replace [OF f, of k "store e" junk] k store_bytes [OF e] unfolding b by simp
  show "Some (off ?bs k) = (if k < length ?xs' then Some (off (map enc_ele ?xs') k) else None)"
    using k off_take [of k "map enc_ele ?xs'" ?bs] by (simp add: take_map)
qed simp

lemma delete_refines:
  assumes h: "lp_holds lp xs" and f: "lp_form lp num (map enc_ele xs) slack" and k: "k < length xs"
  shows "\<exists>lp'. edited lp (lpDelete junk lp (off (map enc_ele xs) k)) = Some (fst (put (take k xs @ drop (Suc k) xs) k xs), lp') \<and>
    lp_holds lp' (snd (put (take k xs @ drop (Suc k) xs) k xs))"
proof (rule edited_put [OF h])
  let ?bs = "map enc_ele xs" and ?xs' = "take k xs @ drop (Suc k) xs"
  have b: "take k ?bs @ drop (Suc k) ?bs = map enc_ele ?xs'" by (simp add: take_map drop_map)
  obtain lp' num' slack' where d: "lpDelete junk lp (off ?bs k) = Some (Some (lp', entry_at (map enc_ele ?xs') k))" "lp_form lp' num' (map enc_ele ?xs') slack'"
    using form_delete [OF f, of k junk] k unfolding b by auto
  then show "if lp_total (map enc_ele ?xs') < 2 ^ 32 then \<exists>lp' num' slack'.
      lpDelete junk lp (off ?bs k) = Some (Some (lp', entry_at (map enc_ele ?xs') k)) \<and> lp_form lp' num' (map enc_ele ?xs') slack'
    else lpDelete junk lp (off ?bs k) = Some None"
    using lp_formD(3) [OF d(2)] by auto
qed (simp_all add: entry_at_def)

lemma batch_refines:
  assumes h: "lp_holds lp xs" and f: "lp_form lp num (map enc_ele xs) slack" and k: "k \<le> length xs" and e: "es \<noteq> []" "list_all ele_fits es"
  shows "\<exists>lp'. edited lp (lpBatchInsert junk lp (off (map enc_ele xs) k) LP_BEFORE (map as_entry es)) =
      Some (fst (put (ins k (map ele_text es) xs) (k + length es - 1) xs), lp') \<and>
    lp_holds lp' (snd (put (ins k (map ele_text es) xs) (k + length es - 1) xs))"
proof (rule edited_put [OF h])
  let ?bs = "map enc_ele xs" and ?xs' = "ins k (map ele_text es) xs"
  have b: "take k ?bs @ map entry_bytes (map as_entry es) @ drop k ?bs = map enc_ele ?xs'"
    using entry_store [OF e(2)] by (simp add: ins_def take_map drop_map)
  have pay: "lp_total (map enc_ele ?xs') < 2 ^ 32 \<Longrightarrow> list_all pay (map entry_bytes (map as_entry es))"
    unfolding entry_store [OF e(2)] using size_member [of ?xs'] by (auto simp: lp_size_def ins_def list_all_iff)
  show "if lp_total (map enc_ele ?xs') < 2 ^ 32 then \<exists>lp' num' slack'.
      lpBatchInsert junk lp (off ?bs k) LP_BEFORE (map as_entry es) = Some (Some (lp', Some (off (map enc_ele ?xs') (k + length es - 1)))) \<and>
      lp_form lp' num' (map enc_ele ?xs') slack'
    else lpBatchInsert junk lp (off ?bs k) LP_BEFORE (map as_entry es) = Some None"
    by (rule form_batch_before [OF f, of k "map as_entry es" junk, unfolded b length_map]) (simp_all add: k e(1) pay del: map_map)
  have "0 < length es" using e(1) by simp
  then show "Some (off (map enc_ele ?xs') (k + length es - 1)) =
    (if k + length es - 1 < length ?xs' then Some (off (map enc_ele ?xs') (k + length es - 1)) else None)"
    using k by (simp add: ins_def; linarith)
qed simp

text \<open>Calls at an index.\<close>

lemma seek_refines:
  assumes "lp_holds lp xs"
    and "\<And>num slack k. lp_form lp num (map enc_ele xs) slack \<Longrightarrow> k < length xs \<Longrightarrow>
      \<exists>lp'. f (off (map enc_ele xs) k) = Some (fst (g k), lp') \<and> lp_holds lp' (snd (g k))"
  shows "\<exists>lp'. at_index lp i f = Some (fst (spec_at i xs g), lp') \<and> lp_holds lp' (snd (spec_at i xs g))"
proof -
  obtain num slack where fm: "lp_form lp num (map enc_ele xs) slack" using holds_form [OF assms(1)] .
  have s: "lpSeek lp i = Some (map_option (off (map enc_ele xs)) (seek_index (map enc_ele xs) i))" by (rule form_seek [OF fm])
  show ?thesis
  proof (cases "seek_index (map enc_ele xs) i")
    case None
    then show ?thesis using s assms(1) by (auto simp: at_index_def spec_at_def seek_index_def Let_def split: if_splits)
  next
    case (Some k)
    then have "spec_at i xs g = g k" "k < length xs" by (auto simp: spec_at_def seek_index_def Let_def split: if_splits)
    then show ?thesis using s Some assms(2) [OF fm, of k] by (simp add: at_index_def)
  qed
qed

lemma exec_edit:
  "exec_lp junk (Append e) lp = do { n \<leftarrow> lpGetTotalBytes lp; p \<leftarrow> diff_len n 1; edited lp (lpInsert junk lp (store e) p LP_BEFORE) }"
  "exec_lp junk (Prepend e) lp = do { p \<leftarrow> lpFirst lp; (case p of None \<Rightarrow> exec_lp junk (Append e) lp
     | Some p \<Rightarrow> edited lp (lpInsert junk lp (store e) p LP_BEFORE)) }"
  "exec_lp junk (Insert i e wh) lp = at_index lp i (\<lambda>p. edited lp (lpInsert junk lp (store e) p wh))"
  by (cases e; simp add: lpAppend_def lpAppendInteger_def lpInsertInteger_def lpPrepend_def lpPrependInteger_def lpInsertString_def edited_def
      split: bind_splits option.splits)+

lemma append_refines:
  assumes h: "lp_holds lp xs" and e: "ele_fits e"
  shows "\<exists>lp'. exec_lp junk (Append e) lp = Some (fst (spec_lp (Append e) xs), lp') \<and> lp_holds lp' (snd (spec_lp (Append e) xs))"
proof -
  obtain num slack where f: "lp_form lp num (map enc_ele xs) slack" using holds_form [OF h] .
  have "diff_len (lp_total (map enc_ele xs)) 1 = Some (off (map enc_ele xs) (length xs))"
    using off_end [of "map enc_ele xs"] by (simp add: diff_len_def lp_total_def)
  then show ?thesis using insert_refines [OF h f, of "length xs" e junk] e form_total [OF f] by (simp add: exec_edit ins_def)
qed

lemma prepend_refines:
  assumes h: "lp_holds lp xs" and e: "ele_fits e"
  shows "\<exists>lp'. exec_lp junk (Prepend e) lp = Some (fst (spec_lp (Prepend e) xs), lp') \<and> lp_holds lp' (snd (spec_lp (Prepend e) xs))"
proof -
  obtain num slack where f: "lp_form lp num (map enc_ele xs) slack" using holds_form [OF h] .
  show ?thesis
  proof (cases "xs = []")
    case True
    then show ?thesis using append_refines [OF h e, of junk] form_first [OF f] by (simp add: exec_edit(2) entry_at_def)
  next
    case False
    then show ?thesis using insert_refines [OF h f, of 0 e junk] e form_first [OF f] by (simp add: exec_edit entry_at_def ins_def)
  qed
qed

lemma insert_call_refines:
  assumes h: "lp_holds lp xs" and e: "ele_fits e"
  shows "\<exists>lp'. exec_lp junk (Insert i e wh) lp = Some (fst (spec_lp (Insert i e wh) xs), lp') \<and> lp_holds lp' (snd (spec_lp (Insert i e wh) xs))"
  unfolding exec_edit spec_lp.simps
proof (rule seek_refines [OF h])
  fix num slack k assume f: "lp_form lp num (map enc_ele xs) slack" "k < length xs"
  let ?g = "case wh of LP_BEFORE \<Rightarrow> put (ins k [ele_text e] xs) k xs | LP_AFTER \<Rightarrow> put (ins (Suc k) [ele_text e] xs) (Suc k) xs
    | LP_REPLACE \<Rightarrow> put (xs[k := ele_text e]) k xs"
  show "\<exists>lp'. edited lp (lpInsert junk lp (store e) (off (map enc_ele xs) k) wh) = Some (fst ?g, lp') \<and> lp_holds lp' (snd ?g)"
    using insert_refines [OF h f(1), of k e junk] insert_refines [OF h f(1), of "Suc k" e junk] replace_refines [OF h f e, of junk]
      lpInsert_after [OF f(1), of k "store e" junk] f(2) e store_bytes [OF e]
    by (cases wh) simp_all
qed

lemma range_refines:
  assumes h: "lp_holds lp xs"
  shows "\<exists>lp'. exec_lp junk (DeleteRange i n) lp = Some (fst (spec_lp (DeleteRange i n) xs), lp') \<and> lp_holds lp' (snd (spec_lp (DeleteRange i n) xs))"
proof -
  obtain num slack where f: "lp_form lp num (map enc_ele xs) slack" using holds_form [OF h] .
  have "(case seek_index (map enc_ele xs) i of None \<Rightarrow> map enc_ele xs | Some k \<Rightarrow> cut_at (map enc_ele xs) k n) =
    map enc_ele (snd (spec_at i xs (\<lambda>k. (Done, take k xs @ drop (k + n) xs))))"
    by (auto simp: seek_index_def spec_at_def Let_def cut_at_def take_map drop_map)
  then obtain lp' num' slack' where "lpDeleteRange junk lp i n = Some lp'"
    "lp_form lp' num' (map enc_ele (snd (spec_at i xs (\<lambda>k. (Done, take k xs @ drop (k + n) xs))))) slack'"
    using form_deleteRange [OF f, of junk i n] by auto
  then show ?thesis using holdsI by simp
qed

lemma batch_call_refines:
  assumes h: "lp_holds lp xs" and e: "es \<noteq> []" "list_all ele_fits es"
  shows "\<exists>lp'. exec_lp junk (BatchAppend es) lp = Some (fst (spec_lp (BatchAppend es) xs), lp') \<and> lp_holds lp' (snd (spec_lp (BatchAppend es) xs))"
    and "\<exists>lp'. exec_lp junk (BatchInsert i es aft) lp = Some (fst (spec_lp (BatchInsert i es aft) xs), lp') \<and> lp_holds lp' (snd (spec_lp (BatchInsert i es aft) xs))"
proof -
  obtain num slack where f: "lp_form lp num (map enc_ele xs) slack" using holds_form [OF h] .
  have "diff_len (lp_total (map enc_ele xs)) 1 = Some (off (map enc_ele xs) (length xs))"
    using off_end [of "map enc_ele xs"] by (simp add: diff_len_def lp_total_def)
  then show "\<exists>lp'. exec_lp junk (BatchAppend es) lp = Some (fst (spec_lp (BatchAppend es) xs), lp') \<and> lp_holds lp' (snd (spec_lp (BatchAppend es) xs))"
    using batch_refines [OF h f, of "length xs" es junk] e form_total [OF f] by (simp add: lpBatchAppend_def ins_def)
  show "\<exists>lp'. exec_lp junk (BatchInsert i es aft) lp = Some (fst (spec_lp (BatchInsert i es aft) xs), lp') \<and> lp_holds lp' (snd (spec_lp (BatchInsert i es aft) xs))"
    unfolding exec_lp.simps spec_lp.simps
  proof (rule seek_refines [OF h])
    fix num slack k assume f: "lp_form lp num (map enc_ele xs) slack" "k < length xs"
    let ?g = "let k = (if aft then Suc k else k) in put (ins k (map ele_text es) xs) (k + length es - 1) xs"
    show "\<exists>lp'. edited lp (lpBatchInsert junk lp (off (map enc_ele xs) k) (if aft then LP_AFTER else LP_BEFORE) (map as_entry es)) = Some (fst ?g, lp') \<and> lp_holds lp' (snd ?g)"
      using batch_refines [OF h f(1), of k es junk] batch_refines [OF h f(1), of "Suc k" es junk] lpBatchInsert_after [OF f(1), of k junk "map as_entry es"] f(2) e
      by (cases aft) simp_all
  qed
qed

lemma read_refines:
  assumes h: "lp_holds lp xs"
  shows "\<exists>lp'. exec_lp junk Count lp = Some (fst (spec_lp Count xs), lp') \<and> lp_holds lp' (snd (spec_lp Count xs))"
    and "\<exists>lp'. exec_lp junk (Get i) lp = Some (fst (spec_lp (Get i) xs), lp') \<and> lp_holds lp' (snd (spec_lp (Get i) xs))"
    and "\<exists>lp'. exec_lp junk (Search s skip) lp = Some (fst (spec_lp (Search s skip) xs), lp') \<and> lp_holds lp' (snd (spec_lp (Search s skip) xs))"
proof -
  obtain num slack where f: "lp_form lp num (map enc_ele xs) slack" using holds_form [OF h] .
  show "\<exists>lp'. exec_lp junk Count lp = Some (fst (spec_lp Count xs), lp') \<and> lp_holds lp' (snd (spec_lp Count xs))"
    using form_length [OF f] holdsI by auto
  show "\<exists>lp'. exec_lp junk (Get i) lp = Some (fst (spec_lp (Get i) xs), lp') \<and> lp_holds lp' (snd (spec_lp (Get i) xs))"
    unfolding exec_lp.simps spec_lp.simps
  proof (rule seek_refines [OF h])
    fix num slack k assume f: "lp_form lp num (map enc_ele xs) slack" "k < length xs"
    then obtain g where "lpGet lp (off (map enc_ele xs) k) (Some (replicate LP_INTBUF_SIZE 0)) = Some g" "got_text lp g = Some (xs ! k)"
      using nav_get_text [OF form_nav [OF f(1)], of k "replicate LP_INTBUF_SIZE 0"] holds_text [OF h f(2)] by auto
    then show "\<exists>lp'. do { g \<leftarrow> lpGet lp (off (map enc_ele xs) k) (Some (replicate LP_INTBUF_SIZE 0)); t \<leftarrow> got_text lp g; Some (Value t, lp) } =
      Some (fst (Value (xs ! k), xs), lp') \<and> lp_holds lp' (snd (Value (xs ! k), xs))" using h by simp
  qed
  have "(found_at (map enc_ele xs) s (cands (length xs) skip 0 0) \<noteq> None) \<longleftrightarrow> (\<exists>i < length xs. i mod Suc skip = 0 \<and> xs ! i = s)"
    using cands_set [of "length xs" skip 0 0] holds_text [OF h]
    by (auto simp: found_at_def find_None_iff)
  then show "\<exists>lp'. exec_lp junk (Search s skip) lp = Some (fst (spec_lp (Search s skip) xs), lp') \<and> lp_holds lp' (snd (spec_lp (Search s skip) xs))"
    using nav_find(1) [OF form_nav [OF f], of s skip] h by simp
qed

lemma exec_lp_refines:
  assumes h: "lp_holds lp xs" and ok: "lp_ok c xs"
  shows "\<exists>lp'. exec_lp junk c lp = Some (fst (spec_lp c xs), lp') \<and> lp_holds lp' (snd (spec_lp c xs))"
proof -
  obtain num slack where f: "lp_form lp num (map enc_ele xs) slack" using holds_form [OF h] .
  show ?thesis
  proof (cases c)
    case (Delete i)
    show ?thesis unfolding Delete exec_lp.simps spec_lp.simps by (rule seek_refines [OF h]) (rule delete_refines [OF h])
  next
    case Shrink
    then show ?thesis using form_shrink_form [OF f, of junk] holdsI by auto
  next
    case Dup
    then show ?thesis using form_dup [OF f] holdsI by auto
  qed (use ok append_refines [OF h] prepend_refines [OF h] insert_call_refines [OF h] range_refines [OF h] batch_call_refines [OF h] read_refines [OF h] in
      \<open>simp_all del: exec_lp.simps spec_lp.simps\<close>)
qed

interpretation lpsession: session "exec_lp junk" spec_lp lp_ok lp_holds for junk
  by unfold_locales (rule exec_lp_refines)

lemma lpNew_holds: "\<exists>lp. lpNew junk capacity = Some lp \<and> lp_holds lp []"
  using lpNew_form [of junk capacity] holdsI [of _ 0 "[]" _ "[]"] by auto

end
