(* ===== verification/Listpack_Props.thy ===== *)
theory Listpack_Props
  imports Listpack_Session
begin

text \<open>
  What the listpack promises to its clients: the behaviour of a list of strings over whole sessions, well-formed buffers,
  safe handling of arbitrary bytes, exact and minimal integer encodings, and the agreement of the batch operations with
  the single ones.
\<close>

section \<open>Sessions\<close>

text \<open>C3. Any session of insertions, replacements, deletions, batches, searches and reads on a new listpack stays within its
  allocation, passes all assertions of the code and returns exactly what the same calls return on a plain list of strings,
  whatever the allocator leaves in fresh memory; a call that would pass the 4 GB limit returns \<^verbatim>\<open>NULL\<close> and changes
  nothing. The buffer then holds that list in its canonical encoding.\<close>

theorem listpack_session_refines_list:
  assumes "ok_steps lp_ok spec_lp cs []"
  shows "\<exists>lp lp'. lpNew junk capacity = Some lp \<and> run_steps (exec_lp junk) cs lp = Some (fst (spec_steps spec_lp cs []), lp') \<and>
    lp_holds lp' (snd (spec_steps spec_lp cs []))"
proof -
  obtain lp where "lpNew junk capacity = Some lp" "lp_holds lp []" using lpNew_holds by blast
  then show ?thesis using lpsession.run_refines [OF \<open>lp_holds lp []\<close> assms] by blast
qed

definition sample_calls :: "lp_call list" where
  "sample_calls = [Append (Str [97, 98]), Prepend (Num (-7)), Insert (-1) (Str [49, 48]) LP_BEFORE, Get 1, Delete 0, Search [97, 98] 0, Count]"

definition sample_results :: "lp_res list" where
  "sample_results = [At (Some [97, 98]), At (Some [45, 55]), At (Some [49, 48]), Value [49, 48], At (Some [49, 48]), Found True, Length 2]"

lemma chunk_le: "length (chunk (enc_ele s)) \<le> length s + 14"
proof -
  have "length (lpEncodeIntegerGetType v) \<le> 9" for v by (simp add: lpEncodeIntegerGetType_def Let_def)
  then have "length (enc_ele s) \<le> length s + 9"
    by (auto simp: enc_ele_def lpEncodeGetType_def length_encodeString Let_def split: option.splits intro: trans_le_add2)
  then show ?thesis using backlen_bytes_bounds [of "length (enc_ele s)"] by (simp add: length_chunk)
qed

lemma size_le: "lp_size xs \<le> 7 + sum_list (map (\<lambda>s. length s + 14) xs)"
proof (induction xs)
  case (Cons x xs)
  then show ?case using chunk_le [of x] by (simp add: lp_size_def lp_total_def)
qed (simp add: lp_size_def lp_total_def)

lemma put_small: "7 + sum_list (map (\<lambda>s. length s + 14) xs') < 2 ^ 32 \<Longrightarrow> put xs' k xs = (At (if k < length xs' then Some (xs' ! k) else None), xs')"
  using size_le [of xs'] by (simp add: put_def)

lemma sample_run: "spec_steps spec_lp sample_calls [] = (sample_results, [[49, 48], [97, 98]])" "ok_steps lp_ok spec_lp sample_calls []"
proof -
  have [simp]: "sdec (-7) = [45, 55]" by (simp add: sdec_def dec.simps digit_def)
  have [simp]: "\<exists>i < Suc (Suc 0). [[49, 48], [97, 98]] ! i = ([97, 98] :: bytes)" by (rule exI [of _ 1]) simp
  show "spec_steps spec_lp sample_calls [] = (sample_results, [[49, 48], [97, 98]])"
    by (simp add: sample_calls_def sample_results_def put_small spec_at_def ins_def)
  show "ok_steps lp_ok spec_lp sample_calls []"
    by (simp add: sample_calls_def int64_def LLONG_MIN_def LLONG_MAX_def)
qed

theorem listpack_session_refines_list_witness:
  "\<exists>lp lp'. lpNew (\<lambda>_. 0) 0 = Some lp \<and> run_steps (exec_lp (\<lambda>_. 0)) sample_calls lp = Some (sample_results, lp') \<and>
    lp_holds lp' [[49, 48], [97, 98]]"
  using listpack_session_refines_list [OF sample_run(2), of "\<lambda>_. 0" 0] unfolding sample_run(1) by simp

text \<open>C8. Listpack buffers are well-typed: after any session the buffer is one that the deep integrity check accepts, for
  the size in its header, which lies within the allocation; so no operation builds an entry of an unknown encoding, a wrong
  length field, a wrong count or a missing terminator.\<close>

theorem listpack_session_validates:
  assumes "ok_steps lp_ok spec_lp cs []" "lpNew junk capacity = Some lp" "run_steps (exec_lp junk) cs lp = Some (rs, lp')"
  shows "\<exists>n \<le> length lp'. lpBytes lp' = Some n \<and> lpValidateIntegrity lp' n deep (\<lambda>_ _. True) = Some True"
proof -
  have "lp_holds lp []" using lpNew_holds [of junk capacity] assms(2) by auto
  then have "lp_holds lp' (snd (spec_steps spec_lp cs []))" using lpsession.run_refines [OF _ assms(1), of lp junk] assms(3) by auto
  then obtain num slack where f: "lp_form lp' num (map enc_ele (snd (spec_steps spec_lp cs []))) slack" by (rule holds_form)
  show ?thesis using validate_accepts [OF form_nav [OF f], of "\<lambda>_ _. True" deep] form_bytes [OF f] lp_form_length [OF f] by auto
qed

theorem listpack_session_validates_witness:
  "\<exists>lp rs lp'. lpNew (\<lambda>_. 0) 0 = Some lp \<and> run_steps (exec_lp (\<lambda>_. 0)) sample_calls lp = Some (rs, lp') \<and>
    (\<exists>n \<le> length lp'. lpBytes lp' = Some n \<and> lpValidateIntegrity lp' n True (\<lambda>_ _. True) = Some True)"
proof -
  obtain lp where lp: "lpNew (\<lambda>_. 0) 0 = Some lp" "lp_holds lp []" using lpNew_holds by blast
  then obtain lp' where "run_steps (exec_lp (\<lambda>_. 0)) sample_calls lp = Some (fst (spec_steps spec_lp sample_calls []), lp')"
    using lpsession.run_refines [OF lp(2) sample_run(2)] by blast
  then show ?thesis using listpack_session_validates [OF sample_run(2) lp(1), of _ lp' True] lp(1) by blast
qed

section \<open>Arbitrary bytes\<close>

definition nth_opt :: "'a list \<Rightarrow> nat \<Rightarrow> 'a option" where
  "nth_opt xs k = (if k < length xs then Some (xs ! k) else None)"

text \<open>C7. On any bytes whatsoever the integrity check ends without reading outside them. If the deep check accepts them, there
  are entries at known offsets such that walking forwards and backwards, seeking any index from either end and reading any
  entry stay inside the buffer, pass the assertions of the code and move exactly between these entries.\<close>

theorem lpValidateIntegrity_safe:
  "\<exists>r. lpValidateIntegrity lp (length lp) deep entry_cb = Some r \<and> (r \<and> deep \<longrightarrow> (\<exists>offs.
     lpFirst lp = Some (nth_opt offs 0) \<and> lpLast lp = Some (if offs = [] then None else Some (last offs)) \<and>
     (\<forall>k < length offs. lpNext lp (offs ! k) = Some (nth_opt offs (Suc k)) \<and>
        lpPrev lp (offs ! k) = Some (if k = 0 then None else Some (offs ! (k - 1))) \<and>
        (\<exists>g t. lpGet lp (offs ! k) None = Some g \<and> got_text lp g = Some t)) \<and>
     (\<forall>i. lpSeek lp i = Some (let j = (if i < 0 then int (length offs) + i else i) in if 0 \<le> j then nth_opt offs (nat j) else None))))"
proof -
  obtain r where r: "lpValidateIntegrity lp (length lp) deep entry_cb = Some r"
    "r \<Longrightarrow> deep \<Longrightarrow> \<exists>num bs. lp_nav lp num bs \<and> lp_total bs = length lp"
    using validate_total by blast
  show ?thesis
  proof (intro exI [of _ r] conjI impI)
    assume "r \<and> deep"
    then obtain num bs where n: "lp_nav lp num bs" using r(2) by blast
    define offs where "offs = map (off bs) [0..<length bs]"
    have at: "nth_opt offs k = entry_at bs k" "length offs = length bs" for k by (simp_all add: nth_opt_def offs_def entry_at_def)
    have nth: "k < length bs \<Longrightarrow> offs ! k = off bs k" for k by (simp add: offs_def)
    have "lpNext lp (offs ! k) = Some (nth_opt offs (Suc k)) \<and> lpPrev lp (offs ! k) = Some (if k = 0 then None else Some (offs ! (k - 1))) \<and>
        (\<exists>g t. lpGet lp (offs ! k) None = Some g \<and> got_text lp g = Some t)" if "k < length offs" for k
    proof -
      have k: "k < length bs" using that at by simp
      obtain g where "lpGet lp (off bs k) None = Some g" "got_text lp g = Some (ptext (bs ! k))" using nav_text [OF n k] by (auto simp: bind_eq_Some_conv)
      moreover have "lpPrev lp (off bs k) = Some (if k = 0 then None else Some (offs ! (k - 1)))" using nav_prev [OF n, of k] k nth [of "k - 1"] by simp
      ultimately show ?thesis using nav_next [OF n k] at nth [OF k] by simp
    qed
    moreover have "lpFirst lp = Some (nth_opt offs 0)" using nav_first [OF n] at by simp
    moreover have "lpLast lp = Some (if offs = [] then None else Some (last offs))"
      using nav_last [OF n] by (auto simp: offs_def last_map last_conv_nth)
    moreover have "lpSeek lp i = Some (let j = (if i < 0 then int (length offs) + i else i) in if 0 \<le> j then nth_opt offs (nat j) else None)" for i
      using nav_seek [OF n, of i] at by (auto simp: seek_index_def Let_def entry_at_def)
    ultimately show "\<exists>offs. lpFirst lp = Some (nth_opt offs 0) \<and> lpLast lp = Some (if offs = [] then None else Some (last offs)) \<and>
     (\<forall>k < length offs. lpNext lp (offs ! k) = Some (nth_opt offs (Suc k)) \<and>
        lpPrev lp (offs ! k) = Some (if k = 0 then None else Some (offs ! (k - 1))) \<and>
        (\<exists>g t. lpGet lp (offs ! k) None = Some g \<and> got_text lp g = Some t)) \<and>
     (\<forall>i. lpSeek lp i = Some (let j = (if i < 0 then int (length offs) + i else i) in if 0 \<le> j then nth_opt offs (nat j) else None))"
      by blast
  qed (rule r(1))
qed

lemma le_bytes_literal: "le_bytes 4 x = [word_of_int x, word_of_int (x div 256), word_of_int (x div 256 div 256), word_of_int (x div 256 div 256 div 256)]"
  "le_bytes 2 x = [word_of_int x, word_of_int (x div 256)]"
  by (simp_all add: numeral_eq_Suc)

lemma small_form: "lp_form [9, 0, 0, 0, 1, 0, 5, 1, 255] 1 [[5]] []" "lp_total [[5]] = 9"
proof -
  have "enc_class 5 = C7" by (simp add: enc_class_def encoding_defs)
  then show "lp_form [9, 0, 0, 0, 1, 0, 5, 1, 255] 1 [[5]] []" "lp_total [[5]] = 9"
    by (simp_all add: lp_form_def lp_hdr_def lp_total_def chunk_def lpEncodeBacklen_def LP_EOF_def num_ok_def pay_def le_bytes_literal)
qed

theorem lpValidateIntegrity_safe_witness:
  "lpValidateIntegrity [9, 0, 0, 0, 1, 0, 5, 1, 255] 9 True (\<lambda>_ _. True) = Some True \<and>
   (\<exists>offs. lpFirst [9, 0, 0, 0, 1, 0, 5, 1, 255] = Some (nth_opt offs 0) \<and>
     (\<forall>k < length offs. lpNext [9, 0, 0, 0, 1, 0, 5, 1, 255] (offs ! k) = Some (nth_opt offs (Suc k))))"
proof -
  let ?lp = "[9, 0, 0, 0, 1, 0, 5, 1, 255] :: bytes"
  have l: "length ?lp = 9" by simp
  have v: "lpValidateIntegrity ?lp 9 True (\<lambda>_ _. True) = Some True"
    using validate_accepts [OF form_nav [OF small_form(1)], of "\<lambda>_ _. True" True] unfolding small_form(2) by simp
  then show ?thesis using lpValidateIntegrity_safe [of ?lp True "\<lambda>_ _. True"] unfolding l by auto
qed

section \<open>Integers\<close>

lemma lp_signed_bounds: "u < 2 ^ k \<Longrightarrow> 0 < k \<Longrightarrow> - (2 ^ (k - 1)) \<le> lp_signed u (2 ^ (k - 1)) (2 ^ k - 1) \<and> lp_signed u (2 ^ (k - 1)) (2 ^ k - 1) < 2 ^ (k - 1)"
proof -
  assume a: "u < 2 ^ k" "0 < k"
  obtain j where k: "k = Suc j" using a(2) by (cases k) auto
  have "int u < int (2 ^ k)" using a(1) by (simp only: of_nat_less_iff)
  then have u: "int u < 2 * 2 ^ j" by (simp add: k)
  show ?thesis
  proof (cases "2 ^ j \<le> u")
    case True
    have "u \<le> 2 ^ k - 1" using a(1) by simp
    then have "int (2 ^ k - 1 - u) = int (2 ^ k - 1) - int u" by (simp only: of_nat_diff)
    also have "int (2 ^ k - 1) = 2 * 2 ^ j - 1" by (simp add: of_nat_diff k)
    finally have i: "int (2 ^ k - 1 - u) = 2 * 2 ^ j - 1 - int u" .
    have "int (2 ^ j) \<le> int u" using True by (simp only: of_nat_le_iff)
    then have "(2 :: int) ^ j \<le> int u" by simp
    then show ?thesis using True i u by (simp add: lp_signed_def k)
  next
    case False
    then have "int u < int (2 ^ j)" by (simp only: of_nat_less_iff not_le)
    moreover have "int (2 ^ j) = 2 ^ j" by simp
    moreover have "- (2 ^ j) \<le> int u" by (rule order_trans [of _ 0]) simp_all
    ultimately show ?thesis using False by (simp add: lp_signed_def k)
  qed
qed

text \<open>The range of the integers an encoding can hold.\<close>

lemma pval_range:
  assumes "pay b" "pval p b = GotInt v"
  shows "case enc_class (hd b) of C7 \<Rightarrow> length b = 1 \<and> 0 \<le> v \<and> v \<le> 127 | C13 \<Rightarrow> length b = 2 \<and> -4096 \<le> v \<and> v \<le> 4095
    | C16 \<Rightarrow> length b = 3 \<and> -32768 \<le> v \<and> v \<le> 32767 | C24 \<Rightarrow> length b = 4 \<and> -8388608 \<le> v \<and> v \<le> 8388607
    | C32 \<Rightarrow> length b = 5 \<and> -2147483648 \<le> v \<and> v \<le> 2147483647 | C64 \<Rightarrow> length b = 9 | _ \<Rightarrow> False"
proof -
  have x: "unat (hd b AND 0x1F) * 256 + unat (b ! 1) < 2 ^ 13"
  proof -
    have "hd b AND 0x1F \<le> 0x1F" by (rule word_and_le1)
    then have "unat (hd b AND 0x1F) \<le> 31" by (simp add: word_le_nat_alt)
    then show ?thesis using byte_lt [of "b ! 1"] by simp
  qed
  have "unat (hd b AND 0x7F) < 128" by (simp add: low_bits)
  then have "int (unat (hd b AND 0x7F)) < int 128" by (simp only: of_nat_less_iff)
  then have c7: "uint (hd b AND 0x7F) \<le> 127" by simp
  have w: "le_at b n < 2 ^ (8 * n)" for n using le_at_less [of b n] by (simp add: power_mult)
  define u where "u = unat (hd b AND 0x1F) * 256 + unat (b ! 1)"
  have "-4096 \<le> lp_signed u (2 ^ 12) 8191 \<and> lp_signed u (2 ^ 12) 8191 \<le> 4095"
    "-32768 \<le> lp_signed (le_at b 2) (2 ^ 15) (2 ^ 16 - 1) \<and> lp_signed (le_at b 2) (2 ^ 15) (2 ^ 16 - 1) \<le> 32767"
    "-8388608 \<le> lp_signed (le_at b 3) (2 ^ 23) (2 ^ 24 - 1) \<and> lp_signed (le_at b 3) (2 ^ 23) (2 ^ 24 - 1) \<le> 8388607"
    "-2147483648 \<le> lp_signed (le_at b 4) (2 ^ 31) (2 ^ 32 - 1) \<and> lp_signed (le_at b 4) (2 ^ 31) (2 ^ 32 - 1) \<le> 2147483647"
    using lp_signed_bounds [OF x] lp_signed_bounds [OF w [of 2]] lp_signed_bounds [OF w [of 3]] lp_signed_bounds [OF w [of 4]]
    by (simp_all add: u_def)
  then show ?thesis using assms c7 unfolding pay_def pval_def u_def [symmetric]
    by (cases "enc_class (hd b)") (simp_all only: lp_class.simps lpGot.inject lpGot.distinct, auto)
qed

text \<open>C20. Every 64-bit integer is stored in bytes that \<^verbatim>\<open>lpGet\<close> reads back as that integer wherever they stand, and no
  entry of the format that reads as the integer is shorter.\<close>

theorem lpEncodeIntegerGetType_minimal:
  assumes "int64 v"
  shows "lpGet (xs @ lpEncodeIntegerGetType v @ ys) (length xs) None = Some (GotInt v) \<and>
    (b \<noteq> [] \<and> hd b \<noteq> LP_EOF \<and> lpCurrentEncodedSizeUnsafe b 0 = Some (length b) \<and> lpGet b 0 None = Some (GotInt v) \<longrightarrow>
      length (lpEncodeIntegerGetType v) \<le> length b)"
proof (intro conjI impI)
  show "lpGet (xs @ lpEncodeIntegerGetType v @ ys) (length xs) None = Some (GotInt v)"
    using pay_get [OF piece_append, of "lpEncodeIntegerGetType v" xs ys] enc_int_ok [OF assms] by (simp add: lpGet_def)
next
  assume b: "b \<noteq> [] \<and> hd b \<noteq> LP_EOF \<and> lpCurrentEncodedSizeUnsafe b 0 = Some (length b) \<and> lpGet b 0 None = Some (GotInt v)"
  have h: "rdb b 0 = Some (hd b)" using b by (simp add: rdb_def hd_conv_nth)
  have pay: "pay b"
    using b h by (cases "enc_class (hd b)")
      (auto simp: lpGet_def lpGetWithBuf_def lpCurrentEncodedSizeUnsafe_def class_iff pay_def lp_got_int_def bind_eq_Some_conv)
  then have "pval 0 b = GotInt v" using b pay_get [of b 0 b] by (simp add: piece_def lpGet_def)
  from pval_range [OF pay this] show "length (lpEncodeIntegerGetType v) \<le> length b"
    by (cases "enc_class (hd b)") (auto simp: lpEncodeIntegerGetType_def Let_def)
qed

theorem lpEncodeIntegerGetType_minimal_witness:
  "lpGet ([1, 2] @ lpEncodeIntegerGetType (-300) @ [3]) 2 None = Some (GotInt (-300))"
proof -
  have "int64 (-300)" by (simp add: int64_def LLONG_MIN_def LLONG_MAX_def)
  then show ?thesis using lpEncodeIntegerGetType_minimal [of "-300" "[1, 2]" "[3]"] by (simp add: numeral_2_eq_2)
qed

section \<open>Batches and single insertions\<close>

text \<open>A client's loop: each entry is inserted after the one inserted before it.\<close>

fun insert_each :: "(nat \<Rightarrow> byte) \<Rightarrow> bytes \<Rightarrow> nat \<Rightarrow> listpackEntry list \<Rightarrow> (bytes \<times> nat option) option option" where
  "insert_each junk lp p [] = Some (Some (lp, Some p))"
| "insert_each junk lp p (e # es) =
     do { r \<leftarrow> (case e of SVal s \<Rightarrow> lpInsertString junk lp s p LP_AFTER | LVal v \<Rightarrow> lpInsertInteger junk lp v p LP_AFTER);
          (case r of None \<Rightarrow> Some None | Some (lp, newp) \<Rightarrow>
             (case newp of None \<Rightarrow> None | Some p \<Rightarrow> insert_each junk lp p es)) }"

definition entry_ele :: "listpackEntry \<Rightarrow> lpEle" where
  "entry_ele e = (case e of SVal s \<Rightarrow> EleStr s | LVal v \<Rightarrow> EleInt (lpEncodeIntegerGetType v))"

lemma entry_ele_bytes: "ele_bytes (entry_ele e) = entry_bytes e" "entry_ele e \<noteq> EleNone"
  by (cases e; simp add: entry_ele_def entry_bytes_def)+

lemma bump_many_Suc: "num \<le> 65535 \<Longrightarrow> bump_many (bump num 1) n = bump_many num (Suc n)"
  by (auto simp: bump_many_def bump_def)

lemma insert_each_ok:
  "lp_form lp num bs slack \<Longrightarrow> k < length bs \<Longrightarrow> list_all pay (map entry_bytes es) \<Longrightarrow>
   lp_total (take (Suc k) bs @ map entry_bytes es @ drop (Suc k) bs) < 2 ^ 32 \<Longrightarrow>
   \<exists>lp' slack'. insert_each junk lp (off bs k) es =
       Some (Some (lp', Some (off (take (Suc k) bs @ map entry_bytes es @ drop (Suc k) bs) (k + length es)))) \<and>
     lp_form lp' (bump_many num (length es)) (take (Suc k) bs @ map entry_bytes es @ drop (Suc k) bs) slack'"
proof (induction es arbitrary: lp num bs slack k)
  case Nil
  have "bump_many num 0 = num" using form_le [OF Nil.prems(1)] by (simp add: bump_many_def)
  then show ?case using Nil.prems(1) by auto
next
  case (Cons e es)
  let ?e = "entry_bytes e"
  define bs1 where "bs1 = take (Suc k) bs @ ?e # drop (Suc k) bs"
  have eq: "take (Suc (Suc k)) bs1 @ map entry_bytes es @ drop (Suc (Suc k)) bs1 = take (Suc k) bs @ map entry_bytes (e # es) @ drop (Suc k) bs"
    using Cons.prems(2) by (simp add: bs1_def)
  have t1: "lp_total bs1 < 2 ^ 32" using Cons.prems(4) by (simp add: lp_total_def bs1_def)
  have ins: "if lp_total bs1 < 2 ^ 32 then \<exists>lp' slack'. lpInsert junk lp (entry_ele e) (off bs (Suc k)) LP_BEFORE =
      Some (Some (lp', Some (off bs (Suc k)))) \<and> lp_form lp' (bump num 1) bs1 slack' else lpInsert junk lp (entry_ele e) (off bs (Suc k)) LP_BEFORE = Some None"
    unfolding bs1_def using form_insert_before_num [OF Cons.prems(1), of "Suc k" "entry_ele e" junk, unfolded entry_ele_bytes(1)]
      Cons.prems(2,3) entry_ele_bytes(2) by auto
  then obtain lp1 s1 where l1: "lpInsert junk lp (entry_ele e) (off bs (Suc k)) LP_BEFORE = Some (Some (lp1, Some (off bs (Suc k))))"
    "lp_form lp1 (bump num 1) bs1 s1" using t1 by auto
  have o: "off bs1 (Suc k) = off bs (Suc k)" using Cons.prems(2) by (intro off_take) (simp add: bs1_def)
  have call: "(case e of SVal s \<Rightarrow> lpInsertString junk lp s (off bs k) LP_AFTER | LVal v \<Rightarrow> lpInsertInteger junk lp v (off bs k) LP_AFTER) =
    Some (Some (lp1, Some (off bs1 (Suc k))))"
    using l1(1) lpInsert_after [OF Cons.prems(1,2) entry_ele_bytes(2), of junk e] o
    by (cases e) (simp_all add: entry_ele_def lpInsertString_def lpInsertInteger_def)
  have "k < length bs1" "Suc k < length bs1" using Cons.prems(2) by (simp_all add: bs1_def)
  then obtain lp' slack' where "insert_each junk lp1 (off bs1 (Suc k)) es =
      Some (Some (lp', Some (off (take (Suc k) bs @ map entry_bytes (e # es) @ drop (Suc k) bs) (Suc k + length es))))"
    "lp_form lp' (bump_many (bump num 1) (length es)) (take (Suc k) bs @ map entry_bytes (e # es) @ drop (Suc k) bs) slack'"
    using Cons.IH [OF l1(2), of "Suc k"] Cons.prems(3,4) unfolding eq by auto
  then show ?case using call bump_many_Suc [OF form_le [OF Cons.prems(1)], of "length es"] by auto
qed

lemma seek_index_less: "seek_index bs i = Some k \<Longrightarrow> k < length bs"
  by (auto simp: seek_index_def Let_def split: if_splits)

lemma form_prefix: "lp_form lp num bs slack \<Longrightarrow> take (lp_total bs) lp = lp_hdr (lp_total bs) num @ body bs @ [LP_EOF]"
  by (auto simp: lp_form_def lp_total_def)

text \<open>C13. Behind an entry (\<^verbatim>\<open>LP_AFTER\<close>) of a listpack that the library has built, \<^verbatim>\<open>lpBatchInsert\<close> is an optimisation of
  inserting the entries one by one: when the result fits, both succeed, return a pointer to the same entry and leave byte
  for byte the same listpack, the header with its count included.\<close>

theorem lpBatchInsert_equals_inserts:
  assumes "lp_holds lp xs" "lpSeek lp i = Some (Some p)" "es \<noteq> []" "list_all ele_fits es" "lp_size (xs @ map ele_text es) < 2 ^ 32"
  shows "\<exists>lp1 lp2 newp n. lpBatchInsert junk lp p LP_AFTER (map as_entry es) = Some (Some (lp1, newp)) \<and>
    insert_each junk' lp p (map as_entry es) = Some (Some (lp2, newp)) \<and> lpBytes lp1 = Some n \<and> lpBytes lp2 = Some n \<and> take n lp1 = take n lp2"
proof -
  let ?bs = "map enc_ele xs" and ?es = "map as_entry es"
  obtain num slack where f: "lp_form lp num ?bs slack" using holds_form [OF assms(1)] .
  obtain k where k: "k < length ?bs" "p = off ?bs k"
    using form_seek [OF f, of i] assms(2) seek_index_less [of ?bs i] by (cases "seek_index ?bs i") auto
  define bs' where "bs' = take (Suc k) ?bs @ map entry_bytes ?es @ drop (Suc k) ?bs"
  have eb: "map entry_bytes ?es = map enc_ele (map ele_text es)" using entry_store [OF assms(4)] by simp
  have "body ?bs = body (take (Suc k) ?bs) @ body (drop (Suc k) ?bs)" using k(1) by (intro body_split) simp
  then have t: "lp_total bs' = lp_size (xs @ map ele_text es)" unfolding bs'_def eb lp_size_def by (simp add: lp_total_def)
  have pay: "list_all pay (map entry_bytes ?es)"
    unfolding eb using size_member [OF assms(5)] by (auto simp: list_all_iff)
  have "if lp_total bs' < 2 ^ 32 then \<exists>lp' slack'. lpBatchInsert junk lp (off ?bs (Suc k)) LP_BEFORE ?es =
      Some (Some (lp', Some (off bs' (Suc k + length ?es - 1)))) \<and> lp_form lp' (bump_many num (length ?es)) bs' slack'
    else lpBatchInsert junk lp (off ?bs (Suc k)) LP_BEFORE ?es = Some None"
    unfolding bs'_def by (rule form_batch_before_num [OF f]) (use k(1) assms(3) pay in simp_all)
  then obtain lp1 s1 where 1: "lpBatchInsert junk lp p LP_AFTER ?es = Some (Some (lp1, Some (off bs' (k + length ?es))))"
    "lp_form lp1 (bump_many num (length ?es)) bs' s1"
    using t assms(5) lpBatchInsert_after [OF f k(1)] k(2) by auto
  obtain lp2 s2 where 2: "insert_each junk' lp p ?es = Some (Some (lp2, Some (off bs' (k + length ?es))))"
    "lp_form lp2 (bump_many num (length ?es)) bs' s2"
    using insert_each_ok [OF f k(1) pay, of junk'] t assms(5) unfolding bs'_def k(2) by auto
  show ?thesis using 1 2 form_prefix [OF 1(2)] form_prefix [OF 2(2)] form_bytes [OF 1(2)] form_bytes [OF 2(2)]
    by (intro exI [of _ lp1] exI [of _ lp2] exI [of _ "Some (off bs' (k + length ?es))"] exI [of _ "lp_total bs'"]) simp
qed

lemma sample_holds: "\<exists>lp. lp_holds lp [[97], [98], [97]]"
proof -
  let ?cs = "[Append (Str [97]), Append (Str [98]), Append (Str [97])]"
  have ok: "ok_steps lp_ok spec_lp ?cs []" by (simp add: put_small)
  have r: "snd (spec_steps spec_lp ?cs []) = [[97], [98], [97]]" by (simp add: put_small ins_def)
  obtain lp where "lp_holds lp []" using lpNew_holds by blast
  then show ?thesis using lpsession.run_refines [OF _ ok] unfolding r by blast
qed

lemma holds_seek:
  assumes "lp_holds lp xs"
  shows "lpSeek lp (int k) = Some (if k < length xs then Some (off (map enc_ele xs) k) else None)"
proof -
  obtain num slack where "lp_form lp num (map enc_ele xs) slack" using holds_form [OF assms] .
  then show ?thesis using form_seek by (simp add: seek_index_def)
qed

theorem lpBatchInsert_equals_inserts_witness:
  "\<exists>lp p lp1 lp2 newp n. lp_holds lp [[97], [98], [97]] \<and> lpSeek lp 1 = Some (Some p) \<and>
    lpBatchInsert (\<lambda>_. 0) lp p LP_AFTER [SVal [99], LVal 300] = Some (Some (lp1, newp)) \<and>
    insert_each (\<lambda>_. 1) lp p [SVal [99], LVal 300] = Some (Some (lp2, newp)) \<and> lpBytes lp1 = Some n \<and> lpBytes lp2 = Some n \<and> take n lp1 = take n lp2"
proof -
  obtain lp where lp: "lp_holds lp [[97], [98], [97]]" using sample_holds ..
  have "length (sdec 300) \<le> 3" by (simp add: sdec_def dec.simps)
  then have "lp_size ([[97], [98], [97]] @ map ele_text [Str [99], Num 300]) < 2 ^ 32"
    using size_le [of "[[97], [98], [97]] @ map ele_text [Str [99], Num 300]"] by simp
  moreover have "list_all ele_fits [Str [99], Num 300]" by (simp add: int64_def LLONG_MIN_def LLONG_MAX_def)
  moreover obtain p where p: "lpSeek lp 1 = Some (Some p)" using holds_seek [OF lp, of 1] by auto
  ultimately show ?thesis using lpBatchInsert_equals_inserts [OF lp p, of "[Str [99], Num 300]" "\<lambda>_. 0" "\<lambda>_. 1"] lp p by auto
qed

section \<open>Searching and merging\<close>

text \<open>C18. \<^verbatim>\<open>lpFind\<close> started at an entry returns the first entry at a distance that is a multiple of the step and whose text is
  the one looked for, and \<^verbatim>\<open>NULL\<close> when there is none: comparing an integer entry by its parsed value, with the conversion of
  the string cached over the calls, is the same as comparing its text. The step \<^verbatim>\<open>skip\<close> is an unsigned int of the code, copied
  into an \<^verbatim>\<open>int\<close> that counts down; a listpack has fewer than \<open>2 ^ 31\<close> entries, so a larger step ends the search either way.\<close>

theorem lpFind_first_match:
  assumes "lp_holds lp xs" "lpSeek lp (int k) = Some (Some p)"
  shows "\<exists>r. lpFind lp (Some p) s skip = Some r \<and> (case r of
     None \<Rightarrow> \<forall>m. k + m * (skip + 1) < length xs \<longrightarrow> xs ! (k + m * (skip + 1)) \<noteq> s
   | Some q \<Rightarrow> \<exists>m. k + m * (skip + 1) < length xs \<and> lpSeek lp (int (k + m * (skip + 1))) = Some (Some q) \<and>
       xs ! (k + m * (skip + 1)) = s \<and> (\<forall>j < m. xs ! (k + j * (skip + 1)) \<noteq> s))"
proof -
  let ?bs = "map enc_ele xs" and ?P = "\<lambda>i. ptext (map enc_ele xs ! i) = s" and ?is = "cands (length xs) skip 0 k"
  obtain num slack where f: "lp_form lp num ?bs slack" using holds_form [OF assms(1)] .
  have k: "k < length xs" "p = off ?bs k" using holds_seek [OF assms(1), of k] assms(2) by (auto split: if_splits)
  have set_is: "i \<in> set ?is \<longleftrightarrow> (\<exists>m. i = k + m * (skip + 1) \<and> i < length xs)" for i
  proof
    assume "i \<in> set ?is"
    then have i: "k \<le> i" "i < length xs" "Suc skip dvd i - k" using cands_set [of "length xs" skip 0 k] by auto
    then obtain m where "i - k = Suc skip * m" by (auto elim: dvdE)
    then have "i = k + m * (skip + 1)" using i(1) by (simp add: mult.commute)
    then show "\<exists>m. i = k + m * (skip + 1) \<and> i < length xs" using i(2) by blast
  next
    assume "\<exists>m. i = k + m * (skip + 1) \<and> i < length xs"
    then obtain m where "i = k + m * Suc skip" "i < length xs" by auto
    then have "k \<le> i \<and> i < length xs \<and> (i - k) mod Suc skip = 0" by (simp del: mult_Suc_right)
    then show "i \<in> set ?is" using cands_set [of "length xs" skip 0 k] by simp
  qed
  have P: "i < length xs \<Longrightarrow> ?P i \<longleftrightarrow> xs ! i = s" for i using holds_text [OF assms(1)] by simp
  have find: "lpFind lp (Some p) s skip = Some (map_option (off ?bs) (List.find ?P ?is))"
    using nav_find(2) [OF form_nav [OF f], of k s skip] k by (simp add: found_at_def)
  show ?thesis
  proof (cases "List.find ?P ?is")
    case None
    then have "\<forall>i \<in> set ?is. \<not> ?P i" by (auto simp: find_None_iff)
    then have "k + m * (skip + 1) < length xs \<Longrightarrow> xs ! (k + m * (skip + 1)) \<noteq> s" for m using set_is P by blast
    then show ?thesis using find None by simp
  next
    case (Some i)
    then have i: "i \<in> set ?is" "?P i" "\<forall>j \<in> set ?is. j < i \<longrightarrow> \<not> ?P j"
      using find_sorted [of ?is ?P i] cands_set [of "length xs" skip 0 k] by auto
    then obtain m where m: "i = k + m * (skip + 1)" "i < length xs" using set_is by blast
    have "xs ! (k + j * (skip + 1)) \<noteq> s" if "j < m" for j
    proof -
      have "j * (skip + 1) < m * (skip + 1)" using that by (intro mult_strict_right_mono) simp_all
      then have "k + j * (skip + 1) < i" unfolding m(1) by linarith
      moreover from this have "k + j * (skip + 1) < length xs" using m(2) by (rule order.strict_trans)
      ultimately show ?thesis using i(3) set_is P by blast
    qed
    then have "k + m * (skip + 1) < length xs \<and> lpSeek lp (int (k + m * (skip + 1))) = Some (Some (off ?bs i)) \<and>
       xs ! (k + m * (skip + 1)) = s \<and> (\<forall>j < m. xs ! (k + j * (skip + 1)) \<noteq> s)"
      using holds_seek [OF assms(1), of i] i(2) P m by auto
    then show ?thesis using find Some by auto
  qed
qed

theorem lpFind_first_match_witness:
  "\<exists>lp p q. lp_holds lp [[97], [98], [97]] \<and> lpSeek lp 0 = Some (Some p) \<and> lpFind lp (Some p) [98] 0 = Some (Some q) \<and> lpSeek lp 1 = Some (Some q)"
proof -
  obtain lp where lp: "lp_holds lp [[97], [98], [97]]" using sample_holds ..
  obtain p where p: "lpSeek lp (int 0) = Some (Some p)" using holds_seek [OF lp, of 0] by auto
  obtain r where r: "lpFind lp (Some p) [98] 0 = Some r" "case r of None \<Rightarrow> \<forall>m. 0 + m * (0 + 1) < length [[97], [98], [97 :: byte]] \<longrightarrow> [[97], [98], [97 :: byte]] ! (0 + m * (0 + 1)) \<noteq> [98]
   | Some q \<Rightarrow> \<exists>m. 0 + m * (0 + 1) < length [[97], [98], [97 :: byte]] \<and> lpSeek lp (int (0 + m * (0 + 1))) = Some (Some q) \<and>
       [[97], [98], [97 :: byte]] ! (0 + m * (0 + 1)) = [98] \<and> (\<forall>j < m. [[97], [98], [97 :: byte]] ! (0 + j * (0 + 1)) \<noteq> [98])"
    using lpFind_first_match [OF lp p, of "[98]" 0] by blast
  from r(2) have "\<exists>q. r = Some q \<and> lpSeek lp 1 = Some (Some q)"
    by (cases r) (auto simp: less_Suc_eq numeral_3_eq_3 dest: spec [of _ 1])
  then show ?thesis using r(1) lp p by auto
qed

text \<open>C19. \<^verbatim>\<open>lpMerge\<close> returns the entries of the first listpack followed by those of the second, whichever of the two buffers
  it grew, and exactly when the merged size fits; beyond that its assertion stops it.\<close>

theorem lpMerge_appends:
  assumes "lp_holds lp1 xs" "lp_holds lp2 ys"
  shows "if lp_size (xs @ ys) < 2 ^ 32 - 1
    then \<exists>lp. lpMerge junk False (Some lp1) (Some lp2) = Some (Some (lp, lp_size xs \<ge> lp_size ys)) \<and> lp_holds lp (xs @ ys)
    else lpMerge junk False (Some lp1) (Some lp2) = None"
proof -
  obtain num1 slack1 where f1: "lp_form lp1 num1 (map enc_ele xs) slack1" using holds_form [OF assms(1)] .
  obtain num2 slack2 where f2: "lp_form lp2 num2 (map enc_ele ys) slack2" using holds_form [OF assms(2)] .
  show ?thesis
  proof (cases "lp_size (xs @ ys) < 2 ^ 32 - 1")
    case True
    then have "lp_total (map enc_ele xs @ map enc_ele ys) < 2 ^ 32 - 1" by (simp add: lp_size_def)
    then obtain lp num where m: "lpMerge junk False (Some lp1) (Some lp2) = Some (Some (lp, lp_total (map enc_ele xs) \<ge> lp_total (map enc_ele ys)))"
      "lp_form lp num (map enc_ele xs @ map enc_ele ys) []" using form_merge [OF f1 f2] by blast
    then have "lp_holds lp (xs @ ys)" by (intro holdsI [OF m(2)]) simp
    then show ?thesis using True m(1) by (simp add: lp_size_def)
  next
    case False
    obtain l1 n1 where l1: "lpLength lp1 = Some (l1, n1)" using form_length [OF f1] by blast
    obtain l2 n2 where l2: "lpLength lp2 = Some (l2, n2)" using form_length [OF f2] by blast
    have "lp_total (map enc_ele xs) + lp_total (map enc_ele ys) - 7 = lp_size (xs @ ys)" by (simp add: lp_size_def lp_total_def)
    then have "diff_len (lp_total (map enc_ele xs) + lp_total (map enc_ele ys)) (LP_HDR_SIZE + 1) = Some (lp_size (xs @ ys))"
      by (simp add: diff_len_def LP_HDR_SIZE_def lp_total_def)
    then show ?thesis using False form_bytes [OF f1] form_bytes [OF f2] l1 l2
      by (simp add: lpMerge_def guard_def split: if_splits)
  qed
qed

theorem lpMerge_appends_witness:
  "\<exists>lp1 lp. lp_holds lp1 [[97], [98], [97]] \<and> lpMerge (\<lambda>_. 0) False (Some lp1) (Some lp1) = Some (Some (lp, True)) \<and>
     lp_holds lp [[97], [98], [97], [97], [98], [97]]"
proof -
  obtain lp where lp: "lp_holds lp [[97], [98], [97]]" using sample_holds ..
  have "lp_size ([[97], [98], [97]] @ [[97], [98], [97]]) < 2 ^ 32 - 1"
    using size_le [of "[[97], [98], [97]] @ [[97], [98], [97]]"] by simp
  then show ?thesis using lpMerge_appends [OF lp lp, of "\<lambda>_. 0"] lp by auto
qed

end
