(* ===== verification/Spec2Isabelle.thy ===== *)
theory Spec2Isabelle
  imports Intset Fwtree Glob Adlist Dict_Scan Dict_Sweep Listpack_Props
begin

text \<open>
  A verification library for the data structures and conversions at the core of the Redis server, translated from the C
  sources under \<^verbatim>\<open>src/src\<close>. Redis keeps every database in hash tables (\<^verbatim>\<open>dict.c\<close>); small sets of integers are packed
  arrays (\<^verbatim>\<open>intset.c\<close>), small lists, hashes and sorted sets are packed byte buffers (\<^verbatim>\<open>listpack.c\<close>); linked lists
  (\<^verbatim>\<open>adlist.c\<close>) hold clients and jobs; Fenwick trees (\<^verbatim>\<open>fwtree.c\<close>) count the keys per hash slot; \<^verbatim>\<open>util.c\<close> converts
  between numbers and text and matches glob patterns, which the packed encodings and the commands rely on.

  \<^bold>\<open>Conventions.\<close> A C function is a HOL function of the same name (\<open>u_\<close> replaces a leading underscore; a loop of a function is a
  definition of its own named after it). State is passed and returned explicitly. The outer \<open>option\<close> of an operation is \<open>None\<close>
  when the C code would read or write outside an allocation, follow a null or dangling pointer or fail an assertion, so a
  theorem that an operation returns \<open>Some\<close> shows the absence of these. Errors the code reports are values inside. Memory is
  a list of bytes with its allocated length or an explicit store of nodes; what the allocator leaves in fresh memory, addresses,
  random numbers, the clock, hash functions and other callbacks are arguments, and the theorems hold for all of them.
  Integers have their width where the code can reach it (\<open>64 word\<close>, \<open>8 word\<close>, explicit \<open>mod 2 ^ 32\<close>); a signed overflow is
  \<open>None\<close> as well. The byte order is little-endian and pointers have 64 bits. \<^verbatim>\<open>dict.c\<close> and \<^verbatim>\<open>adlist.c\<close> use types
  that have 64 bits on every such platform, also on Windows, where a plain \<^verbatim>\<open>long\<close> has 32; the plain ones left in
  \<^verbatim>\<open>listpack.c\<close> are read with 64 bits, and no result depends on it.

  \<^bold>\<open>Prelude.\<close> Bytes, bounds-checked memory, little-endian integers, and the locale \<open>session\<close>: an implementation step, a
  specification step, a precondition and a representation relation with a one-step refinement law give the refinement of
  whole sequences of calls. It is interpreted for the intset, the linked list, the dictionary and the listpack.

  \<^bold>\<open>Intset\<close> (\<^verbatim>\<open>intset.c\<close>). The sorted array with its three encodings, byte for byte. Sessions refine a finite set of
  integers; the in-place widening keeps the elements; the integrity check accepts exactly the images of well-formed sets, up to
  \<open>2 ^ 31\<close> elements, where an index that is passed as an \<^verbatim>\<open>int\<close> turns negative; at \<open>2 ^ 29\<close> elements a 32-bit byte count wraps and
  an insertion loses an element.

  \<^bold>\<open>Fwtree\<close> (\<^verbatim>\<open>fwtree.c\<close>). The tree of partial sums represents a list of counters: prefix sums, updates, and the searches for
  the counter that reaches a sum and for the next non-empty one. The locale \<open>counter_family\<close> states this contract.

  \<^bold>\<open>Util\<close>, \<^bold>\<open>Glob\<close> (\<^verbatim>\<open>util.c\<close>). Printing and parsing of integers and fixed-point numbers, units of memory, and glob matching.
  \<open>string2ll\<close> accepts exactly the canonical decimals; \<open>ll2string\<close> writes them; the matcher with its early exit agrees
  with a declarative matching relation on the parsed pattern, bracket expressions included, within the nesting limit of 1000
  that the code sets. Two faults of the fixed-point printer are stated in general: an odd number of fractional digits
  loses the dot, and the length check is off by one.

  \<^bold>\<open>Adlist\<close> (\<^verbatim>\<open>adlist.c\<close>). The doubly linked list on a store of nodes. Sessions refine a list for every allocator that
  returns an unused address, freed ones included; deleting the node an iterator
  has returned does not disturb the iteration; duplication copies or releases everything.

  \<^bold>\<open>Dict\<close>, \<^bold>\<open>Dict_Ops\<close>, \<^bold>\<open>Dict_Session\<close>, \<^bold>\<open>Dict_Scan\<close>, \<^bold>\<open>Dict_Log\<close>, \<^bold>\<open>Dict_Iter\<close>, \<^bold>\<open>Dict_Sweep\<close> (\<^verbatim>\<open>dict.c\<close>). The hash table with two
  tables and incremental rehashing. \<open>dict_inv\<close> is the invariant (\<open>Dict\<close>), every operation keeps it and acts as on a map
  (\<open>Dict_Ops\<close>), so sessions refine a finite map for any hash function and any resize policy, rehashing terminates and
  completes (\<open>Dict_Session\<close>); a scan with the reverse binary cursor reports every key that is present throughout, whatever
  resizes happen between its calls, and ends (\<open>Dict_Scan\<close>); the callbacks of a dictionary tell an observer the number of its
  buckets and the state of its rehashing (\<open>Dict_Log\<close>); iterators return every entry once (\<open>Dict_Iter\<close>), also when
  the entries they return are deleted, except in a type that forces complete rehashing (\<open>Dict_Sweep\<close>).

  \<^bold>\<open>Listpack\<close> (\<^verbatim>\<open>listpack.c\<close>): \<open>Listpack\<close> is the model; \<open>Listpack_Rep\<close> decodes entries, \<open>Listpack_Walk\<close> navigates,
  \<open>Listpack_Edit\<close> inserts and deletes, \<open>Listpack_Bulk\<close> handles ranges, merges and batches, \<open>Listpack_Read\<close> reads and
  searches, \<open>Listpack_Valid\<close> is the integrity check, \<open>Listpack_Session\<close> the refinement of a list of strings and
  \<open>Listpack_Props\<close> the properties.

  \<^bold>\<open>Bounds.\<close> Loops are structural recursions, functions with termination proofs, or \<open>partial_function (option)\<close> with a lemma that
  they return. Sizes of listpacks stay below the 4 GB limit of the format, which the code enforces; intsets below \<open>2 ^ 29\<close>
  elements, beyond which the code fails; sums of Fenwick trees below \<open>2 ^ 64\<close> and their updates to \<open>2 ^ 29\<close> counters, as the
  index overflows above; budgets of \<^verbatim>\<open>dictRehash\<close> to those whose tenfold is an \<^verbatim>\<open>int\<close>.

  \<^bold>\<open>Not modelled.\<close> In \<^verbatim>\<open>dict.c\<close>: the tagged pointers that store a key in place of an entry, defragmentation and the printing of
  statistics; in \<^verbatim>\<open>listpack.c\<close>: the random selections and printing; in \<^verbatim>\<open>util.c\<close>: floating point, random identifiers
  and files. The command handlers, networking, persistence, replication, cluster, scripting and modules act on sockets, files,
  processes or loaded code and rest on the object system; the other data structures (the key-value
  store on top of the dictionary, quicklist, radix tree, skiplist, strings, compression) are listed in the manifest as not modelled.
\<close>

end
